(* ===== verification/Prelude.thy ===== *)
theory Prelude
  imports Complex_Main "HOL-Library.Monad_Syntax" "HOL-Library.AList"
begin

text \<open>
  Shared vocabulary of the development.

  The daemon and the client are C++: methods mutate their object and may leave by an
  exception, and what they wrote before the exception stays written.  A method is
  modelled as a function from the object's state to a result and the state it leaves
  behind, where the result is either an exception or a return value (\<open>prog\<close>).
  \<open>ret\<close>, \<open>throw\<close> and \<open>bnd\<close> are return, throw and sequencing; \<open>vat\<close> is
  \<open>std::vector::at\<close>, which throws when the index is out of range, \<open>vput\<close> the vector after
  an assignment through it and \<open>vresize\<close> is \<open>std::vector::resize\<close>; \<open>zoom\<close> runs a
  method of a member object; \<open>forEach\<close> is a range-based for loop.

  Programs are verified with the weakest precondition \<open>wp\<close>: \<open>wp m Q E s\<close> says that
  \<open>m\<close>, started in \<open>s\<close>, either returns a value and a state that satisfy \<open>Q\<close> or throws an
  exception in a state that satisfies \<open>E\<close>.  The collection \<open>wp_simps\<close> holds one
  equation per combinator, so that \<open>simp add: wp_simps\<close> turns a goal about a program
  into a goal about its state.
\<close>

section \<open>Programs with state and exceptions\<close>

datatype exn =
    OutOfRange          \<comment> \<open>std::out\_of\_range of \<open>vat\<close>\<close>
  | OutOfFuel           \<comment> \<open>a loop did not end within its bound; shown not to happen\<close>
  | NixError string     \<comment> \<open>nix::Error and its kin, by message\<close>

type_synonym ('s, 'a) prog = "'s \<Rightarrow> (exn + 'a) \<times> 's"

named_theorems wp_simps \<open>weakest preconditions of the combinators\<close>

definition ret :: "'a \<Rightarrow> ('s, 'a) prog" where
  "ret a s = (Inr a, s)"

definition throw :: "exn \<Rightarrow> ('s, 'a) prog" where
  "throw e s = (Inl e, s)"

definition bnd :: "('s, 'a) prog \<Rightarrow> ('a \<Rightarrow> ('s, 'b) prog) \<Rightarrow> ('s, 'b) prog" where
  "bnd m f s = (case m s of (Inl e, t) \<Rightarrow> (Inl e, t) | (Inr a, t) \<Rightarrow> f a t)"

definition gets :: "('s \<Rightarrow> 'a) \<Rightarrow> ('s, 'a) prog" where
  "gets f s = (Inr (f s), s)"

definition upd :: "('s \<Rightarrow> 's) \<Rightarrow> ('s, unit) prog" where
  "upd f s = (Inr (), f s)"

definition vat :: "'a list \<Rightarrow> nat \<Rightarrow> ('s, 'a) prog" where
  "vat xs i s = (if i < length xs then (Inr (xs ! i), s) else (Inl OutOfRange, s))"

definition vput :: "'a list \<Rightarrow> nat \<Rightarrow> 'a \<Rightarrow> ('s, 'a list) prog" where
  "vput xs i v s = (if i < length xs then (Inr (xs[i := v]), s) else (Inl OutOfRange, s))"

definition vresize :: "nat \<Rightarrow> 'a \<Rightarrow> 'a list \<Rightarrow> 'a list" where
  "vresize n v xs = take n xs @ replicate (n - length xs) v"

definition zoom :: "('s \<Rightarrow> 't) \<Rightarrow> ('t \<Rightarrow> 's \<Rightarrow> 's) \<Rightarrow> ('t, 'a) prog \<Rightarrow> ('s, 'a) prog" where
  "zoom get put m s = (case m (get s) of (r, t) \<Rightarrow> (r, put t s))"

fun forEach :: "'x list \<Rightarrow> ('x \<Rightarrow> ('s, unit) prog) \<Rightarrow> ('s, unit) prog" where
  "forEach [] body = ret ()"
| "forEach (x # xs) body = bnd (body x) (\<lambda>_. forEach xs body)"

definition wp :: "('s, 'a) prog \<Rightarrow> ('a \<Rightarrow> 's \<Rightarrow> bool) \<Rightarrow> (exn \<Rightarrow> 's \<Rightarrow> bool) \<Rightarrow> 's \<Rightarrow> bool" where
  "wp m Q E s = (case m s of (Inl e, t) \<Rightarrow> E e t | (Inr a, t) \<Rightarrow> Q a t)"

abbreviation noThrow :: "exn \<Rightarrow> 's \<Rightarrow> bool" where
  "noThrow \<equiv> (\<lambda>_ _. False)"

lemma wp_ret [wp_simps]: "wp (ret a) Q E = Q a"
  by (simp add: wp_def ret_def fun_eq_iff)

lemma wp_throw [wp_simps]: "wp (throw e) Q E = E e"
  by (simp add: wp_def throw_def fun_eq_iff)

lemma wp_bnd [wp_simps]: "wp (bnd m f) Q E = wp m (\<lambda>a. wp (f a) Q E) E"
  by (simp add: wp_def bnd_def fun_eq_iff split: prod.split sum.split)

lemma wp_gets [wp_simps]: "wp (gets f) Q E = (\<lambda>s. Q (f s) s)"
  by (simp add: wp_def gets_def fun_eq_iff)

lemma wp_upd [wp_simps]: "wp (upd f) Q E = (\<lambda>s. Q () (f s))"
  by (simp add: wp_def upd_def fun_eq_iff)

lemma wp_vat [wp_simps]: "wp (vat xs i) Q E = (\<lambda>s. if i < length xs then Q (xs ! i) s else E OutOfRange s)"
  by (simp add: wp_def vat_def fun_eq_iff)

lemma wp_vput [wp_simps]:
  "wp (vput xs i v) Q E = (\<lambda>s. if i < length xs then Q (xs[i := v]) s else E OutOfRange s)"
  by (simp add: wp_def vput_def fun_eq_iff)

lemma wp_zoom [wp_simps]:
  "wp (zoom get put m) Q E = (\<lambda>s. wp m (\<lambda>a t. Q a (put t s)) (\<lambda>e t. E e (put t s)) (get s))"
  by (simp add: wp_def zoom_def fun_eq_iff split: prod.split sum.split)

lemma wp_if [wp_simps]: "wp (if b then m else n) Q E = (\<lambda>s. if b then wp m Q E s else wp n Q E s)"
  by (simp add: fun_eq_iff)

lemma wp_option [wp_simps]:
  "wp (case x of None \<Rightarrow> m | Some a \<Rightarrow> f a) Q E =
     (\<lambda>s. case x of None \<Rightarrow> wp m Q E s | Some a \<Rightarrow> wp (f a) Q E s)"
  by (simp add: fun_eq_iff split: option.split)

lemma wp_prod [wp_simps]: "wp (case x of (a, b) \<Rightarrow> f a b) Q E = (\<lambda>s. case x of (a, b) \<Rightarrow> wp (f a b) Q E s)"
  by (simp add: fun_eq_iff split: prod.split)

lemma wp_Let [wp_simps]: "wp (Let a f) Q E = wp (f a) Q E"
  by simp

lemma wp_mono:
  assumes "wp m Q E s" and "\<And>a t. Q a t \<Longrightarrow> Q' a t" and "\<And>e t. E e t \<Longrightarrow> E' e t"
  shows "wp m Q' E' s"
  using assms by (auto simp: wp_def split: prod.splits sum.splits)

lemma wp_conj:
  assumes "wp m Q E s" and "wp m Q' E' s"
  shows "wp m (\<lambda>a t. Q a t \<and> Q' a t) (\<lambda>e t. E e t \<and> E' e t) s"
  using assms by (auto simp: wp_def split: prod.splits sum.splits)

lemma wp_noThrowI: "m s = (Inr a, t) \<Longrightarrow> Q a t \<Longrightarrow> wp m Q E s"
  by (simp add: wp_def)

lemma wp_noThrowD: "wp m Q noThrow s \<Longrightarrow> \<exists>a t. m s = (Inr a, t) \<and> Q a t"
  by (auto simp: wp_def split: prod.splits sum.splits)

text \<open>A for loop keeps an invariant that its body keeps for every element.\<close>

lemma wp_forEach:
  assumes "I s"
    and "\<And>x t. x \<in> set xs \<Longrightarrow> I t \<Longrightarrow> wp (body x) (\<lambda>_. I) E t"
  shows "wp (forEach xs body) (\<lambda>_. I) E s"
  using assms
proof (induction xs arbitrary: s)
  case Nil
  then show ?case by (simp add: wp_simps)
next
  case (Cons x xs)
  have rest: "wp (forEach xs body) (\<lambda>_. I) E t" if "I t" for t
    using that Cons.prems(2) by (intro Cons.IH) auto
  have "wp (body x) (\<lambda>_ t. wp (forEach xs body) (\<lambda>_. I) E t) E s"
    by (rule wp_mono [OF Cons.prems(2) [of x s]]) (auto intro: rest Cons.prems(1))
  then show ?case by (simp add: wp_simps)
qed

section \<open>Fallible functions and decimal numbers\<close>

text \<open>A function without state that may throw returns \<open>exn + 'a\<close>.\<close>

definition ebnd :: "exn + 'a \<Rightarrow> ('a \<Rightarrow> exn + 'b) \<Rightarrow> exn + 'b" where
  "ebnd r f = (case r of Inl e \<Rightarrow> Inl e | Inr a \<Rightarrow> f a)"

fun emap :: "('a \<Rightarrow> exn + 'b) \<Rightarrow> 'a list \<Rightarrow> exn + 'b list" where
  "emap f [] = Inr []"
| "emap f (x # xs) = ebnd (f x) (\<lambda>y. ebnd (emap f xs) (\<lambda>ys. Inr (y # ys)))"

lemma ebnd_Inr [simp]: "ebnd r f = Inr b \<longleftrightarrow> (\<exists>a. r = Inr a \<and> f a = Inr b)"
  by (simp add: ebnd_def split: sum.split)

lemma emap_Inr: "emap f xs = Inr ys \<longleftrightarrow> list_all2 (\<lambda>x y. f x = Inr y) xs ys"
  by (induction xs arbitrary: ys) (auto simp: list_all2_Cons1)

text \<open>\<open>std::to_string\<close> of an unsigned number.\<close>

fun decimal :: "nat \<Rightarrow> string" where
  "decimal n = (if n < 10 then [char_of (48 + n)] else decimal (n div 10) @ [char_of (48 + n mod 10)])"

declare decimal.simps [simp del]

section \<open>Lists and association lists\<close>

lemma nth_update_if: "i < length xs \<Longrightarrow> xs[i := v] ! j = (if i = j then v else xs ! j)"
  by (cases "i = j") auto

lemma distinct_length_le:
  assumes "distinct xs" and "\<And>x. x \<in> set xs \<Longrightarrow> x < n"
  shows "length xs \<le> n"
proof -
  from assms(2) have "set xs \<subseteq> {..<n}" by auto
  then have "card (set xs) \<le> card {..<n}" by (rule card_mono [rotated]) simp
  with assms(1) show ?thesis by (simp add: distinct_card)
qed

lemma map_of_update [simp]: "map_of (AList.update k v al) = (map_of al)(k \<mapsto> v)"
  by (rule update_conv')

lemma map_of_delete [simp]: "map_of (AList.delete k al) = (map_of al)(k := None)"
  by (rule delete_conv')

end
