(* ===== verification/IndexedHeap.thy ===== *)
theory IndexedHeap
  imports Prelude "HOL-Library.Product_Lexorder" "HOL-Library.Multiset"
begin

text \<open>
  The scheduler's priority queue (class \<open>IndexedHeap\<close> of \<^verbatim>\<open>src/daemon/scheduler.hh\<close>):
  a 4-ary min-heap of (key, id) pairs with a position table, so that the key of an id can
  be changed and an id can be erased in place.  The key type is any linear order: the
  scheduler's keys are doubles, and nothing here depends on their arithmetic.

  \<open>indexed_queue\<close> is the contract the scheduler relies on: the queue is a finite map from
  ids to keys, \<open>set\<close> and \<open>erase\<close> update that map and never throw, and \<open>top\<close> is the id
  with the least (key, id).  It is interpreted on the heap at the end of the theory.
\<close>

section \<open>The heap\<close>

record 'k iheap =
  heap :: "('k \<times> nat) list"
  hpos :: "nat list"

definition npos :: nat where
  "npos = 4294967295"

definition iheap0 :: "'k iheap" where
  "iheap0 = \<lparr>heap = [], hpos = []\<rparr>"

definition place :: "nat \<Rightarrow> 'k \<times> nat \<Rightarrow> ('k iheap, unit) prog" where
  "place idx item =
     bnd (gets hpos) (\<lambda>ps.
     bnd (vat ps (snd item)) (\<lambda>_.
     bnd (upd (\<lambda>h. h\<lparr>hpos := ps[snd item := idx mod 2 ^ 32]\<rparr>)) (\<lambda>_.
     bnd (gets heap) (\<lambda>hs.
     bnd (vat hs idx) (\<lambda>_.
     upd (\<lambda>h. h\<lparr>heap := hs[idx := item]\<rparr>))))))"

fun siftUpLoop :: "('k::linorder) \<times> nat \<Rightarrow> nat \<Rightarrow> ('k iheap, unit) prog" where
  "siftUpLoop item idx =
     (if 0 < idx then
        let parent = (idx - 1) div 4 in
        bnd (gets heap) (\<lambda>hs.
        bnd (vat hs parent) (\<lambda>p.
        if p \<le> item then place idx item
        else bnd (place idx p) (\<lambda>_. siftUpLoop item parent)))
      else place idx item)"

declare siftUpLoop.simps [simp del]

definition siftUp :: "nat \<Rightarrow> ('k::linorder iheap, unit) prog" where
  "siftUp idx = bnd (gets heap) (\<lambda>hs. bnd (vat hs idx) (\<lambda>item. siftUpLoop item idx))"

text \<open>
  The inner loop of \<open>siftDown\<close> over the children from \<open>child\<close> up to the end \<open>lim\<close>; the
  reads of \<open>heap.at\<close> are in range there, since \<open>lim\<close> is at most the heap's size and \<open>best\<close>
  starts as a valid index.
\<close>

fun bestChild :: "('k::linorder \<times> nat) list \<Rightarrow> nat list \<Rightarrow> nat \<Rightarrow> nat option" where
  "bestChild hs [] best = Some best"
| "bestChild hs (child # cs) best =
     (if child < length hs \<and> best < length hs
      then bestChild hs cs (if hs ! child < hs ! best then child else best)
      else None)"

lemma bestChild_mem: "bestChild hs cs b = Some c \<Longrightarrow> c \<in> insert b (set cs)"
  by (induction hs cs b rule: bestChild.induct) (auto split: if_splits)

function siftDownLoop :: "('k::linorder) \<times> nat \<Rightarrow> nat \<Rightarrow> nat \<Rightarrow> ('k iheap, unit) prog" where
  "siftDownLoop item len idx h =
     (let first = 4 * idx + 1 in
      if first \<ge> len then place idx item h
      else case bestChild (heap h) [first + 1 ..< min (first + 4) len] first of
        None \<Rightarrow> (Inl OutOfRange, h)
      | Some best \<Rightarrow>
          if length (heap h) \<le> best then (Inl OutOfRange, h)
          else if item \<le> heap h ! best then place idx item h
          else bnd (place idx (heap h ! best)) (\<lambda>_. siftDownLoop item len best) h)"
  by pat_completeness auto
termination
proof (relation "measure (\<lambda>(item, len, idx, h). len - idx)", goal_cases)
  case 1
  show ?case by simp
next
  case (2 item len idx h first best u)
  then have "best \<in> insert first (set [first + 1 ..< min (first + 4) len])"
    by (intro bestChild_mem)
  with 2 show ?case by auto
qed

declare siftDownLoop.simps [simp del]

definition siftDown :: "nat \<Rightarrow> ('k::linorder iheap, unit) prog" where
  "siftDown idx =
     bnd (gets heap) (\<lambda>hs. bnd (vat hs idx) (\<lambda>item. siftDownLoop item (length hs) idx))"

definition hsize :: "'k iheap \<Rightarrow> nat" where
  "hsize h = length (heap h)"

definition hcontains :: "'k iheap \<Rightarrow> nat \<Rightarrow> bool" where
  "hcontains h drv \<longleftrightarrow> drv < length (hpos h) \<and> hpos h ! drv \<noteq> npos"

definition top :: "'k iheap \<Rightarrow> nat option" where
  "top h = (case heap h of [] \<Rightarrow> None | x # _ \<Rightarrow> Some (snd x))"

definition topKey :: "'k iheap \<Rightarrow> 'k option" where
  "topKey h = (case heap h of [] \<Rightarrow> None | x # _ \<Rightarrow> Some (fst x))"

definition hset :: "nat \<Rightarrow> 'k::linorder \<Rightarrow> ('k iheap, unit) prog" where
  "hset drv key =
     (if drv = npos then throw (NixError ''IndexedHeap: id out of range'')
      else
        bnd (upd (\<lambda>h. if drv \<ge> length (hpos h)
                      then h\<lparr>hpos := hpos h @ replicate (drv + 1 - length (hpos h)) npos\<rparr> else h)) (\<lambda>_.
        bnd (gets hpos) (\<lambda>ps.
        bnd (vat ps drv) (\<lambda>idx.
        if idx = npos then
          bnd (upd (\<lambda>h. h\<lparr>hpos := ps[drv := length (heap h) mod 2 ^ 32]\<rparr>)) (\<lambda>_.
          bnd (upd (\<lambda>h. h\<lparr>heap := heap h @ [(key, drv)]\<rparr>)) (\<lambda>_.
          bnd (gets hsize) (\<lambda>n. siftUp (n - 1))))
        else
          bnd (gets heap) (\<lambda>hs.
          bnd (vat hs idx) (\<lambda>old.
          bnd (upd (\<lambda>h. h\<lparr>heap := hs[idx := (key, snd old)]\<rparr>)) (\<lambda>_.
          if key < fst old then siftUp idx else siftDown idx)))))))"

definition herase :: "nat \<Rightarrow> ('k::linorder iheap, unit) prog" where
  "herase drv =
     bnd (gets (\<lambda>h. hcontains h drv)) (\<lambda>there.
     if \<not> there then ret ()
     else
       bnd (gets hpos) (\<lambda>ps.
       bnd (vat ps drv) (\<lambda>idx.
       bnd (upd (\<lambda>h. h\<lparr>hpos := ps[drv := npos]\<rparr>)) (\<lambda>_.
       bnd (gets heap) (\<lambda>hs.
       let l = last hs in
       bnd (upd (\<lambda>h. h\<lparr>heap := butlast hs\<rparr>)) (\<lambda>_.
       if idx \<ge> length hs - 1 then ret ()
       else
         bnd (place idx l) (\<lambda>_.
         bnd (siftUp idx) (\<lambda>_.
         bnd (gets hpos) (\<lambda>ps'.
         bnd (vat ps' (snd l)) siftDown)))))))))"

section \<open>Heap order and position table\<close>


definition heapPar :: "nat \<Rightarrow> nat" where
  "heapPar i = (i - 1) div 4"

lemma heapPar_less: "0 < i \<Longrightarrow> heapPar i < i"
  by (simp add: heapPar_def)

lemma heapPar_child: "heapPar i = k \<Longrightarrow> 0 < i \<Longrightarrow> i \<in> {4 * k + 1 ..< 4 * k + 5}"
  unfolding heapPar_def atLeastLessThan_iff by (intro conjI; linarith)

definition almost :: "('a::linorder) list \<Rightarrow> nat \<Rightarrow> bool" where
  "almost ys k \<longleftrightarrow>
     (\<forall>i. 0 < i \<longrightarrow> i < length ys \<longrightarrow> i \<noteq> k \<longrightarrow> heapPar i \<noteq> k \<longrightarrow> ys ! heapPar i \<le> ys ! i) \<and>
     (\<forall>i. 0 < k \<longrightarrow> 0 < i \<longrightarrow> i < length ys \<longrightarrow> heapPar i = k \<longrightarrow> ys ! heapPar k \<le> ys ! i)"

definition upOk :: "('a::linorder) list \<Rightarrow> nat \<Rightarrow> bool" where
  "upOk ys k \<longleftrightarrow> (0 < k \<longrightarrow> ys ! heapPar k \<le> ys ! k)"

definition downOk :: "('a::linorder) list \<Rightarrow> nat \<Rightarrow> bool" where
  "downOk ys k \<longleftrightarrow> (\<forall>i. 0 < i \<longrightarrow> i < length ys \<longrightarrow> heapPar i = k \<longrightarrow> ys ! k \<le> ys ! i)"

definition heapOk :: "('a::linorder) list \<Rightarrow> bool" where
  "heapOk ys \<longleftrightarrow> (\<forall>i. 0 < i \<longrightarrow> i < length ys \<longrightarrow> ys ! heapPar i \<le> ys ! i)"

definition swapL :: "'a list \<Rightarrow> nat \<Rightarrow> nat \<Rightarrow> 'a list" where
  "swapL ys i j = ys[i := ys ! j, j := ys ! i]"

lemma swapL_simps [simp]:
  "length (swapL ys i j) = length ys"
  "i < length ys \<Longrightarrow> j < length ys \<Longrightarrow>
     swapL ys i j ! m = (if m = i then ys ! j else if m = j then ys ! i else ys ! m)"
  by (auto simp: swapL_def nth_list_update)

lemma mset_swapL: "i < length ys \<Longrightarrow> j < length ys \<Longrightarrow> mset (swapL ys i j) = mset ys"
  by (simp add: swapL_def mset_swap)

lemma heapOk_iff: "heapOk ys \<longleftrightarrow> almost ys k \<and> upOk ys k \<and> downOk ys k" if "k < length ys"
proof
  assume ok: "heapOk ys"
  have "ys ! heapPar k \<le> ys ! i" if "0 < k" "0 < i" "i < length ys" "heapPar i = k" for i
  proof -
    have "ys ! heapPar k \<le> ys ! k" using ok that \<open>k < length ys\<close> by (simp add: heapOk_def)
    also have "ys ! k \<le> ys ! i" using ok that unfolding heapOk_def by blast
    finally show ?thesis .
  qed
  with ok that show "almost ys k \<and> upOk ys k \<and> downOk ys k"
    unfolding heapOk_def almost_def upOk_def downOk_def by blast
next
  assume "almost ys k \<and> upOk ys k \<and> downOk ys k"
  then show "heapOk ys"
    unfolding heapOk_def almost_def upOk_def downOk_def by metis
qed

lemma almost_up:
  assumes k: "0 < k" "k < length ys" and al: "almost ys k" and lt: "ys ! k < ys ! heapPar k"
  shows "almost (swapL ys k (heapPar k)) (heapPar k)"
    and "downOk (swapL ys k (heapPar k)) (heapPar k)"
proof -
  define p where "p = heapPar k"
  define zs where "zs = swapL ys k p"
  have p: "p < k" "p < length ys" using k heapPar_less [of k] by (auto simp: p_def)
  have zs: "zs ! m = (if m = k then ys ! p else if m = p then ys ! k else ys ! m)" for m
    using k p by (simp add: zs_def)
  have len: "length zs = length ys" by (simp add: zs_def)
  have old: "ys ! heapPar i \<le> ys ! i" if "0 < i" "i < length ys" "i \<noteq> k" "heapPar i \<noteq> k" for i
    using al that by (simp add: almost_def)
  have grand: "ys ! p \<le> ys ! i" if "0 < i" "i < length ys" "heapPar i = k" for i
    using al that k by (simp add: almost_def p_def)
  have pp: "ys ! heapPar p \<le> ys ! p" if "0 < p"
    using old [OF that p(2)] p heapPar_less [OF that] by simp
  have sib: "ys ! p \<le> ys ! i" if "0 < i" "i < length ys" "i \<noteq> k" "heapPar i = p" for i
    using old [of i] that p by simp
  have "zs ! heapPar i \<le> zs ! i" if "0 < i" "i < length zs" "i \<noteq> p" "heapPar i \<noteq> p" for i
  proof -
    from that have "i \<noteq> k" by (auto simp: p_def)
    show ?thesis
    proof (cases "heapPar i = k")
      case True
      with that \<open>i \<noteq> k\<close> grand [of i] show ?thesis by (simp add: zs len)
    next
      case False
      with that \<open>i \<noteq> k\<close> old [of i] show ?thesis by (simp add: zs len)
    qed
  qed
  moreover have "zs ! heapPar p \<le> zs ! i"
    if "0 < p" "0 < i" "i < length zs" "heapPar i = p" for i
  proof -
    have "heapPar p \<noteq> p" "heapPar p \<noteq> k" using heapPar_less [OF that(1)] p by auto
    moreover have "i \<noteq> p" using heapPar_less [OF that(2)] that(4) by auto
    ultimately show ?thesis using that pp sib [of i] by (auto simp: zs len)
  qed
  ultimately show "almost (swapL ys k (heapPar k)) (heapPar k)"
    unfolding almost_def p_def [symmetric] zs_def [symmetric] by blast
  have "zs ! p \<le> zs ! i" if "0 < i" "i < length zs" "heapPar i = p" for i
  proof -
    have "i \<noteq> p" using heapPar_less [OF that(1)] that(3) by auto
    moreover have "ys ! k \<le> ys ! p" using lt by (simp add: p_def)
    ultimately show ?thesis using that p sib [of i] by (auto simp: zs len)
  qed
  then show "downOk (swapL ys k (heapPar k)) (heapPar k)"
    unfolding downOk_def p_def [symmetric] zs_def [symmetric] by blast
qed

lemma heapOk_down:
  assumes k: "k < length ys" and al: "almost ys k" and up: "upOk ys k"
    and b: "b < length ys" "0 < b" "heapPar b = k"
    and min: "\<And>i. 0 < i \<Longrightarrow> i < length ys \<Longrightarrow> heapPar i = k \<Longrightarrow> ys ! b \<le> ys ! i"
    and lt: "ys ! b < ys ! k"
  shows "almost (swapL ys k b) b \<and> upOk (swapL ys k b) b"
proof -
  define zs where "zs = swapL ys k b"
  have kb: "k < b" using heapPar_less [OF b(2)] b(3) by simp
  have zs: "zs ! m = (if m = k then ys ! b else if m = b then ys ! k else ys ! m)" for m
    using k b by (simp add: zs_def)
  have len: "length zs = length ys" by (simp add: zs_def)
  have old: "ys ! heapPar i \<le> ys ! i" if "0 < i" "i < length ys" "i \<noteq> k" "heapPar i \<noteq> k" for i
    using al that by (simp add: almost_def)
  have grand: "ys ! heapPar k \<le> ys ! b" if "0 < k"
    using al that b k by (simp add: almost_def)
  have "upOk zs b" using kb b lt by (simp add: upOk_def zs)
  moreover have "zs ! heapPar i \<le> zs ! i" if "0 < i" "i < length zs" "i \<noteq> b" "heapPar i \<noteq> b" for i
  proof (cases "i = k")
    case True
    with that grand heapPar_less [of k] show ?thesis by (simp add: zs)
  next
    case False
    show ?thesis
    proof (cases "heapPar i = k")
      case True
      with False that min [of i] show ?thesis by (simp add: zs len)
    next
      case neq: False
      with False that old [of i] show ?thesis by (simp add: zs len)
    qed
  qed
  moreover have "zs ! heapPar b \<le> zs ! i" if "0 < i" "i < length zs" "heapPar i = b" for i
  proof -
    have "i \<noteq> b" "i \<noteq> k" using heapPar_less [OF that(1)] that(3) kb by auto
    with that b kb old [of i] show ?thesis by (simp add: zs len)
  qed
  ultimately show ?thesis unfolding almost_def zs_def [symmetric] by blast
qed


definition idxOk :: "('k \<times> nat) list \<Rightarrow> nat list \<Rightarrow> bool" where
  "idxOk hs ps \<longleftrightarrow>
     length ps \<le> npos \<and>
     (\<forall>i < length hs. snd (hs ! i) < length ps \<and> ps ! snd (hs ! i) = i) \<and>
     (\<forall>d < length ps. ps ! d \<noteq> npos \<longrightarrow> ps ! d < length hs \<and> snd (hs ! (ps ! d)) = d)"

lemma idxOkD:
  assumes "idxOk hs ps"
  shows "length ps \<le> npos"
    and "i < length hs \<Longrightarrow> snd (hs ! i) < length ps"
    and "i < length hs \<Longrightarrow> ps ! snd (hs ! i) = i"
    and "d < length ps \<Longrightarrow> ps ! d \<noteq> npos \<Longrightarrow> ps ! d < length hs"
    and "d < length ps \<Longrightarrow> ps ! d \<noteq> npos \<Longrightarrow> snd (hs ! (ps ! d)) = d"
  using assms by (simp_all add: idxOk_def)

lemma idxOk_inj:
  assumes "idxOk hs ps" "i < length hs" "j < length hs" "snd (hs ! i) = snd (hs ! j)"
  shows "i = j"
  using idxOkD(3) [OF assms(1)] assms(2-) by metis

lemma idxOk_distinct: "idxOk hs ps \<Longrightarrow> distinct (map snd hs)"
  by (auto simp: distinct_conv_nth dest: idxOk_inj)

lemma idxOk_length:
  assumes "idxOk hs ps"
  shows "length hs \<le> length ps"
proof -
  have "length (map snd hs) \<le> length ps"
    by (rule distinct_length_le [OF idxOk_distinct [OF assms]])
      (use idxOkD(2) [OF assms] in \<open>fastforce simp: in_set_conv_nth\<close>)
  then show ?thesis by simp
qed

lemma idxOk_small: "idxOk hs ps \<Longrightarrow> i < length hs \<Longrightarrow> i < npos"
  using idxOk_length [of hs ps] idxOkD(1) [of hs ps] by linarith

lemma npos_mod: "i < npos \<Longrightarrow> i mod 4294967296 = i"
  by (simp add: npos_def)

lemma idxOk_swap:
  assumes ok: "idxOk ys ps" and i: "i < length ys" and j: "j < length ys" and "i \<noteq> j"
  shows "idxOk (swapL ys i j) (ps[snd (ys ! j) := i, snd (ys ! i) := j])"
proof -
  note D = idxOkD [OF ok]
  have ne: "snd (ys ! i) \<noteq> snd (ys ! j)" using idxOk_inj [OF ok i j] \<open>i \<noteq> j\<close> by auto
  have ps: "ps[snd (ys ! j) := i, snd (ys ! i) := j] ! d =
      (if d = snd (ys ! i) then j else if d = snd (ys ! j) then i else ps ! d)" for d
    using D(2) [OF i] D(2) [OF j] by (auto simp: nth_update_if)
  have other: "ps ! d \<noteq> i" "ps ! d \<noteq> j"
    if "d < length ps" "ps ! d \<noteq> npos" "d \<noteq> snd (ys ! i)" "d \<noteq> snd (ys ! j)" for d
    using D(5) [OF that(1,2)] that by auto
  show ?thesis
    unfolding idxOk_def ps
  proof (intro conjI allI impI, goal_cases)
    case 1
    show ?case using D(1) by simp
  next
    case (2 m)
    then show ?case using i j D(2) by simp
  next
    case (3 m)
    then show ?case using i j ne D(3) idxOk_inj [OF ok, of m] by auto
  next
    case (4 d)
    then show ?case using i j D(4) by auto
  next
    case (5 d)
    consider "d = snd (ys ! i)" | "d \<noteq> snd (ys ! i)" "d = snd (ys ! j)"
      | "d \<noteq> snd (ys ! i)" "d \<noteq> snd (ys ! j)" by blast
    then show ?case
    proof cases
      case 3
      with 5 have d: "d < length ps" "ps ! d \<noteq> npos" by auto
      from other [OF this 3] D(5) [OF d] D(4) [OF d] i j 3 show ?thesis by simp
    qed (use i j \<open>i \<noteq> j\<close> in auto)
  qed
qed

lemma place_eq:
  assumes "idx < length (heap h)" "snd item < length (hpos h)" "idx < npos"
  shows "place idx item h = (Inr (), h\<lparr>heap := (heap h)[idx := item], hpos := (hpos h)[snd item := idx]\<rparr>)"
  using assms by (simp add: place_def bnd_def gets_def upd_def vat_def npos_mod)

text \<open>The loops carry \<open>item\<close> in a hole at \<open>idx\<close>: what the invariants are about is the array
  and the table with the hole filled.\<close>

definition fillH :: "'k iheap \<Rightarrow> 'k \<times> nat \<Rightarrow> nat \<Rightarrow> ('k \<times> nat) list" where
  "fillH h item idx = (heap h)[idx := item]"

definition fillP :: "'k iheap \<Rightarrow> 'k \<times> nat \<Rightarrow> nat \<Rightarrow> nat list" where
  "fillP h item idx = (hpos h)[snd item := idx]"

definition holeOk :: "'k iheap \<Rightarrow> 'k \<times> nat \<Rightarrow> nat \<Rightarrow> bool" where
  "holeOk h item idx \<longleftrightarrow>
     idx < length (heap h) \<and> snd item < length (hpos h) \<and> idxOk (fillH h item idx) (fillP h item idx)"

lemma fill_simps [simp]:
  "length (fillH h item idx) = length (heap h)"
  "length (fillP h item idx) = length (hpos h)"
  "idx < length (heap h) \<Longrightarrow> fillH h item idx ! idx = item"
  "m \<noteq> idx \<Longrightarrow> fillH h item idx ! m = heap h ! m"
  by (auto simp: fillH_def fillP_def)

lemma holeOk_small: "holeOk h item idx \<Longrightarrow> idx < npos"
  by (auto simp: holeOk_def intro: idxOk_small)

lemma holeOk_place:
  assumes "holeOk h item idx"
  shows "place idx item h = (Inr (), h\<lparr>heap := fillH h item idx, hpos := fillP h item idx\<rparr>)"
  using assms holeOk_small [OF assms]
  by (simp add: holeOk_def place_eq fillH_def fillP_def)

lemma hole_move:
  assumes ok: "holeOk h item idx" and j: "j < length (heap h)" "j \<noteq> idx"
  defines "h' \<equiv> h\<lparr>heap := (heap h)[idx := heap h ! j], hpos := (hpos h)[snd (heap h ! j) := idx]\<rparr>"
  shows "place idx (heap h ! j) h = (Inr (), h')"
    and "holeOk h' item j"
    and "fillH h' item j = swapL (fillH h item idx) idx j"
    and "length (hpos h') = length (hpos h)"
proof -
  from ok have i: "idx < length (heap h)" "snd item < length (hpos h)"
    and ok': "idxOk (fillH h item idx) (fillP h item idx)" by (auto simp: holeOk_def)
  have sj: "snd (heap h ! j) < length (hpos h)"
    using idxOkD(2) [OF ok', of j] j i by simp
  show "place idx (heap h ! j) h = (Inr (), h')"
    using i sj holeOk_small [OF ok] by (simp add: place_eq h'_def)
  show eq: "fillH h' item j = swapL (fillH h item idx) idx j"
    using i j by (auto simp: fillH_def swapL_def h'_def list_update_swap)
  have ne: "snd item \<noteq> snd (heap h ! j)"
    using idxOk_inj [OF ok', of idx j] i j by auto
  have "fillP h' item j =
      (fillP h item idx)[snd (fillH h item idx ! j) := idx, snd (fillH h item idx ! idx) := j]"
    using i j ne by (simp add: fillP_def h'_def list_update_swap)
  with idxOk_swap [OF ok', of idx j] i j
  have "idxOk (fillH h' item j) (fillP h' item j)" by (simp add: eq)
  then show "holeOk h' item j" using i j by (simp add: holeOk_def h'_def)
  show "length (hpos h') = length (hpos h)" by (simp add: h'_def)
qed

lemma siftUpLoop_ok:
  assumes "holeOk h item idx" "almost (fillH h item idx) idx"
  shows "\<exists>h' k. siftUpLoop item idx h = (Inr (), h') \<and> idxOk (heap h') (hpos h') \<and>
    k < length (heap h') \<and> heap h' ! k = item \<and> almost (heap h') k \<and> upOk (heap h') k \<and>
    (downOk (fillH h item idx) idx \<longrightarrow> downOk (heap h') k) \<and>
    mset (heap h') = mset (fillH h item idx) \<and> length (hpos h') = length (hpos h)"
  using assms
proof (induction item idx arbitrary: h rule: siftUpLoop.induct)
  case (1 item idx)
  note ok = \<open>holeOk h item idx\<close> and al = \<open>almost (fillH h item idx) idx\<close>
  have idx: "idx < length (heap h)" using ok by (simp add: holeOk_def)
  have stop: ?case if "siftUpLoop item idx h = place idx item h" "upOk (fillH h item idx) idx"
    using that ok al idx by (auto simp: holeOk_place holeOk_def intro!: exI [of _ idx])
  show ?case
  proof (cases "0 < idx")
    case False
    then show ?thesis by (intro stop) (simp_all add: siftUpLoop.simps [of item 0] upOk_def)
  next
    case True
    define p where "p = heapPar idx"
    have p: "p < idx" "p < length (heap h)" "p \<noteq> idx"
      using idx heapPar_less [OF True] by (auto simp: p_def)
    have unf: "siftUpLoop item idx h =
        (if heap h ! p \<le> item then place idx item h
         else bnd (place idx (heap h ! p)) (\<lambda>_. siftUpLoop item p) h)"
      using True p by (simp add: siftUpLoop.simps [of item idx] bnd_def gets_def vat_def Let_def
          p_def heapPar_def)
    show ?thesis
    proof (cases "heap h ! p \<le> item")
      case True
      with unf p idx show ?thesis by (intro stop) (simp_all add: upOk_def p_def [symmetric])
    next
      case False
      define h' where "h' = h\<lparr>heap := (heap h)[idx := heap h ! p], hpos := (hpos h)[snd (heap h ! p) := idx]\<rparr>"
      note move = hole_move [OF ok p(2,3), folded h'_def]
      have lt: "fillH h item idx ! idx < fillH h item idx ! heapPar idx"
        using False p idx by (simp add: p_def [symmetric])
      note up = almost_up [OF \<open>0 < idx\<close> _ al lt, folded p_def move(3)]
      have "\<exists>g k. siftUpLoop item p h' = (Inr (), g) \<and> idxOk (heap g) (hpos g) \<and>
          k < length (heap g) \<and> heap g ! k = item \<and> almost (heap g) k \<and> upOk (heap g) k \<and>
          (downOk (fillH h' item p) p \<longrightarrow> downOk (heap g) k) \<and>
          mset (heap g) = mset (fillH h' item p) \<and> length (hpos g) = length (hpos h')"
        by (rule "1.IH" [OF \<open>0 < idx\<close>, of p "heap h ! p"])
          (use False idx move up in \<open>auto simp: p_def heapPar_def\<close>)
      with idx p up move show ?thesis
        by (simp add: unf False bnd_def mset_swapL) blast
    qed
  qed
qed


lemma bestChild_total:
  "\<forall>c \<in> insert b (set cs). c < length hs \<Longrightarrow> \<exists>c. bestChild hs cs b = Some c"
  by (induction hs cs b rule: bestChild.induct) auto

lemma bestChild_min:
  "bestChild hs cs b = Some c \<Longrightarrow> x \<in> insert b (set cs) \<Longrightarrow> hs ! c \<le> hs ! x"
proof (induction hs cs b arbitrary: x rule: bestChild.induct)
  case (1 hs best)
  then show ?case by simp
next
  case (2 hs child cs best)
  let ?b = "if hs ! child < hs ! best then child else best"
  from "2.prems"(1) have rec: "child < length hs \<and> best < length hs" "bestChild hs cs ?b = Some c"
    by (auto split: if_splits)
  note IH = "2.IH" [OF rec]
  have "hs ! c \<le> hs ! ?b" by (rule IH) simp
  moreover have "hs ! ?b \<le> hs ! best" "hs ! ?b \<le> hs ! child" by auto
  ultimately show ?case using "2.prems"(2) IH [of x] by (auto intro: order.trans)
qed

lemma siftDownLoop_ok:
  assumes "holeOk h item idx" "almost (fillH h item idx) idx" "upOk (fillH h item idx) idx"
    and "len = length (heap h)"
  shows "\<exists>h'. siftDownLoop item len idx h = (Inr (), h') \<and> idxOk (heap h') (hpos h') \<and>
    heapOk (heap h') \<and> mset (heap h') = mset (fillH h item idx) \<and> length (hpos h') = length (hpos h)"
  using assms
proof (induction item len idx h rule: siftDownLoop.induct)
  case (1 item len idx h)
  note ok = \<open>holeOk h item idx\<close> and al = \<open>almost (fillH h item idx) idx\<close>
    and up = \<open>upOk (fillH h item idx) idx\<close> and len = \<open>len = length (heap h)\<close>
  have idx: "idx < length (heap h)" using ok by (simp add: holeOk_def)
  have stop: ?case if "siftDownLoop item len idx h = place idx item h" "downOk (fillH h item idx) idx"
    using that ok al up idx heapOk_iff [of idx "fillH h item idx"]
    by (auto simp: holeOk_place holeOk_def)
  define first where "first = 4 * idx + 1"
  show ?case
  proof (cases "first \<ge> len")
    case True
    have "\<not> i < length (heap h)" if "0 < i" "heapPar i = idx" for i
      using heapPar_child [OF that(2,1)] True len by (simp add: first_def)
    then have "downOk (fillH h item idx) idx" by (auto simp: downOk_def)
    with True show ?thesis
      by (intro stop) (simp_all add: siftDownLoop.simps [of item len idx h] first_def)
  next
    case False
    define cs where "cs = [first + 1 ..< min (first + 4) len]"
    from False len have "\<exists>b. bestChild (heap h) cs first = Some b"
      by (intro bestChild_total) (auto simp: cs_def)
    then obtain b where b: "bestChild (heap h) cs first = Some b" by blast
    have mem: "b \<in> insert first (set cs)" by (rule bestChild_mem [OF b])
    with False len have bl: "b < length (heap h)" "idx < b" "0 < b" "heapPar b = idx" "b \<noteq> idx"
      by (auto simp: cs_def first_def heapPar_def)
    have least: "fillH h item idx ! b \<le> fillH h item idx ! i"
      if "0 < i" "i < length (fillH h item idx)" "heapPar i = idx" for i
    proof -
      have "i \<in> insert first (set cs)"
        using heapPar_child [OF that(3,1)] that(2) len by (auto simp: cs_def first_def)
      moreover have "i \<noteq> idx" using heapPar_less [OF that(1)] that(3) by auto
      ultimately show ?thesis using bestChild_min [OF b] bl by simp
    qed
    have unf: "siftDownLoop item len idx h =
        (if item \<le> heap h ! b then place idx item h
         else bnd (place idx (heap h ! b)) (\<lambda>_. siftDownLoop item len b) h)"
      unfolding siftDownLoop.simps [of item len idx h] first_def [symmetric] Let_def cs_def [symmetric]
      using False b bl by simp
    show ?thesis
    proof (cases "item \<le> heap h ! b")
      case True
      then have "fillH h item idx ! idx \<le> fillH h item idx ! b" using bl idx by simp
      then have "downOk (fillH h item idx) idx"
        unfolding downOk_def using least order.trans by blast
      with True unf show ?thesis by (intro stop) simp_all
    next
      case False
      define h' where "h' = h\<lparr>heap := (heap h)[idx := heap h ! b], hpos := (hpos h)[snd (heap h ! b) := idx]\<rparr>"
      note move = hole_move [OF ok bl(1,5), folded h'_def]
      have lt: "fillH h item idx ! b < fillH h item idx ! idx"
        using False bl idx by simp
      have down: "almost (fillH h' item b) b \<and> upOk (fillH h' item b) b"
        unfolding move(3) by (rule heapOk_down [OF _ al up _ bl(3,4) least lt]) (use idx bl in simp_all)
      have "\<exists>g. siftDownLoop item len b h' = (Inr (), g) \<and> idxOk (heap g) (hpos g) \<and>
          heapOk (heap g) \<and> mset (heap g) = mset (fillH h' item b) \<and> length (hpos g) = length (hpos h')"
        by (rule "1.IH" [OF first_def _ b [unfolded cs_def]])
          (use False \<open>\<not> first \<ge> len\<close> bl move down len in \<open>simp_all add: h'_def\<close>)
      with idx bl move show ?thesis
        by (simp add: unf False bnd_def mset_swapL) 
    qed
  qed
qed

definition hinv :: "'k::linorder iheap \<Rightarrow> bool" where
  "hinv h \<longleftrightarrow> idxOk (heap h) (hpos h) \<and> heapOk (heap h)"

definition halpha :: "'k iheap \<Rightarrow> nat \<rightharpoonup> 'k" where
  "halpha h = map_of (map prod.swap (heap h))"

lemma halpha_iff: "idxOk (heap h) (hpos h) \<Longrightarrow> halpha h d = Some k \<longleftrightarrow> (k, d) \<in> set (heap h)"
  unfolding halpha_def
  by (subst map_of_eq_Some_iff) (auto simp: comp_def dest: idxOk_distinct intro: image_eqI [where x = "(k, d)"])

lemma siftUp_ok:
  assumes "idxOk (heap h) (hpos h)" "idx < length (heap h)" "almost (heap h) idx"
  shows "\<exists>h' k. siftUp idx h = (Inr (), h') \<and> idxOk (heap h') (hpos h') \<and>
    k < length (heap h') \<and> heap h' ! k = heap h ! idx \<and> almost (heap h') k \<and> upOk (heap h') k \<and>
    (downOk (heap h) idx \<longrightarrow> heapOk (heap h')) \<and>
    mset (heap h') = mset (heap h) \<and> length (hpos h') = length (hpos h)"
proof -
  let ?item = "heap h ! idx"
  have fill: "fillH h ?item idx = heap h" "fillP h ?item idx = hpos h"
    using assms idxOkD(2,3) [OF assms(1,2)] by (simp_all add: fillH_def fillP_def list_update_same_conv)
  have "holeOk h ?item idx"
    using assms idxOkD(2) [OF assms(1,2)] by (simp add: holeOk_def fill)
  from siftUpLoop_ok [OF this] assms(3) obtain h' k where
    "siftUpLoop ?item idx h = (Inr (), h')" "idxOk (heap h') (hpos h')"
    "k < length (heap h')" "heap h' ! k = ?item" "almost (heap h') k" "upOk (heap h') k"
    "downOk (heap h) idx \<longrightarrow> downOk (heap h') k"
    "mset (heap h') = mset (heap h)" "length (hpos h') = length (hpos h)"
    unfolding fill by blast
  then show ?thesis
    using assms(2) by (intro exI [of _ h'] exI [of _ k])
      (simp add: siftUp_def bnd_def gets_def vat_def heapOk_iff [of k])
qed

lemma siftDown_ok:
  assumes "idxOk (heap h) (hpos h)" "idx < length (heap h)" "almost (heap h) idx" "upOk (heap h) idx"
  shows "\<exists>h'. siftDown idx h = (Inr (), h') \<and> hinv h' \<and>
    mset (heap h') = mset (heap h) \<and> length (hpos h') = length (hpos h)"
proof -
  let ?item = "heap h ! idx"
  have fill: "fillH h ?item idx = heap h" "fillP h ?item idx = hpos h"
    using assms idxOkD(2,3) [OF assms(1,2)] by (simp_all add: fillH_def fillP_def list_update_same_conv)
  have "holeOk h ?item idx"
    using assms idxOkD(2) [OF assms(1,2)] by (simp add: holeOk_def fill)
  from siftDownLoop_ok [OF this] assms(3,4) show ?thesis
    using assms(2) by (simp add: fill siftDown_def bnd_def gets_def vat_def hinv_def)
qed


lemma halpha_eqI:
  assumes "idxOk (heap h) (hpos h)" and "\<And>k d. (k, d) \<in> set (heap h) \<longleftrightarrow> f d = Some k"
  shows "halpha h = f"
proof
  fix d
  show "halpha h d = f d"
    using halpha_iff [OF assms(1)] assms(2) by (metis option.exhaust)
qed

lemma heapOk_butlast: "heapOk ys \<Longrightarrow> heapOk (butlast ys)"
proof -
  assume ok: "heapOk ys"
  have "butlast ys ! heapPar i \<le> butlast ys ! i" if "0 < i" "i < length (butlast ys)" for i
    using that ok heapPar_less [of i] by (simp add: heapOk_def nth_butlast)
  then show ?thesis by (simp add: heapOk_def)
qed

lemma almost_update:
  assumes "heapOk ys" "k < length ys"
  shows "almost (ys[k := x]) k"
proof -
  have al: "almost ys k" using assms heapOk_iff by blast
  have ne: "heapPar i \<noteq> i" if "0 < i" for i using heapPar_less [OF that] by simp
  show ?thesis
    unfolding almost_def
  proof (intro conjI allI impI, goal_cases)
    case (1 i)
    then show ?case using al by (simp add: almost_def)
  next
    case (2 i)
    then show ?case using al ne [of k] ne [of i] by (simp add: almost_def)
  qed
qed

lemma heapOk_snoc:
  assumes "heapOk ys"
  shows "almost (ys @ [x]) (length ys)" "downOk (ys @ [x]) (length ys)"
proof -
  have par: "heapPar i < i" "heapPar i \<noteq> length ys" if "0 < i" "i < length (ys @ [x])" for i
    using that heapPar_less [of i] by auto
  show "almost (ys @ [x]) (length ys)"
    unfolding almost_def
  proof (intro conjI allI impI, goal_cases)
    case (1 i)
    then show ?case using assms par [of i] by (simp add: heapOk_def nth_append)
  next
    case (2 i)
    then show ?case using par [of i] by simp
  qed
  show "downOk (ys @ [x]) (length ys)" using par by (auto simp: downOk_def)
qed

lemma idxOk_butlast:
  assumes ok: "idxOk hs ps" and "hs \<noteq> []"
  shows "idxOk (butlast hs) (ps[snd (last hs) := npos])"
proof -
  note D = idxOkD [OF ok]
  let ?n = "length hs - 1"
  have n: "?n < length hs" and l: "last hs = hs ! ?n" using \<open>hs \<noteq> []\<close> by (simp_all add: last_conv_nth)
  have lt: "snd (hs ! ?n) < length ps" by (rule D(2) [OF n])
  have ne: "snd (hs ! i) \<noteq> snd (hs ! ?n)" if "i < ?n" for i
    using idxOk_inj [OF ok _ n, of i] that by fastforce
  have last: "ps ! d \<noteq> ?n" if "d < length ps" "ps ! d \<noteq> npos" "d \<noteq> snd (hs ! ?n)" for d
    using D(5) [OF that(1,2)] that(3) by auto
  show ?thesis
    unfolding idxOk_def l
  proof (intro conjI allI impI, goal_cases)
    case 1
    show ?case using D(1) by simp
  next
    case (2 i)
    then show ?case using D(2) [of i] by (simp add: nth_butlast)
  next
    case (3 i)
    then show ?case using D(3) [of i] lt ne [of i] by (simp add: nth_butlast nth_update_if)
  next
    case (4 d)
    then have "d \<noteq> snd (hs ! ?n)" "d < length ps" "ps ! d \<noteq> npos"
      using lt by (auto simp: nth_update_if split: if_splits)
    with D(4) [of d] last [of d] lt show ?case by (simp add: nth_update_if)
  next
    case (5 d)
    then have d: "d \<noteq> snd (hs ! ?n)" "d < length ps" "ps ! d \<noteq> npos"
      using lt by (auto simp: nth_update_if split: if_splits)
    with D(4) [of d] last [of d] have "ps ! d < ?n" by simp
    with D(5) [of d] d lt show ?case by (simp add: nth_update_if nth_butlast)
  qed
qed

lemma idxOk_snoc:
  assumes ok: "idxOk hs ps" and d: "d < length ps" "ps ! d = npos"
  shows "idxOk (hs @ [(k, d)]) (ps[d := length hs])"
proof -
  note D = idxOkD [OF ok]
  have ne: "snd (hs ! i) \<noteq> d" if "i < length hs" for i
    using D(3) [OF that] d idxOk_small [OF ok that] by auto
  have small: "length hs < npos"
  proof -
    have "set (map snd hs) \<subseteq> {..<length ps} - {d}"
      using D(2) ne by (fastforce simp: in_set_conv_nth)
    then have "card (set (map snd hs)) \<le> card ({..<length ps} - {d})" by (rule card_mono [rotated]) simp
    with d have "length (map snd hs) \<le> length ps - 1"
      by (simp only: distinct_card [OF idxOk_distinct [OF ok]]) simp
    then show ?thesis using D(1) d by simp
  qed
  show ?thesis
    unfolding idxOk_def
  proof (intro conjI allI impI, goal_cases)
    case 1
    show ?case using D(1) by simp
  next
    case (2 i)
    then show ?case using D(2) [of i] d by (auto simp: nth_append less_Suc_eq)
  next
    case (3 i)
    then show ?case using D(3) [of i] ne [of i] d by (auto simp: nth_append nth_update_if less_Suc_eq)
  next
    case (4 e)
    then show ?case using D(4) [of e] d by (auto simp: nth_update_if less_Suc_eq split: if_splits)
  next
    case (5 e)
    then show ?case using D(4,5) [of e] d by (auto simp: nth_append nth_update_if split: if_splits)
  qed
qed

lemma idxOk_resize:
  assumes ok: "idxOk hs ps" and "n \<le> npos" "length ps \<le> n"
  shows "idxOk hs (ps @ replicate (n - length ps) npos)"
  using assms idxOkD [OF ok] unfolding idxOk_def
  by (auto simp: nth_append intro: less_le_trans)

lemma idxOk_update:
  assumes ok: "idxOk hs ps" and i: "i < length hs" and "snd x = snd (hs ! i)"
  shows "idxOk (hs[i := x]) ps"
  using assms idxOkD [OF ok] unfolding idxOk_def by (auto simp: nth_update_if)


lemma halpha_fresh: "idxOk (heap h) (hpos h) \<Longrightarrow> \<not> hcontains h d \<Longrightarrow> (k, d) \<notin> set (heap h)"
  using idxOkD(2,3) [of "heap h" "hpos h"] idxOk_small [of "heap h" "hpos h"]
  by (fastforce simp: hcontains_def in_set_conv_nth)

lemma heap_member_at:
  assumes "idxOk (heap h) (hpos h)" "hcontains h d"
  shows "hpos h ! d < length (heap h)" "snd (heap h ! (hpos h ! d)) = d"
  using assms idxOkD(4,5) [OF assms(1)] by (auto simp: hcontains_def)

lemma set_update_key:
  assumes ok: "idxOk hs ps" and i: "i < length hs"
  shows "set (hs[i := (k, snd (hs ! i))]) = insert (k, snd (hs ! i)) {x \<in> set hs. snd x \<noteq> snd (hs ! i)}"
proof -
  have "distinct hs" using idxOk_distinct [OF ok] by (simp add: distinct_map)
  then have "set (hs[i := (k, snd (hs ! i))]) = insert (k, snd (hs ! i)) (set hs - {hs ! i})"
    using i by (rule set_update_distinct)
  moreover have "set hs - {hs ! i} = {x \<in> set hs. snd x \<noteq> snd (hs ! i)}"
    using i idxOk_inj [OF ok i] by (fastforce simp: in_set_conv_nth)
  ultimately show ?thesis by simp
qed

lemma hset_known:
  fixes h :: "'k::linorder iheap" and key :: 'k
  assumes inv: "hinv h" and i: "idx < length (heap h)" "snd (heap h ! idx) = d"
  defines "h1 \<equiv> h\<lparr>heap := (heap h)[idx := (key, d)]\<rparr>"
  shows "\<exists>h'. (if key < fst (heap h ! idx) then siftUp idx else siftDown idx) h1 = (Inr (), h') \<and>
    hinv h' \<and> halpha h' = (halpha h)(d \<mapsto> key)"
proof -
  from inv have ok: "idxOk (heap h) (hpos h)" and hp: "heapOk (heap h)" by (simp_all add: hinv_def)
  have ok1: "idxOk (heap h1) (hpos h1)"
    using idxOk_update [OF ok i(1)] i by (simp add: h1_def)
  have al1: "almost (heap h1) idx" using almost_update [OF hp i(1)] by (simp add: h1_def)
  have res: "halpha h' = (halpha h)(d \<mapsto> key)"
    if "idxOk (heap h') (hpos h')" "mset (heap h') = mset (heap h1)" for h'
  proof (rule halpha_eqI [OF that(1)])
    fix k e
    have "set (heap h') = set (heap h1)" using that(2) by (metis set_mset_mset)
    then show "(k, e) \<in> set (heap h') \<longleftrightarrow> ((halpha h)(d \<mapsto> key)) e = Some k"
      using set_update_key [OF ok i(1), of key] i(2) halpha_iff [OF ok] by (auto simp: h1_def)
  qed
  have pair: "heap h ! idx = (fst (heap h ! idx), d)" using i by (simp add: prod_eq_iff)
  have down: "downOk (heap h) idx" and up: "upOk (heap h) idx" using heapOk_iff [OF i(1)] hp by auto
  show ?thesis
  proof (cases "key < fst (heap h ! idx)")
    case True
    then have le: "(key, d) \<le> heap h ! idx" by (subst pair) (simp add: less_eq_prod_def)
    have "(key, d) \<le> heap h1 ! j" if "0 < j" "j < length (heap h)" "heapPar j = idx" for j
    proof -
      have "j \<noteq> idx" using heapPar_less [OF that(1)] that(3) by simp
      moreover have "heap h ! idx \<le> heap h ! j" using down that by (simp add: downOk_def)
      ultimately show ?thesis using le by (simp add: h1_def)
    qed
    then have "downOk (heap h1) idx" using i(1) by (simp add: downOk_def h1_def)
    with siftUp_ok [OF ok1 _ al1] i(1) obtain h' where
      "siftUp idx h1 = (Inr (), h')" "idxOk (heap h') (hpos h')" "heapOk (heap h')"
      "mset (heap h') = mset (heap h1)" by (auto simp: h1_def)
    with True res show ?thesis by (simp add: hinv_def)
  next
    case False
    then have le: "heap h ! idx \<le> (key, d)" by (subst pair) (auto simp: less_eq_prod_def)
    have "heapPar idx \<noteq> idx" if "0 < idx" using heapPar_less [OF that] by simp
    with up le i(1) have "upOk (heap h1) idx" by (auto simp: upOk_def h1_def)
    with siftDown_ok [OF ok1 _ al1] i(1) obtain h' where
      "siftDown idx h1 = (Inr (), h')" "hinv h'" "mset (heap h') = mset (heap h1)" by (auto simp: h1_def)
    with False res show ?thesis by (simp add: hinv_def)
  qed
qed

lemma hset_new:
  fixes h :: "'k::linorder iheap" and key :: 'k
  assumes inv: "hinv h" and d: "d < length (hpos h)" "hpos h ! d = npos"
  defines "h1 \<equiv> h\<lparr>hpos := (hpos h)[d := length (heap h)], heap := heap h @ [(key, d)]\<rparr>"
  shows "length (heap h) < npos"
    and "\<exists>h'. siftUp (length (heap h)) h1 = (Inr (), h') \<and> hinv h' \<and> halpha h' = (halpha h)(d \<mapsto> key)"
proof -
  from inv have ok: "idxOk (heap h) (hpos h)" and hp: "heapOk (heap h)" by (simp_all add: hinv_def)
  have ok1: "idxOk (heap h1) (hpos h1)" using idxOk_snoc [OF ok d] by (simp add: h1_def)
  then show "length (heap h) < npos" using idxOk_small [OF ok1, of "length (heap h)"] by (simp add: h1_def)
  have "almost (heap h1) (length (heap h))" "downOk (heap h1) (length (heap h))"
    using heapOk_snoc [OF hp] by (simp_all add: h1_def)
  from siftUp_ok [OF ok1 _ this(1)] this(2) obtain h' where
    h': "siftUp (length (heap h)) h1 = (Inr (), h')" "idxOk (heap h') (hpos h')" "heapOk (heap h')"
    "mset (heap h') = mset (heap h1)" by (auto simp: h1_def)
  have "halpha h' = (halpha h)(d \<mapsto> key)"
  proof (rule halpha_eqI [OF h'(2)])
    fix k e
    have "set (heap h') = set (heap h1)" using h'(4) by (metis set_mset_mset)
    moreover have "(k, d) \<notin> set (heap h)" for k
      using d by (intro halpha_fresh [OF ok]) (simp add: hcontains_def)
    ultimately show "(k, e) \<in> set (heap h') \<longleftrightarrow> ((halpha h)(d \<mapsto> key)) e = Some k"
      using halpha_iff [OF ok] by (auto simp: h1_def)
  qed
  with h' show "\<exists>h'. siftUp (length (heap h)) h1 = (Inr (), h') \<and> hinv h' \<and> halpha h' = (halpha h)(d \<mapsto> key)"
    by (auto simp: hinv_def)
qed

lemma hset_ok:
  assumes inv: "hinv h" and d: "d < npos"
  shows "wp (hset d key) (\<lambda>_ h'. hinv h' \<and> halpha h' = (halpha h)(d \<mapsto> key)) noThrow h"
proof -
  define h0 where "h0 = (if d \<ge> length (hpos h)
      then h\<lparr>hpos := hpos h @ replicate (d + 1 - length (hpos h)) npos\<rparr> else h)"
  have inv0: "hinv h0" and same: "heap h0 = heap h" and d0: "d < length (hpos h0)"
    using inv idxOk_resize [of "heap h" "hpos h" "d + 1"] d by (auto simp: h0_def hinv_def)
  have al: "halpha h0 = halpha h" by (simp add: halpha_def same)
  have unf: "hset d key h =
    (if hpos h0 ! d = npos
     then siftUp (length (heap h0)) (h0\<lparr>hpos := (hpos h0)[d := length (heap h0) mod 2 ^ 32], heap := heap h0 @ [(key, d)]\<rparr>)
     else bnd (vat (heap h0) (hpos h0 ! d)) (\<lambda>old.
          bnd (upd (\<lambda>h. h\<lparr>heap := (heap h0)[hpos h0 ! d := (key, snd old)]\<rparr>)) (\<lambda>_.
          if key < fst old then siftUp (hpos h0 ! d) else siftDown (hpos h0 ! d))) h0)"
    using d d0 by (simp add: hset_def bnd_def upd_def gets_def vat_def hsize_def h0_def [symmetric]
        h0_def [unfolded Suc_eq_plus1 [symmetric], symmetric])
  show ?thesis
  proof (cases "hpos h0 ! d = npos")
    case True
    note new = hset_new(1) [OF inv0 d0 True] hset_new(2) [OF inv0 d0 True, of key]
    from new show ?thesis by (auto simp: wp_def unf True npos_mod al)
  next
    case False
    then have c: "hcontains h0 d" using d0 by (simp add: hcontains_def)
    note at = heap_member_at [OF _ c] and ok = inv0 [unfolded hinv_def, THEN conjunct1]
    from hset_known [OF inv0 at [OF ok], of key] at [OF ok] show ?thesis
      by (auto simp: wp_def unf False al bnd_def vat_def upd_def)
  qed
qed


lemma butlast_swapL:
  assumes "i < length hs - 1"
  shows "butlast (swapL hs i (length hs - 1)) = (butlast hs)[i := last hs]"
proof -
  have "hs \<noteq> []" using assms by auto
  then show ?thesis
    using assms by (intro nth_equalityI) (auto simp: nth_butlast nth_update_if last_conv_nth)
qed

lemma last_swapL: "i < length hs \<Longrightarrow> last (swapL hs i (length hs - 1)) = hs ! i"
  by (subst last_conv_nth) (auto simp flip: length_greater_0_conv)

lemma mset_butlast:
  assumes "xs \<noteq> []" shows "mset (butlast xs) = mset xs - {#last xs#}"
proof -
  have "mset xs = mset (butlast xs @ [last xs])" using assms by simp
  then show ?thesis by (simp del: append_butlast_last_id)
qed

lemma set_minus_key:
  assumes ok: "idxOk hs ps" and i: "i < length hs" and m: "mset hs' = mset hs - {#hs ! i#}"
  shows "set hs' = {x \<in> set hs. snd x \<noteq> snd (hs ! i)}"
proof -
  have "distinct hs" using idxOk_distinct [OF ok] by (simp add: distinct_map)
  moreover have "mset hs' = mset (remove1 (hs ! i) hs)" by (simp add: m)
  then have "set hs' = set (remove1 (hs ! i) hs)" by (rule mset_eq_setD)
  ultimately have "set hs' = set hs - {hs ! i}" by (simp add: set_remove1_eq)
  also have "\<dots> = {x \<in> set hs. snd x \<noteq> snd (hs ! i)}"
    using i idxOk_inj [OF ok i] by (fastforce simp: in_set_conv_nth)
  finally show ?thesis .
qed

lemma halpha_erased:
  assumes ok: "idxOk (heap h) (hpos h)" and i: "i < length (heap h)" "snd (heap h ! i) = d"
    and ok': "idxOk (heap h') (hpos h')" and m: "mset (heap h') = mset (heap h) - {#heap h ! i#}"
  shows "halpha h' = (halpha h)(d := None)"
proof (rule halpha_eqI [OF ok'])
  fix k e
  show "(k, e) \<in> set (heap h') \<longleftrightarrow> ((halpha h)(d := None)) e = Some k"
    using set_minus_key [OF ok i(1) m] i(2) halpha_iff [OF ok] by auto
qed

lemma herase_last:
  assumes ok: "idxOk (heap h) (hpos h)" and hp: "heapOk (heap h)" and ne: "heap h \<noteq> []"
  defines "h' \<equiv> h\<lparr>hpos := (hpos h)[snd (last (heap h)) := npos], heap := butlast (heap h)\<rparr>"
  shows "hinv h'" "mset (heap h') = mset (heap h) - {#last (heap h)#}"
proof -
  show "hinv h'" using idxOk_butlast [OF ok ne] heapOk_butlast [OF hp] by (simp add: hinv_def h'_def)
  show "mset (heap h') = mset (heap h) - {#last (heap h)#}"
    using mset_butlast [OF ne] by (simp add: h'_def)
qed

lemma herase_inner:
  assumes ok: "idxOk (heap h) (hpos h)" and hp: "heapOk (heap h)" and i: "i < length (heap h) - 1"
  defines "l \<equiv> last (heap h)" and "d \<equiv> snd (heap h ! i)"
  defines "h1 \<equiv> h\<lparr>hpos := (hpos h)[d := npos, snd l := i], heap := (butlast (heap h))[i := l]\<rparr>"
  shows "idxOk (heap h1) (hpos h1)" "almost (heap h1) i" "heap h1 ! i = l"
    "mset (heap h1) = mset (heap h) - {#heap h ! i#}"
proof -
  let ?n = "length (heap h) - 1"
  let ?ys = "swapL (heap h) i ?n"
  have n: "?n < length (heap h)" "i < length (heap h)" "i \<noteq> ?n" "heap h \<noteq> []" using i by auto
  have l: "l = heap h ! ?n" using n by (simp add: l_def last_conv_nth)
  have ne: "snd l \<noteq> d" using idxOk_inj [OF ok n(2,1)] n(3) by (auto simp: l d_def)
  have ys: "butlast ?ys = heap h1" "last ?ys = heap h ! i"
    using butlast_swapL [OF i] last_swapL [OF n(2)] by (simp_all add: h1_def l_def del: One_nat_def)
  have "?ys \<noteq> []" using n by (simp add: swapL_def)
  from idxOk_butlast [OF idxOk_swap [OF ok n(2,1,3)] this]
  have "idxOk (heap h1) ((hpos h)[snd l := i, d := npos])" unfolding ys by (simp add: l d_def)
  then show "idxOk (heap h1) (hpos h1)" using ne by (simp add: h1_def list_update_swap)
  show "almost (heap h1) i"
    using almost_update [OF heapOk_butlast [OF hp]] i by (simp add: h1_def)
  show "heap h1 ! i = l" using i by (simp add: h1_def)
  have "mset (butlast ?ys) = mset ?ys - {#last ?ys#}"
    using \<open>?ys \<noteq> []\<close> by (rule mset_butlast)
  then show "mset (heap h1) = mset (heap h) - {#heap h ! i#}" unfolding ys using n by (simp add: mset_swapL)
qed

lemma herase_ok:
  assumes inv: "hinv h"
  shows "wp (herase d) (\<lambda>_ h'. hinv h' \<and> halpha h' = (halpha h)(d := None)) noThrow h"
proof (cases "hcontains h d")
  case False
  have ok: "idxOk (heap h) (hpos h)" using inv by (simp add: hinv_def)
  then have "halpha h d = None"
    using halpha_fresh [OF ok False] halpha_iff [OF ok] by (metis option.exhaust)
  then have "(halpha h)(d := None) = halpha h" by auto
  with False inv show ?thesis by (simp add: herase_def wp_simps)
next
  case True
  have ok: "idxOk (heap h) (hpos h)" and hp: "heapOk (heap h)" using inv by (simp_all add: hinv_def)
  define i where "i = hpos h ! d"
  have i: "i < length (heap h)" "snd (heap h ! i) = d"
    using heap_member_at [OF ok True] by (simp_all add: i_def)
  have dl: "d < length (hpos h)" using True by (simp add: hcontains_def)
  have ne: "heap h \<noteq> []" using i by auto
  note er = halpha_erased [OF ok i]
  show ?thesis
  proof (cases "i < length (heap h) - 1")
    case False
    then have l: "last (heap h) = heap h ! i" using i ne
      by (metis Suc_pred' last_conv_nth less_antisym length_greater_0_conv One_nat_def)
    note e = herase_last [OF ok hp ne, unfolded l i(2)]
    from e(1) er [OF _ e(2)] have "halpha (h\<lparr>hpos := (hpos h)[d := npos], heap := butlast (heap h)\<rparr>) = (halpha h)(d := None)"
      by (simp add: hinv_def)
    with False True dl e(1) show ?thesis by (simp add: herase_def wp_simps i_def)
  next
    case inner: True
    define l where "l = last (heap h)"
    define h1 where "h1 = h\<lparr>hpos := (hpos h)[d := npos, snd l := i], heap := (butlast (heap h))[i := l]\<rparr>"
    have h1: "idxOk (heap h1) (hpos h1)" "almost (heap h1) i" "heap h1 ! i = l"
      "mset (heap h1) = mset (heap h) - {#heap h ! i#}" "i < length (heap h1)"
      using herase_inner [OF ok hp inner] inner by (simp_all add: h1_def l_def i(2))
    from siftUp_ok [OF h1(1,5,2)] obtain h2 k where
      h2: "siftUp i h1 = (Inr (), h2)" "idxOk (heap h2) (hpos h2)" "k < length (heap h2)"
      "heap h2 ! k = l" "almost (heap h2) k" "upOk (heap h2) k" "mset (heap h2) = mset (heap h1)"
      using h1(3) by auto
    from siftDown_ok [OF h2(2,3,5,6)] obtain h3 where
      h3: "siftDown k h2 = (Inr (), h3)" "hinv h3" "mset (heap h3) = mset (heap h2)" by auto
    have k: "snd l < length (hpos h2)" "hpos h2 ! snd l = k"
      using idxOkD(2,3) [OF h2(2,3)] by (simp_all add: h2(4))
    have al: "halpha h3 = (halpha h)(d := None)" using h3 h2(7) h1(4) by (intro er) (simp_all add: hinv_def)
    have sl: "snd l < length (hpos h)" using ne idxOkD(2) [OF ok, of "length (heap h) - 1"]
      by (simp add: l_def last_conv_nth)
    have "i < npos" using idxOk_small [OF ok i(1)] .
    then have "place i l (h\<lparr>hpos := (hpos h)[d := npos], heap := butlast (heap h)\<rparr>) = (Inr (), h1)"
      using inner sl by (subst place_eq) (simp_all add: h1_def)
    then have "herase d h = (Inr (), h3)"
      using True dl inner h2(1) h3(1) k
      by (simp add: herase_def bnd_def gets_def upd_def vat_def Let_def i_def l_def)
    with h3(2) al show ?thesis by (simp add: wp_def)
  qed
qed

lemma heapOk_least: "heapOk ys \<Longrightarrow> i < length ys \<Longrightarrow> ys ! 0 \<le> ys ! i"
proof (induction i rule: less_induct)
  case (less i)
  show ?case
  proof (cases "i = 0")
    case False
    then have "heapPar i < i" by (simp add: heapPar_less)
    with less have "ys ! 0 \<le> ys ! heapPar i" by simp
    also have "\<dots> \<le> ys ! i" using less.prems False by (simp add: heapOk_def)
    finally show ?thesis .
  qed simp
qed

lemma top_least:
  assumes "hinv h" and "top h = Some d"
  shows "\<exists>k. topKey h = Some k \<and> halpha h d = Some k \<and> (\<forall>e k'. halpha h e = Some k' \<longrightarrow> (k, d) \<le> (k', e))"
proof -
  from assms(2) obtain k hs where hs: "heap h = (k, d) # hs"
    by (auto simp: top_def split: list.splits)
  have ok: "idxOk (heap h) (hpos h)" "heapOk (heap h)" using assms(1) by (simp_all add: hinv_def)
  have "(k, d) \<le> (k', e)" if "halpha h e = Some k'" for e k'
  proof -
    have "(k', e) \<in> set (heap h)" using that halpha_iff [OF ok(1)] by simp
    then obtain i where "i < length (heap h)" "heap h ! i = (k', e)" by (auto simp: in_set_conv_nth)
    with heapOk_least [OF ok(2)] hs show ?thesis by (metis nth_Cons_0)
  qed
  moreover have "halpha h d = Some k" using halpha_iff [OF ok(1)] hs by simp
  ultimately show ?thesis by (simp add: topKey_def hs)
qed

lemma top_None: "top h = None \<longleftrightarrow> halpha h = Map.empty"
  by (auto simp: top_def halpha_def split: list.splits)

lemma hsize_card:
  assumes "hinv h" shows "hsize h = card (dom (halpha h))"
proof -
  have "distinct (map snd (heap h))" using assms idxOk_distinct by (auto simp: hinv_def)
  moreover have "dom (halpha h) = snd ` set (heap h)" by (simp add: halpha_def dom_map_of_conv_image_fst image_image)
  ultimately show ?thesis by (metis hsize_def distinct_card length_map set_map)
qed

lemma hcontains_dom:
  assumes "hinv h" shows "hcontains h d \<longleftrightarrow> d \<in> dom (halpha h)"
proof -
  have ok: "idxOk (heap h) (hpos h)" using assms by (simp add: hinv_def)
  show ?thesis
  proof (cases "hcontains h d")
    case True
    then have "heap h ! (hpos h ! d) \<in> set (heap h)" using heap_member_at [OF ok] by simp
    then show ?thesis using True heap_member_at(2) [OF ok True] halpha_iff [OF ok]
      by (metis domI prod.collapse)
  next
    case False
    then show ?thesis using halpha_fresh [OF ok False] halpha_iff [OF ok] by auto
  qed
qed

section \<open>What the scheduler relies on\<close>

locale indexed_queue =
  fixes qempty :: "'q"
    and qset :: "nat \<Rightarrow> 'k::linorder \<Rightarrow> ('q, unit) prog"
    and qerase :: "nat \<Rightarrow> ('q, unit) prog"
    and qtop :: "'q \<Rightarrow> nat option"
    and qtopKey :: "'q \<Rightarrow> 'k option"
    and qsize :: "'q \<Rightarrow> nat"
    and qcontains :: "'q \<Rightarrow> nat \<Rightarrow> bool"
    and qalpha :: "'q \<Rightarrow> nat \<rightharpoonup> 'k"
    and qinv :: "'q \<Rightarrow> bool"
  assumes empty_ok: "qinv qempty" "qalpha qempty = Map.empty"
    and set_ok: "qinv q \<Longrightarrow> d < npos \<Longrightarrow>
      wp (qset d k) (\<lambda>_ q'. qinv q' \<and> qalpha q' = (qalpha q)(d \<mapsto> k)) noThrow q"
    and erase_ok: "qinv q \<Longrightarrow>
      wp (qerase d) (\<lambda>_ q'. qinv q' \<and> qalpha q' = (qalpha q)(d := None)) noThrow q"
    and top_none: "qtop q = None \<longleftrightarrow> qalpha q = Map.empty"
    and topKey_none: "qtopKey q = None \<longleftrightarrow> qtop q = None"
    and top_some: "qinv q \<Longrightarrow> qtop q = Some d \<Longrightarrow>
      \<exists>k. qtopKey q = Some k \<and> qalpha q d = Some k \<and> (\<forall>e k'. qalpha q e = Some k' \<longrightarrow> (k, d) \<le> (k', e))"
    and size_ok: "qinv q \<Longrightarrow> qsize q = card (dom (qalpha q))"
    and contains_ok: "qinv q \<Longrightarrow> qcontains q d \<longleftrightarrow> d \<in> dom (qalpha q)"
    and finite_dom: "finite (dom (qalpha q))"
begin

lemma set_eq:
  assumes "qinv q" "d < npos"
  obtains q' where "qset d k q = (Inr (), q')" "qinv q'" "qalpha q' = (qalpha q)(d \<mapsto> k)"
  using wp_noThrowD [OF set_ok [OF assms]] by auto

lemma erase_eq:
  assumes "qinv q"
  obtains q' where "qerase d q = (Inr (), q')" "qinv q'" "qalpha q' = (qalpha q)(d := None)"
  using wp_noThrowD [OF erase_ok [OF assms]] by auto

text \<open>Taking the top out of the queue leaves one element less.\<close>

lemma erase_top_size:
  assumes "qinv q" "qtop q = Some d"
  obtains q' where "qerase d q = (Inr (), q')" "qinv q'" "qalpha q' = (qalpha q)(d := None)"
    "qsize q = Suc (qsize q')"
proof -
  from erase_eq [OF assms(1)] obtain q' where
    q': "qerase d q = (Inr (), q')" "qinv q'" "qalpha q' = (qalpha q)(d := None)" .
  have "d \<in> dom (qalpha q)" using top_some [OF assms] by auto
  then have "card (dom (qalpha q)) = Suc (card (dom (qalpha q) - {d}))"
    using finite_dom [of q] by (simp only: card_Suc_Diff1)
  with q' show ?thesis by (intro that [of q']) (simp_all add: size_ok assms)
qed

end

interpretation hq: indexed_queue iheap0 hset herase top topKey hsize hcontains halpha hinv
proof
  show "hinv iheap0" by (simp add: hinv_def iheap0_def idxOk_def heapOk_def)
  show "halpha iheap0 = Map.empty" by (simp add: halpha_def iheap0_def)
  show "topKey q = None \<longleftrightarrow> top q = None" for q :: "'a iheap" by (simp add: topKey_def top_def split: list.split)
  show "finite (dom (halpha q))" for q :: "'a iheap" by (simp add: halpha_def finite_dom_map_of)
qed (rule hset_ok herase_ok top_None top_least hsize_card hcontains_dom; assumption)+


context indexed_queue
begin

lemma run_eq:
  assumes "qinv q" "\<forall>op \<in> set ops. fst op < npos"
  shows "\<exists>q'. forEach ops (\<lambda>(d, k). case k of None \<Rightarrow> qerase d | Some v \<Rightarrow> qset d v) q = (Inr (), q') \<and> qinv q' \<and>
    qalpha q' = fold (\<lambda>(d, k) m. m(d := k)) ops (qalpha q)"
  using assms
proof (induction ops arbitrary: q)
  case Nil
  then show ?case by (auto simp: ret_def)
next
  case (Cons op ops)
  obtain d k where op: "op = (d, k)" by fastforce
  obtain q1 where q1: "(case k of None \<Rightarrow> qerase d | Some v \<Rightarrow> qset d v) q = (Inr (), q1)" "qinv q1" "qalpha q1 = (qalpha q)(d := k)"
  proof (cases k)
    case None
    show thesis by (rule erase_eq [OF Cons.prems(1)], rule that) (simp_all add: None)
  next
    case (Some v)
    from Cons.prems(2) have "d < npos" by (simp add: op)
    show thesis by (rule set_eq [OF Cons.prems(1) \<open>d < npos\<close>], rule that) (simp_all add: Some)
  qed
  from Cons.IH [OF q1(2)] Cons.prems(2) q1 show ?case by (simp add: op bnd_def)
qed

lemma top_case:
  assumes "qinv q"
  shows "case qtop q of None \<Rightarrow> qalpha q = Map.empty
    | Some d \<Rightarrow> \<exists>k. qtopKey q = Some k \<and> qalpha q d = Some k \<and> (\<forall>e k'. qalpha q e = Some k' \<longrightarrow> (k, d) \<le> (k', e))"
  using top_none [of q] top_some [OF assms] by (auto split: option.split)

end

text \<open>C6: The indexed heap is a map from ids to keys: after any sequence of sets and erases, none of
  which fails, its size and its members are those of the map, and its top is the member with
  the least key, the smaller id deciding between equal keys; it has no top only when
  the map is empty.\<close>

theorem heap_refines_map:
  assumes "\<forall>op \<in> set ops. fst op < npos"
  shows "\<exists>h. forEach ops (\<lambda>(d, k). case k of None \<Rightarrow> herase d | Some v \<Rightarrow> hset d v) iheap0 = (Inr (), h) \<and>
    (let m = fold (\<lambda>(d, k) m. m(d := k)) ops Map.empty in
      hsize h = card (dom m) \<and> (\<forall>d. hcontains h d \<longleftrightarrow> m d \<noteq> None) \<and>
      (case top h of None \<Rightarrow> m = Map.empty
       | Some d \<Rightarrow> m d \<noteq> None \<and> topKey h = m d \<and> (\<forall>e k. m e = Some k \<longrightarrow> (the (m d), d) \<le> (k, e))))"
proof -
  from hq.run_eq [OF hq.empty_ok(1) assms] obtain h where
    h: "forEach ops (\<lambda>(d, k). case k of None \<Rightarrow> herase d | Some v \<Rightarrow> hset d v) iheap0 = (Inr (), h)" "hinv h"
    "halpha h = fold (\<lambda>(d, k) m. m(d := k)) ops Map.empty" by (auto simp: hq.empty_ok(2))
  show ?thesis
    using hq.size_ok [OF h(2)] hq.contains_ok [OF h(2)] hq.top_case [OF h(2)]
    by (intro exI [of _ h]) (auto simp: h(1,3) Let_def dom_def simp del: less_eq_prod_simp split: option.splits)
qed

theorem heap_refines_map_witness:
  "\<exists>h. forEach [(4, Some 2), (1, Some 2), (9, Some 1), (9, None)] (\<lambda>(d, k). case k of None \<Rightarrow> herase d | Some v \<Rightarrow> hset d v) iheap0 =
     (Inr (), h :: int iheap) \<and> top h = Some 1 \<and> topKey h = Some 2"
proof -
  let ?ops = "[(4, Some 2), (1, Some 2), (9, Some 1), (9, None)] :: (nat \<times> int option) list"
  define m where "m = fold (\<lambda>(d, k) m. m(d := k)) ?ops Map.empty"
  have m: "m 1 = Some 2" "\<And>d k. m d = Some k \<Longrightarrow> k = 2 \<and> 1 \<le> d" by (auto simp: m_def split: if_splits)
  have "\<forall>op \<in> set ?ops. fst op < npos" by (simp add: npos_def)
  from heap_refines_map [OF this, folded m_def, unfolded Let_def] obtain h where
    h: "forEach ?ops (\<lambda>(d, k). case k of None \<Rightarrow> herase d | Some v \<Rightarrow> hset d v) iheap0 = (Inr (), h)"
    and t: "case top h of None \<Rightarrow> m = Map.empty
       | Some d \<Rightarrow> m d \<noteq> None \<and> topKey h = m d \<and> (\<forall>e k. m e = Some k \<longrightarrow> (the (m d), d) \<le> (k, e))" by blast
  have "top h \<noteq> None" using t m(1) by (cases "top h") simp_all
  then obtain d where d: "top h = Some d" by blast
  from t have td: "m d \<noteq> None" "topKey h = m d" "m 1 = Some 2 \<longrightarrow> (the (m d), d) \<le> (2, 1)" unfolding d option.case by blast+
  from td(1) obtain k where k: "m d = Some k" by blast
  have "k = 2" "1 \<le> d" using m(2) [OF k] by blast+
  moreover have "(k, d) \<le> (2, 1)" using mp [OF td(3) m(1)] unfolding k option.sel .
  ultimately have "d = 1" by (simp only: less_eq_prod_simp) linarith
  show ?thesis
    by (rule exI [of _ h], intro conjI, rule h) (simp_all only: d td(2) \<open>d = 1\<close> m(1))
qed

end
