(* ===== verification/FreeIndex.thy ===== *)
theory FreeIndex
  imports IndexedHeap "HOL-Library.Word"
begin

text \<open>
  The index of workers by free slots (class \<open>FreeIndex\<close> of \<^verbatim>\<open>src/daemon/scheduler.hh\<close>):
  64 buckets, a position table, and a 64-bit mask of the buckets that are not empty, from
  which the fullest non-empty bucket is read with one count of leading zeros.

  \<open>free_index\<close> is the contract the scheduler relies on: the index is a map from worker ids
  to free slots, and \<open>emptiest\<close> is a worker with the most free slots (up to the clamp at
  63), if any worker has one.  It is interpreted on the buckets at the end of the theory.
\<close>

unbundle bit_operations_syntax

section \<open>The buckets\<close>

record findex =
  free :: "int list"
  fpos :: "nat list"
  tracked :: "bool list"
  byFree :: "nat list list"
  nonempty :: "64 word"

definition maxSlots :: nat where
  "maxSlots = 63"

definition findex0 :: findex where
  "findex0 = \<lparr>free = [], fpos = [], tracked = [], byFree = replicate (maxSlots + 1) [], nonempty = 0\<rparr>"

definition bucket :: "int \<Rightarrow> nat" where
  "bucket v = nat (max 0 (min v (int maxSlots)))"

definition fcheck :: "nat \<Rightarrow> (findex, unit) prog" where
  "fcheck wid =
     bnd (gets (\<lambda>f. f)) (\<lambda>f.
     if wid \<ge> length (free f) then throw (NixError ''FreeIndex: unknown worker'')
     else bnd (vat (tracked f) wid) (\<lambda>t.
     if \<not> t then throw (NixError ''FreeIndex: unknown worker'') else ret ()))"

definition fpush :: "nat \<Rightarrow> (findex, unit) prog" where
  "fpush wid =
     bnd (gets (\<lambda>f. f)) (\<lambda>f.
     bnd (if wid < length (free f) then vat (tracked f) wid else ret False) (\<lambda>known.
     if known then ret ()
     else
       bnd (upd (\<lambda>f. if wid \<ge> length (free f)
                     then f\<lparr>free := vresize ((wid + 1) mod 2 ^ 32) 0 (free f),
                            fpos := vresize ((wid + 1) mod 2 ^ 32) 0 (fpos f),
                            tracked := vresize ((wid + 1) mod 2 ^ 32) False (tracked f)\<rparr>
                     else f)) (\<lambda>_.
       bnd (gets (\<lambda>f. f)) (\<lambda>f.
       bnd (vput (tracked f) wid True) (\<lambda>ts.
       bnd (upd (\<lambda>f. f\<lparr>tracked := ts\<rparr>)) (\<lambda>_.
       bnd (vat (byFree f) 0) (\<lambda>b0.
       bnd (vput (fpos f) wid (length b0 mod 2 ^ 32)) (\<lambda>ps.
       bnd (upd (\<lambda>f. f\<lparr>fpos := ps\<rparr>)) (\<lambda>_.
       upd (\<lambda>f. f\<lparr>byFree := (byFree f)[0 := b0 @ [wid]], nonempty := nonempty f OR 1\<rparr>))))))))))"

definition fget :: "findex \<Rightarrow> nat \<Rightarrow> int" where
  "fget f wid = (if wid < length (free f) then free f ! wid else 0)"

definition fset :: "nat \<Rightarrow> int \<Rightarrow> (findex, unit) prog" where
  "fset wid val =
     bnd (fcheck wid) (\<lambda>_.
     bnd (gets free) (\<lambda>fr.
     bnd (vat fr wid) (\<lambda>old.
     let from = bucket old; dest = bucket val in
     bnd (upd (\<lambda>f. f\<lparr>free := fr[wid := val]\<rparr>)) (\<lambda>_.
     if from = dest then ret ()
     else
       bnd (gets byFree) (\<lambda>bs.
       bnd (vat bs from) (\<lambda>src.
       bnd (gets fpos) (\<lambda>ps.
       bnd (vat ps wid) (\<lambda>idx.
       if idx \<ge> length src \<or> src ! idx \<noteq> wid then throw (NixError ''FreeIndex: corrupt bucket for worker'')
       else
         let l = last src; src' = butlast (src[idx := l]) in
         bnd (vput ps l idx) (\<lambda>ps.
         bnd (upd (\<lambda>f. f\<lparr>fpos := ps, byFree := (byFree f)[from := src']\<rparr>)) (\<lambda>_.
         bnd (upd (\<lambda>f. if src' = [] then f\<lparr>nonempty := nonempty f AND NOT (push_bit from 1)\<rparr> else f)) (\<lambda>_.
         bnd (gets byFree) (\<lambda>bs.
         bnd (vat bs dest) (\<lambda>dst.
         bnd (vput ps wid (length dst mod 2 ^ 32)) (\<lambda>ps.
         upd (\<lambda>f. f\<lparr>fpos := ps, byFree := bs[dest := dst @ [wid]],
                    nonempty := nonempty f OR push_bit dest 1\<rparr>)))))))))))))))"

definition countl_zero :: "64 word \<Rightarrow> nat" where
  "countl_zero w = length (takeWhile (\<lambda>i. \<not> bit w (63 - i)) [0..<64])"

definition maxFree :: "findex \<Rightarrow> int" where
  "maxFree f = (if nonempty f = 0 then 0 else int maxSlots - int (countl_zero (nonempty f)))"

text \<open>There are always 64 buckets, so that \<open>byFree.at\<close> is in range.\<close>

definition emptiest :: "findex \<Rightarrow> nat option" where
  "emptiest f =
     (let tp = maxFree f in
      if tp \<le> 0 then None
      else case byFree f ! nat tp of [] \<Rightarrow> None | w # _ \<Rightarrow> Some w)"

section \<open>Invariant and abstraction\<close>

definition falpha :: "findex \<Rightarrow> nat \<rightharpoonup> int" where
  "falpha f w = (if w < length (free f) \<and> tracked f ! w then Some (free f ! w) else None)"

definition finv :: "findex \<Rightarrow> bool" where
  "finv f \<longleftrightarrow>
     length (fpos f) = length (free f) \<and> length (tracked f) = length (free f) \<and>
     length (byFree f) = 64 \<and> length (free f) \<le> npos \<and>
     (\<forall>w < length (free f). \<not> tracked f ! w \<longrightarrow> free f ! w = 0) \<and>
     (\<forall>b < 64. \<forall>w. w \<in> set (byFree f ! b) \<longleftrightarrow> (\<exists>v. falpha f w = Some v \<and> bucket v = b)) \<and>
     (\<forall>b < 64. \<forall>i < length (byFree f ! b). fpos f ! (byFree f ! b ! i) = i) \<and>
     (\<forall>b < 64. bit (nonempty f) b \<longleftrightarrow> byFree f ! b \<noteq> [])"

lemma finvD:
  assumes "finv f"
  shows "length (fpos f) = length (free f)" "length (tracked f) = length (free f)"
    "length (byFree f) = 64" "length (free f) \<le> npos"
    "w < length (free f) \<Longrightarrow> \<not> tracked f ! w \<Longrightarrow> free f ! w = 0"
    "b < 64 \<Longrightarrow> w \<in> set (byFree f ! b) \<longleftrightarrow> (\<exists>v. falpha f w = Some v \<and> bucket v = b)"
    "b < 64 \<Longrightarrow> i < length (byFree f ! b) \<Longrightarrow> fpos f ! (byFree f ! b ! i) = i"
    "b < 64 \<Longrightarrow> bit (nonempty f) b \<longleftrightarrow> byFree f ! b \<noteq> []"
  using assms by (simp_all add: finv_def)

lemma bucket_less [simp]: "bucket v < 64"
  by (simp add: bucket_def maxSlots_def)

lemma falpha_dom: "falpha f w = Some v \<Longrightarrow> w < length (free f) \<and> tracked f ! w \<and> v = free f ! w"
  by (auto simp: falpha_def split: if_splits)

lemma bucket_distinct:
  assumes "finv f" "b < 64" shows "distinct (byFree f ! b)"
  unfolding distinct_conv_nth using finvD(7) [OF assms] by metis

lemma bucket_length:
  assumes "finv f" "b < 64" shows "length (byFree f ! b) \<le> length (free f)"
  by (rule distinct_length_le [OF bucket_distinct [OF assms]])
    (use finvD(6) [OF assms] falpha_dom in blast)

lemma tracked_at:
  assumes inv: "finv f" and w: "falpha f w = Some v"
  shows "fpos f ! w < length (byFree f ! bucket v)" "byFree f ! bucket v ! (fpos f ! w) = w"
proof -
  have "w \<in> set (byFree f ! bucket v)" using finvD(6) [OF inv bucket_less] w by blast
  then obtain i where "i < length (byFree f ! bucket v)" "byFree f ! bucket v ! i = w"
    by (auto simp: in_set_conv_nth)
  with finvD(7) [OF inv bucket_less] show "fpos f ! w < length (byFree f ! bucket v)"
    "byFree f ! bucket v ! (fpos f ! w) = w" by metis+
qed

lemma fget_falpha: "finv f \<Longrightarrow> fget f w = (case falpha f w of None \<Rightarrow> 0 | Some v \<Rightarrow> v)"
  by (auto simp: fget_def falpha_def dest: finvD(5))

lemma fcheck_ok: "falpha f w = Some v \<Longrightarrow> finv f \<Longrightarrow> fcheck w f = (Inr (), f)"
  by (auto simp: fcheck_def bnd_def gets_def vat_def ret_def finvD(2) dest: falpha_dom)


lemma drop_bucket_at:
  fixes xs :: "'a list" and i :: nat
  defines "xs' \<equiv> butlast (xs[i := last xs])"
  assumes d: "distinct xs" and i: "i < length xs"
  shows "set xs' = set xs - {xs ! i}" "length xs' = length xs - 1"
    "j < length xs - 1 \<Longrightarrow> xs' ! j = (if j = i then last xs else xs ! j)"
proof -
  show "length xs' = length xs - 1" by (simp add: xs'_def)
  show "j < length xs - 1 \<Longrightarrow> xs' ! j = (if j = i then last xs else xs ! j)"
    using i by (auto simp: xs'_def nth_butlast)
  define as a bs where "as = take i xs" and "a = xs ! i" and "bs = drop (Suc i) xs"
  have split: "xs = as @ a # bs" "i = length as"
    using id_take_nth_drop [OF i] i by (simp_all add: as_def a_def bs_def)
  show "set xs' = set xs - {xs ! i}"
  proof (cases bs rule: rev_cases)
    case Nil
    then show ?thesis using d by (auto simp: xs'_def split butlast_append)
  next
    case (snoc cs l)
    then show ?thesis using d by (auto simp: xs'_def split butlast_append)
  qed
qed

text \<open>Moving a tracked worker between two buckets, and adding a worker that is in none.\<close>

lemma finv_insert:
  fixes f :: findex and v :: int
  assumes inv: "finv f" and w: "w < length (free f)" "\<not> tracked f ! w"
  defines "f' \<equiv> f\<lparr>tracked := (tracked f)[w := True], free := (free f)[w := v],
     fpos := (fpos f)[w := length (byFree f ! bucket v) mod 2 ^ 32],
     byFree := (byFree f)[bucket v := byFree f ! bucket v @ [w]],
     nonempty := nonempty f OR push_bit (bucket v) 1\<rparr>"
  shows "finv f'" "falpha f' = (falpha f)(w \<mapsto> v)"
proof -
  note D = finvD [OF inv]
  let ?b = "bucket v"
  have small: "length (byFree f ! ?b) mod 2 ^ 32 = length (byFree f ! ?b)"
    using bucket_length [OF inv, of ?b] D(4) by (simp add: npos_def)
  have none: "falpha f w = None" using w by (simp add: falpha_def)
  show al: "falpha f' = (falpha f)(w \<mapsto> v)"
    using w D(1,2) by (auto simp: f'_def falpha_def nth_update_if fun_eq_iff)
  have notin: "w \<notin> set (byFree f ! b)" if "b < 64" for b using D(6) [OF that] none by auto
  have "fpos f' ! (byFree f' ! b ! i) = i" if b: "b < 64" and i: "i < length (byFree f' ! b)" for b i
  proof (cases "b = ?b \<and> i = length (byFree f ! ?b)")
    case True
    then show ?thesis using w D(1,3) small by (simp add: f'_def)
  next
    case False
    then have i': "i < length (byFree f ! b)" "byFree f' ! b ! i = byFree f ! b ! i"
      using i b D(3) by (auto simp: f'_def nth_update_if nth_append split: if_splits)
    then have "byFree f ! b ! i \<noteq> w" using notin [OF b] by auto
    with i' D(7) [OF b i'(1)] w D(1) show ?thesis by (simp add: f'_def nth_update_if)
  qed
  moreover have "u \<in> set (byFree f' ! b) \<longleftrightarrow> (\<exists>x. falpha f' u = Some x \<and> bucket x = b)" if "b < 64" for b u
    unfolding al using D(3,6) none that by (auto simp: f'_def nth_update_if)
  moreover have "bit (nonempty f') b \<longleftrightarrow> byFree f' ! b \<noteq> []" if "b < 64" for b
    using D(3,8) that by (auto simp: f'_def nth_update_if bit_or_iff bit_exp_iff)
  ultimately show "finv f'" unfolding finv_def
    using D(1-5) w by (auto simp: f'_def nth_update_if)
qed

lemma finv_remove:
  fixes f :: findex
  assumes inv: "finv f" and w: "falpha f w = Some v"
  defines "b \<equiv> bucket v" and "i \<equiv> fpos f ! w"
  defines "src' \<equiv> butlast ((byFree f ! b)[i := last (byFree f ! b)])"
  defines "f' \<equiv> f\<lparr>tracked := (tracked f)[w := False], free := (free f)[w := 0],
     fpos := (fpos f)[last (byFree f ! b) := i], byFree := (byFree f)[b := src'],
     nonempty := (if src' = [] then nonempty f AND NOT (push_bit b 1) else nonempty f)\<rparr>"
  shows "finv f'" "falpha f' = (falpha f)(w := None)"
proof -
  note D = finvD [OF inv]
  have wl: "w < length (free f)" using falpha_dom [OF w] by simp
  have b: "b < 64" by (simp add: b_def)
  let ?src = "byFree f ! b"
  have i: "i < length ?src" "?src ! i = w" using tracked_at [OF inv w] by (simp_all add: b_def i_def)
  have dist: "distinct ?src" using bucket_distinct [OF inv b] .
  note rem = drop_bucket_at [OF dist i(1), folded src'_def, unfolded i(2)]
  have "?src \<noteq> []" using i(1) by auto
  then have lst: "last ?src \<in> set ?src" "last ?src = ?src ! (length ?src - 1)"
    by (simp_all add: last_conv_nth)
  then have ll: "last ?src < length (free f)" using D(6) [OF b] falpha_dom by blast
  show al: "falpha f' = (falpha f)(w := None)"
    using wl D(2) by (auto simp: f'_def falpha_def nth_update_if fun_eq_iff)
  have "fpos f' ! (byFree f' ! c ! j) = j" if c: "c < 64" and j: "j < length (byFree f' ! c)" for c j
  proof (cases "c = b")
    case True
    then have j': "j < length ?src - 1" using j D(3) b rem(2) by (simp add: f'_def)
    then have "?src ! j \<noteq> last ?src" using dist lst(2) by (simp add: nth_eq_iff_index_eq)
    then show ?thesis using True j' rem(3) [OF j'] D(1,3,7) b ll by (simp add: f'_def nth_update_if)
  next
    case False
    then have j': "j < length (byFree f ! c)" "byFree f' ! c ! j = byFree f ! c ! j"
      using j by (simp_all add: f'_def)
    then have "byFree f ! c ! j \<in> set (byFree f ! c)" by simp
    then have "byFree f ! c ! j \<noteq> last ?src" using lst(1) D(6) [OF b] D(6) [OF c] False by auto
    then show ?thesis using j' D(7) [OF c j'(1)] ll D(1) by (simp add: f'_def nth_update_if)
  qed
  moreover have "u \<in> set (byFree f' ! c) \<longleftrightarrow> (\<exists>x. falpha f' u = Some x \<and> bucket x = c)" if "c < 64" for c u
    unfolding al using D(3,6) w that b rem(1) by (auto simp: f'_def nth_update_if b_def)
  moreover have "bit (nonempty f') c \<longleftrightarrow> byFree f' ! c \<noteq> []" if "c < 64" for c
    using that D(3) D(8) [OF that] b \<open>?src \<noteq> []\<close>
    by (cases "c = b") (simp_all add: f'_def bit_and_iff bit_not_iff bit_exp_iff)
  ultimately show "finv f'" unfolding finv_def
    using D(1-5) wl ll by (auto simp: f'_def nth_update_if)
qed

lemma fset_ok:
  assumes inv: "finv f" and w: "falpha f w = Some old"
  shows "wp (fset w val) (\<lambda>_ f'. finv f' \<and> falpha f' = (falpha f)(w \<mapsto> val)) noThrow f"
proof (cases "bucket old = bucket val")
  case True
  note D = finvD [OF inv]
  have w': "w < length (free f)" "tracked f ! w" "free f ! w = old" using falpha_dom [OF w] by auto
  define f' where "f' = f\<lparr>free := (free f)[w := val]\<rparr>"
  have al: "falpha f' = (falpha f)(w \<mapsto> val)"
    using w' by (auto simp: f'_def falpha_def nth_update_if fun_eq_iff)
  have "finv f'" unfolding finv_def al using D w w' True by (auto simp: f'_def nth_update_if)
  then show ?thesis using al True w' fcheck_ok [OF w inv]
    by (simp add: wp_def fset_def bnd_def gets_def vat_def upd_def ret_def f'_def)
next
  case False
  note D = finvD [OF inv]
  have w': "w < length (free f)" "tracked f ! w" "free f ! w = old" using falpha_dom [OF w] by auto
  define src where "src = byFree f ! bucket old"
  define src' where "src' = butlast (src[fpos f ! w := last src])"
  define f1 where "f1 = f\<lparr>tracked := (tracked f)[w := False], free := (free f)[w := 0],
     fpos := (fpos f)[last src := fpos f ! w], byFree := (byFree f)[bucket old := src'],
     nonempty := (if src' = [] then nonempty f AND NOT (push_bit (bucket old) 1) else nonempty f)\<rparr>"
  have f1: "finv f1" "falpha f1 = (falpha f)(w := None)"
    using finv_remove [OF inv w] by (simp_all add: f1_def src_def src'_def)
  define f2 where "f2 = f1\<lparr>tracked := (tracked f1)[w := True], free := (free f1)[w := val],
     fpos := (fpos f1)[w := length (byFree f1 ! bucket val) mod 2 ^ 32],
     byFree := (byFree f1)[bucket val := byFree f1 ! bucket val @ [w]],
     nonempty := nonempty f1 OR push_bit (bucket val) 1\<rparr>"
  have f2: "finv f2" "falpha f2 = (falpha f1)(w \<mapsto> val)"
    using finv_insert [OF f1(1), of w val] w'(1) D(2) by (simp_all add: f1_def f2_def)
  have tr: "(tracked f)[w := True] = tracked f" using w'(1,2) D(2) by (simp add: list_update_same_conv)
  have at: "fpos f ! w < length src" "src ! (fpos f ! w) = w"
    using tracked_at [OF inv w] by (simp_all add: src_def)
  then have "src \<noteq> []" by auto
  then have "last src \<in> set src" by simp
  then have ll: "last src < length (fpos f)"
    using D(1) D(6) [OF bucket_less [of old], folded src_def] by (auto dest: falpha_dom)
  have "fset w val f = (Inr (), f2)"
    using False w' at ll D(1,3) fcheck_ok [OF w inv]
    by (simp add: fset_def bnd_def gets_def vat_def vput_def upd_def ret_def f2_def f1_def
        src_def [symmetric] src'_def [symmetric] tr Let_def)
  then show ?thesis using f2 f1(2) by (simp add: wp_def)
qed

lemma finv_grow:
  assumes "finv f" "length (free f) \<le> n" "n \<le> npos"
  defines "f' \<equiv> f\<lparr>free := vresize n 0 (free f), fpos := vresize n 0 (fpos f), tracked := vresize n False (tracked f)\<rparr>"
  shows "finv f'" "falpha f' = falpha f"
proof -
  note D = finvD [OF assms(1)]
  show al: "falpha f' = falpha f"
    using assms(2) D(2) by (auto simp: f'_def falpha_def vresize_def nth_append fun_eq_iff)
  have "byFree f ! b ! i < length (fpos f)" if "b < 64" "i < length (byFree f ! b)" for b i
    using D(1) D(6) [OF that(1), of "byFree f ! b ! i"] that(2) by (auto dest: falpha_dom)
  with al D assms(2,3) show "finv f'" unfolding finv_def
    by (auto simp: f'_def vresize_def nth_append)
qed

lemma fpush_ok:
  assumes inv: "finv f" and w: "w < npos"
  shows "wp (fpush w) (\<lambda>_ f'. finv f' \<and>
    falpha f' = (if falpha f w = None then (falpha f)(w \<mapsto> 0) else falpha f)) noThrow f"
proof (cases "falpha f w = None")
  case False
  then have "w < length (free f)" "tracked f ! w" by (auto dest: falpha_dom)
  moreover from False have "(if falpha f w = None then (falpha f)(w \<mapsto> 0) else falpha f) = falpha f"
    by (rule if_not_P)
  ultimately show ?thesis using inv by (simp only: fpush_def wp_simps finvD(2) if_True HOL.simp_thms)
next
  case True
  define f0 where "f0 = (if w \<ge> length (free f)
    then f\<lparr>free := vresize (Suc w) 0 (free f), fpos := vresize (Suc w) 0 (fpos f),
           tracked := vresize (Suc w) False (tracked f)\<rparr> else f)"
  have f0: "finv f0" "falpha f0 = falpha f" "w < length (free f0)" "byFree f0 = byFree f"
    using finv_grow [OF inv, of "Suc w"] inv w by (auto simp: f0_def vresize_def)
  note D = finvD [OF f0(1)]
  have nt: "\<not> tracked f0 ! w" using True f0(2,3) by (auto simp: falpha_def fun_eq_iff split: if_splits)
  then have fr: "(free f0)[w := 0] = free f0" using D(5) [OF f0(3)] by (simp add: list_update_same_conv f0(3))
  have m: "Suc w mod 4294967296 = Suc w" using w by (simp add: npos_def)
  have b0: "bucket 0 = 0" by (simp add: bucket_def)
  have nt': "\<not> (w < length (free f) \<and> tracked f ! w)" using True by (auto simp: falpha_def)
  have "fpush w f = (Inr (), f0\<lparr>tracked := (tracked f0)[w := True], free := (free f0)[w := 0],
     fpos := (fpos f0)[w := length (byFree f0 ! bucket 0) mod 2 ^ 32],
     byFree := (byFree f0)[bucket 0 := byFree f0 ! bucket 0 @ [w]],
     nonempty := nonempty f0 OR push_bit (bucket 0) 1\<rparr>)"
  proof (cases "w < length (free f)")
    case True
    then have "f0 = f" by (simp add: f0_def)
    with True nt' D(1-3) fr b0 show ?thesis
      by (simp add: fpush_def bnd_def gets_def vat_def vput_def upd_def ret_def)
  next
    case False
    with D(1-3) f0(3,4) fr b0 m show ?thesis
      by (simp add: fpush_def bnd_def gets_def vat_def vput_def upd_def ret_def f0_def)
  qed
  with finv_insert [OF f0(1,3) nt, of 0] True f0(2) show ?thesis by (simp add: wp_def)
qed


lemma countl_zero_msb:
  assumes "w \<noteq> 0"
  shows "countl_zero w < 64" "bit w (63 - countl_zero w)"
    "63 - countl_zero w < m \<Longrightarrow> m < 64 \<Longrightarrow> \<not> bit w m"
proof -
  let ?P = "\<lambda>i. \<not> bit w (63 - i)"
  define xs where "xs = [0..<64::nat]"
  have xs: "length xs = 64" "i < 64 \<Longrightarrow> xs ! i = i" for i
    unfolding xs_def using nth_upt [of 0 i 64] by (simp_all only: length_upt add_0 diff_zero)
  define k where "k = length (takeWhile ?P xs)"
  have below: "\<not> bit w (63 - i)" if "i < k" for i
  proof -
    have "i < 64" using that length_takeWhile_le [of ?P xs] by (simp add: k_def xs)
    then have "takeWhile ?P xs ! i = i"
      using takeWhile_nth [of i ?P xs] that by (simp add: k_def xs)
    then have "i \<in> set (takeWhile ?P xs)" using that nth_mem [of i "takeWhile ?P xs"] by (simp add: k_def)
    then show ?thesis by (auto dest: set_takeWhileD)
  qed
  have "k < 64"
  proof (rule ccontr)
    assume "\<not> k < 64"
    then have "\<not> bit w m" if "m < 64" for m using below [of "63 - m"] that by simp
    then have "w = 0" by (intro bit_word_eqI) simp
    with assms show False by simp
  qed
  then have "\<not> ?P (xs ! k)" using nth_length_takeWhile [of ?P xs] by (simp add: k_def xs)
  moreover have "countl_zero w = k" by (simp only: countl_zero_def k_def xs_def)
  ultimately show "countl_zero w < 64" "bit w (63 - countl_zero w)"
    "63 - countl_zero w < m \<Longrightarrow> m < 64 \<Longrightarrow> \<not> bit w m"
    using \<open>k < 64\<close> below [of "63 - m"] by (simp_all add: xs)
qed

text \<open>\<open>maxFree\<close> is the largest number of free slots of any worker, within 0 and 63.\<close>

lemma maxFree_msb: "nonempty f \<noteq> 0 \<Longrightarrow> maxFree f = int (63 - countl_zero (nonempty f))"
  using countl_zero_msb(1) [of "nonempty f"] by (simp add: maxFree_def maxSlots_def)

lemma maxFree_upper:
  assumes "finv f" "falpha f w = Some v" shows "min v 63 \<le> maxFree f"
proof -
  have "w \<in> set (byFree f ! bucket v)" using finvD(6) [OF assms(1) bucket_less] assms(2) by blast
  then have bit: "bit (nonempty f) (bucket v)" using finvD(8) [OF assms(1) bucket_less, of v] by auto
  then have nz: "nonempty f \<noteq> 0" by (rule contrapos_pn) simp
  have "\<not> 63 - countl_zero (nonempty f) < bucket v"
    using countl_zero_msb(3) [OF nz, of "bucket v"] bit by auto
  then have "int (bucket v) \<le> maxFree f" unfolding maxFree_msb [OF nz] by linarith
  moreover have "min v 63 \<le> int (bucket v)" by (simp add: bucket_def maxSlots_def)
  ultimately show ?thesis by linarith
qed

lemma maxFree_bucket:
  assumes "finv f" "0 < maxFree f"
  shows "maxFree f \<le> 63" "byFree f ! nat (maxFree f) \<noteq> []"
proof -
  have nz: "nonempty f \<noteq> 0" using assms(2) by (auto simp: maxFree_def)
  show "maxFree f \<le> 63" unfolding maxFree_msb [OF nz] by linarith
  have "bit (nonempty f) (nat (maxFree f))" unfolding maxFree_msb [OF nz] nat_int
    by (rule countl_zero_msb(2) [OF nz])
  moreover have "nat (maxFree f) < 64" unfolding maxFree_msb [OF nz] by linarith
  ultimately show "byFree f ! nat (maxFree f) \<noteq> []" using finvD(8) [OF assms(1)] by blast
qed

lemma emptiest_some:
  assumes inv: "finv f" and e: "emptiest f = Some w"
  shows "\<exists>v. falpha f w = Some v \<and> 0 < v \<and> (\<forall>w' v'. falpha f w' = Some v' \<longrightarrow> min v' 63 \<le> v)"
proof -
  let ?m = "maxFree f"
  from e have m: "0 < ?m" and hd: "\<exists>ws. byFree f ! nat ?m = w # ws"
    by (auto simp: emptiest_def Let_def split: if_splits list.splits)
  have "nat ?m < 64" using maxFree_bucket(1) [OF inv m] by simp
  then obtain v where v: "falpha f w = Some v" "bucket v = nat ?m"
    using finvD(6) [OF inv, of "nat ?m" w] hd by auto
  then have "?m \<le> v" "0 < v" using m by (auto simp: bucket_def maxSlots_def)
  then show ?thesis using v maxFree_upper [OF inv] order_trans by blast
qed

lemma emptiest_none:
  assumes inv: "finv f" and e: "emptiest f = None" and w: "falpha f w = Some v"
  shows "v \<le> 0"
proof -
  have "maxFree f \<le> 0"
    using e maxFree_bucket(2) [OF inv] by (auto simp: emptiest_def Let_def split: if_splits list.splits)
  then show ?thesis using maxFree_upper [OF inv w] by (simp add: min_def split: if_splits)
qed

lemma maxFree_pos:
  assumes "finv f"
  shows "0 < maxFree f \<longleftrightarrow> (\<exists>w v. falpha f w = Some v \<and> 0 < v)"
proof
  assume m: "0 < maxFree f"
  then obtain w where "emptiest f = Some w"
    using maxFree_bucket(2) [OF assms] by (auto simp: emptiest_def Let_def neq_Nil_conv)
  then show "\<exists>w v. falpha f w = Some v \<and> 0 < v" using emptiest_some [OF assms] by blast
next
  assume "\<exists>w v. falpha f w = Some v \<and> 0 < v"
  then obtain w v where "falpha f w = Some v" "0 < v" by blast
  with maxFree_upper [OF assms this(1)] show "0 < maxFree f" by linarith
qed

section \<open>What the scheduler relies on\<close>

locale free_index =
  fixes iempty :: "'f"
    and ipush :: "nat \<Rightarrow> ('f, unit) prog"
    and iset :: "nat \<Rightarrow> int \<Rightarrow> ('f, unit) prog"
    and iget :: "'f \<Rightarrow> nat \<Rightarrow> int"
    and imaxFree :: "'f \<Rightarrow> int"
    and iemptiest :: "'f \<Rightarrow> nat option"
    and ialpha :: "'f \<Rightarrow> nat \<rightharpoonup> int"
    and iinv :: "'f \<Rightarrow> bool"
  assumes empty_ok: "iinv iempty" "ialpha iempty = Map.empty"
    and push_ok: "iinv f \<Longrightarrow> w < npos \<Longrightarrow>
      wp (ipush w) (\<lambda>_ f'. iinv f' \<and> ialpha f' = (if ialpha f w = None then (ialpha f)(w \<mapsto> 0) else ialpha f)) noThrow f"
    and set_ok: "iinv f \<Longrightarrow> ialpha f w = Some old \<Longrightarrow>
      wp (iset w v) (\<lambda>_ f'. iinv f' \<and> ialpha f' = (ialpha f)(w \<mapsto> v)) noThrow f"
    and get_ok: "iinv f \<Longrightarrow> iget f w = (case ialpha f w of None \<Rightarrow> 0 | Some v \<Rightarrow> v)"
    and maxFree_pos: "iinv f \<Longrightarrow> 0 < imaxFree f \<longleftrightarrow> (\<exists>w v. ialpha f w = Some v \<and> 0 < v)"
    and emptiest_some: "iinv f \<Longrightarrow> iemptiest f = Some w \<Longrightarrow>
      \<exists>v. ialpha f w = Some v \<and> 0 < v \<and> (\<forall>w' v'. ialpha f w' = Some v' \<longrightarrow> min v' 63 \<le> v)"
    and emptiest_none: "iinv f \<Longrightarrow> iemptiest f = None \<Longrightarrow> ialpha f w = Some v \<Longrightarrow> v \<le> 0"
begin

lemma set_eq:
  assumes "iinv f" "ialpha f w = Some old"
  obtains f' where "iset w v f = (Inr (), f')" "iinv f'" "ialpha f' = (ialpha f)(w \<mapsto> v)"
  using wp_noThrowD [OF set_ok [OF assms]] by auto

text \<open>Pushing a worker and then setting its slots, as \<open>refreshFree\<close> does, always works.\<close>

lemma push_set_eq:
  assumes "iinv f" "w < npos"
  obtains f' where "bnd (ipush w) (\<lambda>_. iset w v) f = (Inr (), f')" "iinv f'" "ialpha f' = (ialpha f)(w \<mapsto> v)"
proof -
  from wp_noThrowD [OF push_ok [OF assms]] obtain f1 where
    f1: "ipush w f = (Inr (), f1)" "iinv f1"
    "ialpha f1 = (if ialpha f w = None then (ialpha f)(w \<mapsto> 0) else ialpha f)" by auto
  then obtain old where "ialpha f1 w = Some old" by (cases "ialpha f w") auto
  from set_eq [OF f1(2) this] obtain f2 where
    f2: "iset w v f1 = (Inr (), f2)" "iinv f2" "ialpha f2 = (ialpha f1)(w \<mapsto> v)" .
  show ?thesis using f1 f2 by (intro that [of f2]) (auto simp: bnd_def)
qed

lemma some_free_iff:
  assumes "iinv f"
  shows "iemptiest f = None \<longleftrightarrow> (\<forall>w. iget f w \<le> 0)"
proof
  assume "iemptiest f = None"
  then show "\<forall>w. iget f w \<le> 0"
    using emptiest_none [OF assms] by (auto simp: get_ok [OF assms] split: option.splits)
next
  assume "\<forall>w. iget f w \<le> 0"
  then have "v \<le> 0" if "ialpha f w = Some v" for w v
    using that get_ok [OF assms, of w] by (metis option.simps(5))
  then show "iemptiest f = None"
    using emptiest_some [OF assms] by (metis not_less option.exhaust)
qed

end

interpretation fi: free_index findex0 fpush fset fget maxFree emptiest falpha finv
proof
  have "byFree findex0 ! b = []" if "b < 64" for b
    using that by (simp add: findex0_def maxSlots_def del: replicate_Suc)
  then show "finv findex0"
    by (simp add: finv_def falpha_def) (simp add: findex0_def maxSlots_def)
  show "falpha findex0 = Map.empty" by (simp add: falpha_def findex0_def fun_eq_iff)
qed (rule fpush_ok fset_ok fget_falpha maxFree_pos emptiest_some emptiest_none; assumption)+


context free_index
begin

lemma run_eq:
  assumes "iinv f" "\<forall>op \<in> set ops. fst op < npos"
  shows "\<exists>f'. forEach ops (\<lambda>(w, v). bnd (ipush w) (\<lambda>_. iset w v)) f = (Inr (), f') \<and> iinv f' \<and>
    ialpha f' = fold (\<lambda>(w, v) m. m(w \<mapsto> v)) ops (ialpha f)"
  using assms
proof (induction ops arbitrary: f)
  case Nil
  then show ?case by (auto simp: ret_def)
next
  case (Cons op ops)
  obtain w v where op: "op = (w, v)" by fastforce
  have "w < npos" using Cons.prems(2) by (simp add: op)
  obtain f1 where f1: "bnd (ipush w) (\<lambda>_. iset w v) f = (Inr (), f1)" "iinv f1" "ialpha f1 = (ialpha f)(w \<mapsto> v)"
    by (rule push_set_eq [OF Cons.prems(1) \<open>w < npos\<close>])
  have step: "forEach (op # ops) (\<lambda>(w, v). bnd (ipush w) (\<lambda>_. iset w v)) f = forEach ops (\<lambda>(w, v). bnd (ipush w) (\<lambda>_. iset w v)) f1"
    using f1(1) by (simp add: op bnd_def [of "bnd _ _"])
  from Cons.IH [OF f1(2)] Cons.prems(2) f1(3) show ?case unfolding step by (simp add: op)
qed

end

text \<open>C7: The index of free slots is a map from workers to their slots: after any sequence of refreshes
  a worker's slots read back as last set, and the worker it calls emptiest has a free slot
  and at least as many as any other, counting no more than 63; it finds none only when
  nobody has a slot.\<close>

theorem freeIndex_refines_map:
  assumes "\<forall>op \<in> set ops. fst op < npos"
  shows "\<exists>f. forEach ops (\<lambda>(w, v). bnd (fpush w) (\<lambda>_. fset w v)) findex0 = (Inr (), f) \<and>
    (let m = fold (\<lambda>(w, v) m. m(w \<mapsto> v)) ops Map.empty in
      (\<forall>w. fget f w = (case m w of None \<Rightarrow> 0 | Some v \<Rightarrow> v)) \<and>
      (case emptiest f of None \<Rightarrow> \<forall>w v. m w = Some v \<longrightarrow> v \<le> 0
       | Some w \<Rightarrow> 0 < fget f w \<and> (\<forall>w' v'. m w' = Some v' \<longrightarrow> min v' 63 \<le> fget f w)))"
proof -
  from fi.run_eq [OF fi.empty_ok(1) assms] obtain f where
    f: "forEach ops (\<lambda>(w, v). bnd (fpush w) (\<lambda>_. fset w v)) findex0 = (Inr (), f)" "finv f"
    "falpha f = fold (\<lambda>(w, v) m. m(w \<mapsto> v)) ops Map.empty" by (auto simp: fi.empty_ok(2))
  show ?thesis
    using fi.get_ok [OF f(2)] fi.emptiest_some [OF f(2)] fi.emptiest_none [OF f(2)]
    by (intro exI [of _ f]) (fastforce simp: f(1,3) Let_def split: option.splits)
qed

theorem freeIndex_refines_map_witness:
  "\<exists>f. forEach [(0, 2), (1, 5)] (\<lambda>(w, v). bnd (fpush w) (\<lambda>_. fset w v)) findex0 = (Inr (), f) \<and> fget f 1 = 5 \<and> emptiest f = Some 1"
proof -
  define m where "m = fold (\<lambda>(w, v) m. m(w \<mapsto> v)) [(0 :: nat, 2 :: int), (1, 5)] Map.empty"
  have m: "m 1 = Some 5" "\<And>w. m w = (if w = 1 then Some 5 else if w = 0 then Some 2 else None)" by (simp_all add: m_def)
  have "\<forall>op \<in> set [(0 :: nat, 2 :: int), (1, 5)]. fst op < npos" by (simp add: npos_def)
  from freeIndex_refines_map [OF this, folded m_def, unfolded Let_def] obtain f where
    f: "forEach [(0, 2), (1, 5)] (\<lambda>(w, v). bnd (fpush w) (\<lambda>_. fset w v)) findex0 = (Inr (), f)"
    and get: "\<And>w. fget f w = (case m w of None \<Rightarrow> 0 | Some v \<Rightarrow> v)"
    and e: "case emptiest f of None \<Rightarrow> \<forall>w v. m w = Some v \<longrightarrow> v \<le> 0
       | Some w \<Rightarrow> 0 < fget f w \<and> (\<forall>w' v'. m w' = Some v' \<longrightarrow> min v' 63 \<le> fget f w)" by blast
  have "emptiest f \<noteq> None" using e m(1) by (cases "emptiest f") fastforce+
  then obtain w where w: "emptiest f = Some w" by blast
  with e m(1) have "5 \<le> fget f w" by fastforce
  then have "w = 1" by (auto simp: get m(2) split: if_splits)
  moreover have "fget f 1 = 5" by (simp only: get m(1) option.case)
  ultimately show ?thesis using w by (intro exI [of _ f] conjI f) simp_all
qed

end
