(* ===== verification/SchedCore.thy ===== *)
theory SchedCore
  imports FreeIndex "HOL-Library.Char_ord" "HOL-Library.List_Lexorder"
begin

text \<open>
  The scheduler's state machine (class \<open>Core\<close> of \<^verbatim>\<open>src/daemon/scheduler.hh\<close>): which
  derivations are wanted by whom, which worker builds which, and the choice of a worker.
  This theory holds the data and the operations, in the order of the source; the invariant
  and what the operations do to it are in the theories \<open>SchedInv\<close>, \<open>SchedOps\<close> and
  \<open>SchedDispatch\<close>.

  Ids are natural numbers, \<open>noWorker\<close> is the largest 32-bit number, doubles are reals.
  The map \<open>systems\<close> is iterated over in \<open>dispatch\<close> and \<open>stats\<close>, so it is an association
  list and its order stands for the iteration order; \<open>lastBuilder\<close> is one because its size
  is asked for.  Output parameters (\<open>out\<close>, \<open>superseded\<close>, \<open>revokes\<close>) are returned.
\<close>

section \<open>Data\<close>

type_synonym client_id = nat
type_synonym worker_id = nat
type_synonym drv_id = nat

definition noWorker :: worker_id where
  "noWorker = 4294967295"

text \<open>\<open>PathKey\<close>: the first 32 characters after the last slash, padded with NULs.\<close>

definition baseName :: "string \<Rightarrow> string" where
  "baseName path = rev (takeWhile (\<lambda>ch. ch \<noteq> CHR ''/'') (rev path))"

definition pathKey :: "string \<Rightarrow> string" where
  "pathKey path = (let b = take 32 (baseName path) in b @ replicate (32 - length b) (CHR 0x00))"

record config =
  ageWeight :: real
  faninWeight :: real
  locLambda :: real

definition config0 :: config where
  "config0 = \<lparr>ageWeight = 4, faninWeight = 30000, locLambda = 256000000\<rparr>"

record assign =
  aDrv :: drv_id
  aWorker :: worker_id
  aAssignId :: nat
  aClients :: "client_id list"

record entry =
  drvPath :: string
  inputs :: "string list"
  esystem :: string
  efeatures :: "string list"
  followers :: "client_id list"
  eworker :: worker_id
  assignId :: nat
  enqMs :: real
  cpHint :: real
  unplaceable :: bool
  avoid :: worker_id

definition entry0 :: entry where
  "entry0 = \<lparr>drvPath = [], inputs = [], esystem = [], efeatures = [], followers = [],
     eworker = noWorker, assignId = 0, enqMs = 0, cpHint = 0, unplaceable = False, avoid = noWorker\<rparr>"

record worker =
  waddr :: string
  wsystems :: "string list"
  wfeatures :: "string list"
  maxJobs :: int
  up :: bool
  draining :: bool
  running :: "drv_id list"

definition worker0 :: worker where
  "worker0 = \<lparr>waddr = [], wsystems = [], wfeatures = [], maxJobs = 0, up = False, draining = False, running = []\<rparr>"

definition takesWork :: "worker \<Rightarrow> bool" where
  "takesWork wkr \<longleftrightarrow> up wkr \<and> \<not> draining wkr \<and> maxJobs wkr > 0"

record sysState =
  queue :: "real iheap"
  sfree :: findex

definition sysState0 :: sysState where
  "sysState0 = \<lparr>queue = iheap0, sfree = findex0\<rparr>"

record core =
  cfg :: config
  drvIds :: "string \<rightharpoonup> drv_id"
  freeIds :: "drv_id list"
  workerIds :: "string \<rightharpoonup> worker_id"
  entries :: "entry option list"
  workers :: "worker list"
  workersUp :: nat
  systems :: "(string \<times> sysState) list"
  follows :: "client_id \<rightharpoonup> drv_id list"
  lastBuilder :: "(string \<times> worker_id \<times> nat) list"
  lastAssignId :: nat

definition core0 :: "config \<Rightarrow> core" where
  "core0 cf = \<lparr>cfg = cf, drvIds = Map.empty, freeIds = [], workerIds = Map.empty, entries = [], workers = [],
     workersUp = 0, systems = [], follows = Map.empty, lastBuilder = [], lastAssignId = 0\<rparr>"

definition maxUnofferedSystems :: nat where
  "maxUnofferedSystems = 16"

definition maxEntries :: nat where
  "maxEntries = 2 ^ 22"

definition maxLastBuilder :: nat where
  "maxLastBuilder = 2 ^ 18"

section \<open>Access to entries, workers and systems\<close>

text \<open>\<open>sys(name)\<close>: the state of a system, created empty when it is not there yet.\<close>

definition sys :: "core \<Rightarrow> string \<Rightarrow> sysState" where
  "sys c name = (case map_of (systems c) name of Some st \<Rightarrow> st | None \<Rightarrow> sysState0)"

definition onQueue :: "string \<Rightarrow> (real iheap, 'a) prog \<Rightarrow> (core, 'a) prog" where
  "onQueue name = zoom (\<lambda>c. queue (sys c name))
     (\<lambda>q c. c\<lparr>systems := AList.update name ((sys c name)\<lparr>queue := q\<rparr>) (systems c)\<rparr>)"

definition onFree :: "string \<Rightarrow> (findex, 'a) prog \<Rightarrow> (core, 'a) prog" where
  "onFree name = zoom (\<lambda>c. sfree (sys c name))
     (\<lambda>f c. c\<lparr>systems := AList.update name ((sys c name)\<lparr>sfree := f\<rparr>) (systems c)\<rparr>)"

definition slotAt :: "drv_id \<Rightarrow> (core, entry option) prog" where
  "slotAt drv = bnd (gets entries) (\<lambda>es. vat es drv)"

definition putSlot :: "drv_id \<Rightarrow> entry option \<Rightarrow> (core, unit) prog" where
  "putSlot drv slot = upd (\<lambda>c. c\<lparr>entries := (entries c)[drv := slot]\<rparr>)"

definition workerAt :: "worker_id \<Rightarrow> (core, worker) prog" where
  "workerAt wid = bnd (gets workers) (\<lambda>ws. vat ws wid)"

definition putWorker :: "worker_id \<Rightarrow> worker \<Rightarrow> (core, unit) prog" where
  "putWorker wid wkr = upd (\<lambda>c. c\<lparr>workers := (workers c)[wid := wkr]\<rparr>)"

definition drvId :: "string \<Rightarrow> (core, drv_id) prog" where
  "drvId path =
     (let key = pathKey path in
      bnd (gets (\<lambda>c. drvIds c key)) (\<lambda>found.
      case found of
        Some drv \<Rightarrow> ret drv
      | None \<Rightarrow>
          bnd (gets (\<lambda>c. c)) (\<lambda>c.
          bnd (if freeIds c \<noteq> [] then
                 bnd (upd (\<lambda>c. c\<lparr>freeIds := butlast (freeIds c)\<rparr>)) (\<lambda>_. ret (last (freeIds c)))
               else if length (entries c) \<ge> maxEntries then
                 throw (NixError ''scheduler: derivation table full'')
               else
                 bnd (upd (\<lambda>c. c\<lparr>entries := entries c @ [None]\<rparr>)) (\<lambda>_. ret (length (entries c) mod 2 ^ 32))) (\<lambda>drv.
          bnd (upd (\<lambda>c. c\<lparr>drvIds := (drvIds c)(key \<mapsto> drv)\<rparr>)) (\<lambda>_. ret drv)))))"

definition findDrv :: "core \<Rightarrow> string \<Rightarrow> drv_id option" where
  "findDrv c path = drvIds c (pathKey path)"

definition workerId :: "string \<Rightarrow> (core, worker_id) prog" where
  "workerId addr =
     bnd (gets (\<lambda>c. c)) (\<lambda>c.
     case workerIds c addr of
       Some wid \<Rightarrow> ret wid
     | None \<Rightarrow>
         let wid = length (workers c) mod 2 ^ 32 in
         bnd (upd (\<lambda>c. c\<lparr>workers := workers c @ [worker0\<lparr>waddr := addr\<rparr>],
                        workerIds := (workerIds c)(addr \<mapsto> wid)\<rparr>)) (\<lambda>_. ret wid))"

definition queued :: "core \<Rightarrow> nat" where
  "queued c = sum_list (map (\<lambda>(name, state). hsize (queue state)) (systems c))"

definition offered :: "core \<Rightarrow> string \<Rightarrow> bool" where
  "offered c system \<longleftrightarrow> list_ex (\<lambda>wkr. system \<in> set (wsystems wkr)) (workers c)"

definition prio :: "config \<Rightarrow> entry \<Rightarrow> real" where
  "prio cf ent =
     (let extra = (if followers ent = [] then 0 else real (length (followers ent) - 1)) in
      - (cpHint ent + faninWeight cf * extra - ageWeight cf * enqMs ent))"

definition retire :: "drv_id \<Rightarrow> (core, unit) prog" where
  "retire drv =
     bnd (slotAt drv) (\<lambda>slot.
     case slot of
       None \<Rightarrow> ret ()
     | Some ent \<Rightarrow>
         bnd (gets (\<lambda>c. map_of (systems c) (esystem ent))) (\<lambda>found.
         bnd (case found of
                None \<Rightarrow> ret ()
              | Some _ \<Rightarrow>
                  bnd (onQueue (esystem ent) (herase drv)) (\<lambda>_.
                  bnd (gets (\<lambda>c. hsize (queue (sys c (esystem ent))) = 0 \<and> \<not> offered c (esystem ent))) (\<lambda>unused.
                  if unused then upd (\<lambda>c. c\<lparr>systems := AList.delete (esystem ent) (systems c)\<rparr>) else ret ()))) (\<lambda>_.
         bnd (upd (\<lambda>c. c\<lparr>drvIds := (drvIds c)(pathKey (drvPath ent) := None)\<rparr>)) (\<lambda>_.
         bnd (putSlot drv None) (\<lambda>_.
         upd (\<lambda>c. c\<lparr>freeIds := freeIds c @ [drv]\<rparr>))))))"

definition refreshVal :: "worker \<Rightarrow> int" where
  "refreshVal wkr = (if takesWork wkr then maxJobs wkr - int (min (length (running wkr)) maxSlots) else 0)"

definition refreshFree :: "worker_id \<Rightarrow> (core, unit) prog" where
  "refreshFree wid =
     bnd (workerAt wid) (\<lambda>wkr.
     forEach (wsystems wkr) (\<lambda>name. onFree name (fset wid (refreshVal wkr))))"

text \<open>Queue an entry again under its current priority.\<close>

definition requeue :: "drv_id \<Rightarrow> entry \<Rightarrow> (core, unit) prog" where
  "requeue drv ent = bnd (gets cfg) (\<lambda>cf. onQueue (esystem ent) (hset drv (prio cf ent)))"

section \<open>Clients\<close>

record wantInfo =
  wiDrvPath :: string
  wiInputs :: "string list"
  wiSystem :: string
  wiFeatures :: "string list"
  wiCpHintMs :: real

text \<open>The entry a Want works on, new or known, and what it is after the Want.\<close>

definition wantBase :: "wantInfo \<Rightarrow> real \<Rightarrow> entry option \<Rightarrow> entry" where
  "wantBase info nowMs slot =
     (case slot of
        None \<Rightarrow> entry0\<lparr>drvPath := wiDrvPath info, esystem := wiSystem info, efeatures := wiFeatures info,
                       enqMs := nowMs, inputs := map pathKey (wiInputs info)\<rparr>
      | Some e \<Rightarrow> if esystem e = [] then e\<lparr>esystem := wiSystem info, efeatures := wiFeatures info\<rparr> else e)"

definition wantEntry :: "client_id \<Rightarrow> wantInfo \<Rightarrow> real \<Rightarrow> entry option \<Rightarrow> entry" where
  "wantEntry client info nowMs slot =
     (let ent = wantBase info nowMs slot;
          ent = (if client \<in> set (followers ent) then ent else ent\<lparr>followers := followers ent @ [client]\<rparr>) in
      ent\<lparr>cpHint := max (cpHint ent) (wiCpHintMs info)\<rparr>)"

definition addFollow :: "client_id \<Rightarrow> drv_id \<Rightarrow> (client_id \<rightharpoonup> drv_id list) \<Rightarrow> (client_id \<rightharpoonup> drv_id list)" where
  "addFollow client drv fl = fl(client \<mapsto> (case fl client of None \<Rightarrow> [] | Some ds \<Rightarrow> ds) @ [drv])"

definition wantAt :: "client_id \<Rightarrow> wantInfo \<Rightarrow> real \<Rightarrow> drv_id \<Rightarrow> (core, drv_id \<times> (worker_id \<times> nat) option) prog" where
  "wantAt client info nowMs drv =
     bnd (slotAt drv) (\<lambda>slot.
     let ent = wantEntry client info nowMs slot;
         known = client \<in> set (followers (wantBase info nowMs slot)) in
     bnd (putSlot drv (Some ent)) (\<lambda>_.
     bnd (upd (\<lambda>c. c\<lparr>follows := (if known then follows c else addFollow client drv (follows c))\<rparr>)) (\<lambda>_.
     if eworker ent \<noteq> noWorker then ret (drv, Some (eworker ent, assignId ent))
     else bnd (requeue drv ent) (\<lambda>_. ret (drv, None)))))"

definition want :: "client_id \<Rightarrow> wantInfo \<Rightarrow> real \<Rightarrow> (core, drv_id \<times> (worker_id \<times> nat) option) prog" where
  "want client info nowMs = bnd (drvId (wiDrvPath info)) (wantAt client info nowMs)"

definition cancelId :: "client_id \<Rightarrow> drv_id \<Rightarrow> (core, worker_id option) prog" where
  "cancelId client drv =
     bnd (gets entries) (\<lambda>es.
     if drv \<ge> length es then ret None
     else
       case es ! drv of
         None \<Rightarrow> ret None
       | Some ent \<Rightarrow>
           if client \<notin> set (followers ent) then ret None
           else
             let ent = ent\<lparr>followers := removeAll client (followers ent)\<rparr> in
             bnd (putSlot drv (Some ent)) (\<lambda>_.
             if followers ent \<noteq> [] then
               if eworker ent = noWorker then bnd (requeue drv ent) (\<lambda>_. ret None) else ret None
             else if eworker ent = noWorker then bnd (retire drv) (\<lambda>_. ret None)
             else ret (Some (eworker ent))))"

definition cancel :: "client_id \<Rightarrow> string \<Rightarrow> (core, worker_id option) prog" where
  "cancel client path =
     bnd (gets (\<lambda>c. findDrv c path)) (\<lambda>found.
     case found of None \<Rightarrow> ret None | Some drv \<Rightarrow> cancelId client drv)"

fun cancelAll :: "client_id \<Rightarrow> drv_id list \<Rightarrow> (drv_id \<times> worker_id) list \<Rightarrow> (core, (drv_id \<times> worker_id) list) prog" where
  "cancelAll client [] revokes = ret revokes"
| "cancelAll client (drv # drvs) revokes =
     bnd (cancelId client drv) (\<lambda>wid.
     cancelAll client drvs (case wid of None \<Rightarrow> revokes | Some w \<Rightarrow> revokes @ [(drv, w)]))"

definition clientGone :: "client_id \<Rightarrow> (core, (drv_id \<times> worker_id) list) prog" where
  "clientGone client =
     bnd (gets (\<lambda>c. follows c client)) (\<lambda>found.
     case found of
       None \<Rightarrow> ret []
     | Some drvs \<Rightarrow>
         bnd (upd (\<lambda>c. c\<lparr>follows := (follows c)(client := None)\<rparr>)) (\<lambda>_.
         cancelAll client drvs []))"

section \<open>Workers\<close>

definition requeueOrphan :: "worker_id \<Rightarrow> drv_id \<Rightarrow> (core, unit) prog" where
  "requeueOrphan wid drv =
     bnd (gets entries) (\<lambda>es.
     if drv \<ge> length es then ret ()
     else
       case es ! drv of
         None \<Rightarrow> ret ()
       | Some ent \<Rightarrow>
           if eworker ent \<noteq> wid then ret ()
           else
             let ent = ent\<lparr>eworker := noWorker\<rparr> in
             bnd (putSlot drv (Some ent)) (\<lambda>_.
             if followers ent = [] then retire drv else requeue drv ent))"

definition workerGone :: "worker_id \<Rightarrow> (core, unit) prog" where
  "workerGone wid =
     bnd (workerAt wid) (\<lambda>wkr.
     bnd (upd (\<lambda>c. c\<lparr>workersUp := (if up wkr then workersUp c - 1 else workersUp c)\<rparr>)) (\<lambda>_.
     bnd (putWorker wid (wkr\<lparr>up := False\<rparr>)) (\<lambda>_.
     bnd (refreshFree wid) (\<lambda>_.
     bnd (putWorker wid (wkr\<lparr>up := False, running := []\<rparr>)) (\<lambda>_.
     forEach (running wkr) (requeueOrphan wid))))))"

record helloInfo =
  hiAddr :: string
  hiSystems :: "string list"
  hiFeatures :: "string list"
  hiMaxJobs :: nat
  hiRunning :: "(string \<times> nat) list"

definition dropRunning :: "worker_id \<Rightarrow> drv_id \<Rightarrow> (core, unit) prog" where
  "dropRunning wid drv =
     bnd (workerAt wid) (\<lambda>wkr.
     bnd (putWorker wid (wkr\<lparr>running := removeAll drv (running wkr)\<rparr>)) (\<lambda>_.
     refreshFree wid))"

text \<open>One derivation a worker reports, and what to tell its followers about it: the worker that
  has to give it up, or \<open>noWorker\<close> when it was waiting for one.\<close>

definition helloAt :: "worker_id \<Rightarrow> string \<Rightarrow> nat \<Rightarrow> drv_id \<Rightarrow> (core, (drv_id \<times> worker_id) list) prog" where
  "helloAt wid path aid drv =
     bnd (slotAt drv) (\<lambda>slot.
     let ent = (case slot of None \<Rightarrow> entry0\<lparr>drvPath := path\<rparr> | Some e \<Rightarrow> e) in
     bnd (putSlot drv (Some ent)) (\<lambda>_.
     bnd (if eworker ent \<noteq> noWorker \<and> eworker ent \<noteq> wid then dropRunning (eworker ent) drv else ret ()) (\<lambda>_.
     bnd (putSlot drv (Some (ent\<lparr>eworker := wid, assignId := aid\<rparr>))) (\<lambda>_.
     bnd (onQueue (esystem ent) (herase drv)) (\<lambda>_.
     bnd (workerAt wid) (\<lambda>wkr.
     bnd (putWorker wid (wkr\<lparr>running := (if drv \<in> set (running wkr) then running wkr else running wkr @ [drv])\<rparr>)) (\<lambda>_.
     ret (if eworker ent \<noteq> noWorker \<and> eworker ent \<noteq> wid then [(drv, eworker ent)]
          else if eworker ent = noWorker \<and> followers ent \<noteq> [] then [(drv, noWorker)]
          else []))))))))"

fun helloRunning :: "worker_id \<Rightarrow> (string \<times> nat) list \<Rightarrow> (drv_id \<times> worker_id) list
    \<Rightarrow> (core, (drv_id \<times> worker_id) list) prog" where
  "helloRunning wid [] superseded = ret superseded"
| "helloRunning wid ((path, aid) # rest) superseded =
     bnd (drvId path) (\<lambda>drv.
     bnd (helloAt wid path aid drv) (\<lambda>more.
     helloRunning wid rest (superseded @ more)))"

definition helloUp :: "worker_id \<Rightarrow> helloInfo \<Rightarrow> (core, unit) prog" where
  "helloUp wid info =
     bnd (workerAt wid) (\<lambda>wkr.
     bnd (upd (\<lambda>c. c\<lparr>workersUp := workersUp c + 1\<rparr>)) (\<lambda>_.
     bnd (putWorker wid (wkr\<lparr>up := True, draining := False, wsystems := hiSystems info\<rparr>)) (\<lambda>_.
     bnd (forEach (hiSystems info) (\<lambda>name. onFree name (fpush wid))) (\<lambda>_.
     putWorker wid (wkr\<lparr>up := True, draining := False, wsystems := hiSystems info,
       wfeatures := hiFeatures info, maxJobs := int (min (hiMaxJobs info) maxSlots)\<rparr>)))))"

definition hello :: "helloInfo \<Rightarrow> (core, worker_id \<times> (drv_id \<times> worker_id) list) prog" where
  "hello info =
     (if hiAddr info = [] then throw (NixError ''scheduler: Hello without addr'')
      else
        bnd (workerId (hiAddr info)) (\<lambda>wid.
        bnd (workerAt wid) (\<lambda>wkr.
        bnd (if up wkr then workerGone wid else ret ()) (\<lambda>_.
        bnd (helloUp wid info) (\<lambda>_.
        bnd (helloRunning wid (hiRunning info) []) (\<lambda>superseded.
        bnd (refreshFree wid) (\<lambda>_.
        ret (wid, superseded))))))))"

definition rememberBuilder :: "string \<Rightarrow> worker_id \<Rightarrow> nat \<Rightarrow> core \<Rightarrow> core" where
  "rememberBuilder path wid sz c =
     (let key = pathKey path in
      case map_of (lastBuilder c) key of
        Some _ \<Rightarrow> c\<lparr>lastBuilder := AList.update key (wid, sz) (lastBuilder c)\<rparr>
      | None \<Rightarrow>
          c\<lparr>lastBuilder := AList.update key (wid, sz)
              (if length (lastBuilder c) \<ge> maxLastBuilder then [] else lastBuilder c)\<rparr>)"

definition coreDone :: "worker_id \<Rightarrow> string \<Rightarrow> (string \<times> nat) list \<Rightarrow> (core, unit) prog" where
  "coreDone wid path outputs =
     bnd (workerAt wid) (\<lambda>_.
     bnd (forEach outputs (\<lambda>(out, sz). upd (rememberBuilder out wid sz))) (\<lambda>_.
     bnd (gets (\<lambda>c. findDrv c path)) (\<lambda>found.
     case found of
       None \<Rightarrow> ret ()
     | Some drv \<Rightarrow>
         bnd (dropRunning wid drv) (\<lambda>_.
         bnd (slotAt drv) (\<lambda>slot.
         case slot of
           None \<Rightarrow> ret ()
         | Some ent \<Rightarrow> if eworker ent = wid then retire drv else ret ())))))"

definition giveBack :: "worker_id \<Rightarrow> string \<Rightarrow> (core, unit) prog" where
  "giveBack wid path =
     bnd (gets (\<lambda>c. findDrv c path)) (\<lambda>found.
     case found of
       None \<Rightarrow> ret ()
     | Some drv \<Rightarrow>
         bnd (dropRunning wid drv) (\<lambda>_.
         bnd (slotAt drv) (\<lambda>slot.
         case slot of
           None \<Rightarrow> ret ()
         | Some ent \<Rightarrow>
             if eworker ent \<noteq> wid then ret ()
             else
               let ent = ent\<lparr>eworker := noWorker, avoid := wid\<rparr> in
               bnd (putSlot drv (Some ent)) (\<lambda>_.
               if followers ent = [] then retire drv else requeue drv ent))))"

definition setDraining :: "worker_id \<Rightarrow> bool \<Rightarrow> (core, unit) prog" where
  "setDraining wid d =
     bnd (workerAt wid) (\<lambda>wkr.
     bnd (putWorker wid (wkr\<lparr>draining := d\<rparr>)) (\<lambda>_.
     refreshFree wid))"

section \<open>Choosing a worker\<close>

definition offers :: "worker \<Rightarrow> entry \<Rightarrow> bool" where
  "offers wkr ent \<longleftrightarrow>
     esystem ent \<in> set (wsystems wkr) \<and> list_all (\<lambda>feat. feat \<in> set (wfeatures wkr)) (efeatures ent)"

text \<open>\<open>freeOf\<close> is called on ids below \<open>workers.size()\<close>; \<open>pick\<close> checks the one that is not
  known to be.\<close>

definition freeOf :: "core \<Rightarrow> worker_id \<Rightarrow> int" where
  "freeOf c wid =
     (case wsystems (workers c ! wid) of
        [] \<Rightarrow> 0
      | name # _ \<Rightarrow> (case map_of (systems c) name of None \<Rightarrow> 0 | Some st \<Rightarrow> fget (sfree st) wid))"

definition better :: "(worker_id \<Rightarrow> int) \<Rightarrow> worker_id \<Rightarrow> worker_id option \<Rightarrow> bool" where
  "better val wid best = (case best of None \<Rightarrow> True | Some b \<Rightarrow> val wid > val b)"

definition emptiestFor :: "core \<Rightarrow> entry \<Rightarrow> worker_id option" where
  "emptiestFor c ent =
     (case map_of (systems c) (esystem ent) of
        None \<Rightarrow> None
      | Some st \<Rightarrow>
          if efeatures ent = [] then emptiest (sfree st)
          else foldl (\<lambda>best wid.
                 if up (workers c ! wid) \<and> fget (sfree st) wid > 0 \<and> offers (workers c ! wid) ent \<and>
                    better (fget (sfree st)) wid best
                 then Some wid else best) None [0..<length (workers c)])"

definition avoidStep :: "core \<Rightarrow> entry \<Rightarrow> worker_id option \<times> bool \<Rightarrow> worker_id \<Rightarrow> worker_id option \<times> bool" where
  "avoidStep c ent acc wid =
     (let wkr = workers c ! wid in
      if wid = avoid ent \<or> \<not> takesWork wkr \<or> \<not> offers wkr ent then acc
      else (if freeOf c wid > 0 \<and> better (freeOf c) wid (fst acc) then Some wid else fst acc, True))"

definition avoiding :: "core \<Rightarrow> entry \<Rightarrow> worker_id option" where
  "avoiding c ent =
     (let (best, others) = foldl (avoidStep c ent) (None, False) [0..<length (workers c)] in
      if best \<noteq> None \<or> others then best else Some (avoid ent))"

fun candAdd :: "worker_id \<Rightarrow> real \<Rightarrow> (worker_id \<times> real) list \<Rightarrow> (worker_id \<times> real) list" where
  "candAdd wid sz [] = [(wid, sz)]"
| "candAdd wid sz ((w, b) # cands) = (if w = wid then (w, b + sz) # cands else (w, b) # candAdd wid sz cands)"

definition candStep :: "core \<Rightarrow> entry \<Rightarrow> (worker_id \<times> real) list \<Rightarrow> string \<Rightarrow> (worker_id \<times> real) list" where
  "candStep c ent cands input =
     (case map_of (lastBuilder c) input of
        None \<Rightarrow> cands
      | Some (wid, sz) \<Rightarrow>
          if wid \<ge> length (workers c) \<or> wid = avoid ent \<or> \<not> up (workers c ! wid) \<or> freeOf c wid \<le> 0
             \<or> \<not> offers (workers c ! wid) ent
          then cands else candAdd wid (real sz) cands)"

definition score :: "core \<Rightarrow> real \<Rightarrow> worker_id \<Rightarrow> real \<Rightarrow> real" where
  "score c topFree wid bytes = bytes + locLambda (cfg c) * real_of_int (freeOf c wid) / topFree"

definition pickFrom :: "core \<Rightarrow> entry \<Rightarrow> worker_id \<Rightarrow> worker_id" where
  "pickFrom c ent best =
     (let topFree = max 1 (real_of_int (freeOf c best));
          cands = foldl (candStep c ent) [] (inputs ent) in
      fst (foldl (\<lambda>(picked, bestScore) (wid, bytes).
             let scr = score c topFree wid bytes in
             if scr > bestScore then (wid, scr) else (picked, bestScore))
           (best, score c topFree best 0) cands))"

definition pick :: "entry \<Rightarrow> (core, worker_id option) prog" where
  "pick ent =
     bnd (gets (\<lambda>c. c)) (\<lambda>c.
     let best = emptiestFor c ent;
         best = (if best = Some (avoid ent) then avoiding c ent else best) in
     case best of
       None \<Rightarrow> ret None
     | Some b \<Rightarrow> bnd (workerAt b) (\<lambda>_. ret (Some (pickFrom c ent b))))"

type_synonym skipped = "string \<times> drv_id \<times> real"

definition assignTo :: "drv_id \<Rightarrow> entry \<Rightarrow> worker_id \<Rightarrow> (core, assign) prog" where
  "assignTo drv ent wid =
     bnd (upd (\<lambda>c. c\<lparr>lastAssignId := (lastAssignId c + 1) mod 2 ^ 64\<rparr>)) (\<lambda>_.
     bnd (gets lastAssignId) (\<lambda>aid.
     bnd (putSlot drv (Some (ent\<lparr>eworker := wid, assignId := aid\<rparr>))) (\<lambda>_.
     bnd (workerAt wid) (\<lambda>wkr.
     bnd (putWorker wid (wkr\<lparr>running := running wkr @ [drv]\<rparr>)) (\<lambda>_.
     bnd (refreshFree wid) (\<lambda>_.
     ret \<lparr>aDrv = drv, aWorker = wid, aAssignId = aid, aClients = followers ent\<rparr>))))))"

definition dispatchHead :: "string \<Rightarrow> assign list \<times> skipped list \<Rightarrow> (core, assign list \<times> skipped list) prog" where
  "dispatchHead system acc =
     bnd (gets (\<lambda>c. case top (queue (sys c system)) of None \<Rightarrow> 0 | Some d \<Rightarrow> d)) (\<lambda>drv.
     bnd (onQueue system (herase drv)) (\<lambda>_.
     bnd (slotAt drv) (\<lambda>slot.
     case slot of
       None \<Rightarrow> ret acc
     | Some ent \<Rightarrow>
         if followers ent = [] \<or> eworker ent \<noteq> noWorker then
           if followers ent = [] \<and> eworker ent = noWorker then bnd (retire drv) (\<lambda>_. ret acc) else ret acc
         else
           bnd (pick ent) (\<lambda>picked.
           case picked of
             None \<Rightarrow> bnd (gets cfg) (\<lambda>cf. ret (fst acc, snd acc @ [(system, drv, prio cf ent)]))
           | Some wid \<Rightarrow> bnd (assignTo drv ent wid) (\<lambda>asg. ret (fst acc @ [asg], snd acc))))))"

text \<open>The system whose queue has the least key, among those with a free slot.\<close>

definition bestStep :: "(string \<times> real) option \<Rightarrow> string \<times> sysState \<Rightarrow> (string \<times> real) option" where
  "bestStep best named =
     (case named of (name, state) \<Rightarrow>
      case topKey (queue state) of
        None \<Rightarrow> best
      | Some key \<Rightarrow>
          if maxFree (sfree state) > 0 \<and> (case best of None \<Rightarrow> True | Some (_, bestKey) \<Rightarrow> key < bestKey)
          then Some (name, key) else best)"

definition bestSystem :: "core \<Rightarrow> string option" where
  "bestSystem c = map_option fst (foldl bestStep None (systems c))"

text \<open>The loop of \<open>dispatch\<close>; every turn takes a derivation off a queue, so that one turn more
  than there are queued derivations is enough.\<close>

fun dispatchLoop :: "nat \<Rightarrow> assign list \<times> skipped list \<Rightarrow> (core, assign list \<times> skipped list) prog" where
  "dispatchLoop 0 acc = throw OutOfFuel"
| "dispatchLoop (Suc fuel) acc =
     bnd (gets bestSystem) (\<lambda>best.
     case best of
       None \<Rightarrow> ret acc
     | Some name \<Rightarrow> bnd (dispatchHead name acc) (dispatchLoop fuel))"

definition dispatch :: "(core, assign list) prog" where
  "dispatch =
     bnd (gets queued) (\<lambda>n.
     bnd (dispatchLoop (Suc n) ([], [])) (\<lambda>(out, skipped).
     bnd (forEach skipped (\<lambda>(system, drv, key). onQueue system (hset drv key))) (\<lambda>_.
     ret out)))"

section \<open>Placeability and statistics\<close>

definition placeableEnt :: "core \<Rightarrow> entry \<Rightarrow> bool" where
  "placeableEnt c ent \<longleftrightarrow> list_ex (\<lambda>wkr. takesWork wkr \<and> offers wkr ent) (workers c)"

definition offeredFeatures :: "core \<Rightarrow> string \<Rightarrow> string list" where
  "offeredFeatures c system =
     sort (remdups (concat (map wfeatures
       (filter (\<lambda>wkr. takesWork wkr \<and> system \<in> set (wsystems wkr)) (workers c)))))"

definition placeable :: "drv_id \<Rightarrow> (core, bool) prog" where
  "placeable drv = bnd (slotAt drv) (\<lambda>slot. gets (\<lambda>c. case slot of None \<Rightarrow> False | Some ent \<Rightarrow> placeableEnt c ent))"

definition markUnplaceable :: "drv_id \<Rightarrow> bool \<Rightarrow> (core, unit) prog" where
  "markUnplaceable drv u =
     bnd (slotAt drv) (\<lambda>slot.
     case slot of None \<Rightarrow> ret () | Some ent \<Rightarrow> putSlot drv (Some (ent\<lparr>unplaceable := u\<rparr>)))"

text \<open>One turn of the loop of \<open>placeabilityChanges\<close>: the memo of answers, the changed ids and
  the slots so far.\<close>

fun placeabilityLoop :: "core \<Rightarrow> nat \<Rightarrow> entry option list \<Rightarrow> (string \<times> string list \<rightharpoonup> bool)
    \<Rightarrow> drv_id list \<times> entry option list" where
  "placeabilityLoop c idx [] byKey = ([], [])"
| "placeabilityLoop c idx (slot # slots) byKey =
     (case slot of
        None \<Rightarrow> (let (out, rest) = placeabilityLoop c (idx + 1) slots byKey in (out, slot # rest))
      | Some ent \<Rightarrow>
          if eworker ent \<noteq> noWorker \<or> followers ent = [] then
            (let (out, rest) = placeabilityLoop c (idx + 1) slots byKey in (out, slot # rest))
          else
            let key = (esystem ent, efeatures ent);
                ans = (case byKey key of None \<Rightarrow> placeableEnt c ent | Some a \<Rightarrow> a);
                (out, rest) = placeabilityLoop c (idx + 1) slots (byKey(key \<mapsto> ans)) in
            if unplaceable ent = ans then ((idx mod 2 ^ 32) # out, Some (ent\<lparr>unplaceable := \<not> ans\<rparr>) # rest)
            else (out, slot # rest))"

definition placeabilityChanges :: "(core, drv_id list) prog" where
  "placeabilityChanges =
     bnd (gets (\<lambda>c. placeabilityLoop c 0 (entries c) Map.empty)) (\<lambda>(out, es).
     bnd (upd (\<lambda>c. c\<lparr>entries := es\<rparr>)) (\<lambda>_. ret out))"

definition admitsSystem :: "core \<Rightarrow> string \<Rightarrow> bool" where
  "admitsSystem c system \<longleftrightarrow>
     map_of (systems c) system \<noteq> None \<or>
     length (filter (\<lambda>(name, _). \<not> offered c name) (systems c)) < maxUnofferedSystems"

end
