(* ===== verification/SchedInv.thy ===== *)
theory SchedInv
  imports SchedCore
begin

text \<open>
  The invariant of the scheduler core, and one weakest-precondition rule per building block
  of its operations.

  The invariant is stated over views of the state: \<open>eview\<close> (id to entry), \<open>qview\<close> (system
  to the map its queue stands for) and \<open>fview\<close> (system to the map its index of free slots
  stands for).  Queues and indices are used only through the interpretations \<open>hq\<close> and \<open>fi\<close>
  of their contracts.
\<close>

section \<open>Views\<close>

definition eview :: "entry option list \<Rightarrow> drv_id \<rightharpoonup> entry" where
  "eview es d = (if d < length es then es ! d else None)"

definition sysLookup :: "(string \<times> sysState) list \<Rightarrow> string \<Rightarrow> sysState" where
  "sysLookup sts s = (case map_of sts s of Some st \<Rightarrow> st | None \<Rightarrow> sysState0)"

definition qview :: "(string \<times> sysState) list \<Rightarrow> string \<Rightarrow> drv_id \<rightharpoonup> real" where
  "qview sts s = halpha (queue (sysLookup sts s))"

definition fview :: "(string \<times> sysState) list \<Rightarrow> string \<Rightarrow> worker_id \<rightharpoonup> int" where
  "fview sts s = falpha (sfree (sysLookup sts s))"

definition sysOk :: "(string \<times> sysState) list \<Rightarrow> bool" where
  "sysOk sts \<longleftrightarrow> distinct (map fst sts) \<and>
     (\<forall>s. hinv (queue (sysLookup sts s)) \<and> finv (sfree (sysLookup sts s)))"

lemma sys_lookup [simp]: "sys c s = sysLookup (systems c) s"
  by (simp add: sys_def sysLookup_def)

lemma sysLookup_update [simp]:
  "sysLookup (AList.update n st sts) s = (if s = n then st else sysLookup sts s)"
  by (simp add: sysLookup_def)

lemma sysLookup_delete [simp]:
  "sysLookup (AList.delete n sts) s = (if s = n then sysState0 else sysLookup sts s)"
  by (simp add: sysLookup_def)

lemma sysState0_views [simp]:
  "halpha (queue sysState0) = Map.empty" "falpha (sfree sysState0) = Map.empty"
  "hinv (queue sysState0)" "finv (sfree sysState0)"
  by (simp_all add: sysState0_def hq.empty_ok fi.empty_ok)

lemma sysOkD: "sysOk sts \<Longrightarrow> hinv (queue (sysLookup sts s))" "sysOk sts \<Longrightarrow> finv (sfree (sysLookup sts s))"
  by (simp_all add: sysOk_def)

lemma sysOk_update:
  "sysOk sts \<Longrightarrow> hinv (queue st) \<Longrightarrow> finv (sfree st) \<Longrightarrow> sysOk (AList.update n st sts)"
  by (simp add: sysOk_def distinct_update)

lemma sysOk_delete: "sysOk sts \<Longrightarrow> sysOk (AList.delete n sts)"
  by (simp add: sysOk_def distinct_delete)

lemma fview_known: "fview sts s w = Some v \<Longrightarrow> map_of sts s \<noteq> None"
  by (auto simp: fview_def sysLookup_def split: option.splits)

lemma qview_known: "qview sts s d = Some k \<Longrightarrow> map_of sts s \<noteq> None"
  by (auto simp: qview_def sysLookup_def split: option.splits)

lemma eview_update [simp]: "d < length es \<Longrightarrow> eview (es[d := x]) = (eview es)(d := x)"
  by (auto simp: eview_def fun_eq_iff nth_update_if)

lemma eview_snoc_None [simp]: "eview (es @ [None]) = eview es"
  by (auto simp: eview_def fun_eq_iff nth_append)

lemma eview_Some: "eview es d = Some e \<Longrightarrow> d < length es \<and> es ! d = Some e"
  by (simp add: eview_def split: if_splits)

lemma wp_slotAt [wp_simps]:
  "wp (slotAt d) Q E = (\<lambda>c. if d < length (entries c) then Q (entries c ! d) c else E OutOfRange c)"
  by (simp add: slotAt_def wp_simps)

lemma wp_workerAt [wp_simps]:
  "wp (workerAt w) Q E = (\<lambda>c. if w < length (workers c) then Q (workers c ! w) c else E OutOfRange c)"
  by (simp add: workerAt_def wp_simps)

lemma wp_putSlot [wp_simps]: "wp (putSlot d x) Q E = (\<lambda>c. Q () (c\<lparr>entries := (entries c)[d := x]\<rparr>))"
  by (simp add: putSlot_def wp_simps)

lemma wp_putWorker [wp_simps]: "wp (putWorker w x) Q E = (\<lambda>c. Q () (c\<lparr>workers := (workers c)[w := x]\<rparr>))"
  by (simp add: putWorker_def wp_simps)

section \<open>Queues and indices\<close>

lemma wp_onQueue_hset:
  assumes ok: "sysOk (systems c)" and d: "d < npos"
    and Q: "\<And>X. sysOk X \<Longrightarrow> qview X = (qview (systems c))(n := (qview (systems c) n)(d \<mapsto> k)) \<Longrightarrow>
      fview X = fview (systems c) \<Longrightarrow> Q () (c\<lparr>systems := X\<rparr>)"
  shows "wp (onQueue n (hset d k)) Q E c"
proof -
  let ?st = "sysLookup (systems c) n"
  from hq.set_eq [OF sysOkD(1) [OF ok, of n] d] obtain q' where
    q': "hset d k (queue ?st) = (Inr (), q')" "hinv q'" "halpha q' = (halpha (queue ?st))(d \<mapsto> k)" .
  let ?X = "AList.update n (?st\<lparr>queue := q'\<rparr>) (systems c)"
  have "Q () (c\<lparr>systems := ?X\<rparr>)"
    using q' by (intro Q sysOk_update [OF ok]) (auto simp: qview_def fview_def fun_eq_iff sysOkD [OF ok])
  then show ?thesis by (simp add: onQueue_def zoom_def wp_def q')
qed

lemma wp_onQueue_herase:
  assumes ok: "sysOk (systems c)"
    and Q: "\<And>X. sysOk X \<Longrightarrow> qview X = (qview (systems c))(n := (qview (systems c) n)(d := None)) \<Longrightarrow>
      fview X = fview (systems c) \<Longrightarrow> Q () (c\<lparr>systems := X\<rparr>)"
  shows "wp (onQueue n (herase d)) Q E c"
proof -
  let ?st = "sysLookup (systems c) n"
  from hq.erase_eq [OF sysOkD(1) [OF ok, of n], of d] obtain q' where
    q': "herase d (queue ?st) = (Inr (), q')" "hinv q'" "halpha q' = (halpha (queue ?st))(d := None)" .
  let ?X = "AList.update n (?st\<lparr>queue := q'\<rparr>) (systems c)"
  have "Q () (c\<lparr>systems := ?X\<rparr>)"
    using q' by (intro Q sysOk_update [OF ok]) (auto simp: qview_def fview_def fun_eq_iff sysOkD [OF ok])
  then show ?thesis by (simp add: onQueue_def zoom_def wp_def q')
qed

lemma wp_requeue:
  assumes "sysOk (systems c)" and "d < npos"
    and "\<And>X. sysOk X \<Longrightarrow>
      qview X = (qview (systems c))(esystem e := (qview (systems c) (esystem e))(d \<mapsto> prio (cfg c) e)) \<Longrightarrow>
      fview X = fview (systems c) \<Longrightarrow> Q () (c\<lparr>systems := X\<rparr>)"
  shows "wp (requeue d e) Q E c"
  unfolding requeue_def wp_bnd wp_gets by (rule wp_onQueue_hset [OF assms(1,2)]) (rule assms(3))

lemma wp_pushAll:
  assumes ok: "sysOk (systems c)" and w: "w < npos"
    and Q: "\<And>X. sysOk X \<Longrightarrow> qview X = qview (systems c) \<Longrightarrow>
      (\<And>s. fview X s = (if s \<in> set ns \<and> fview (systems c) s w = None then (fview (systems c) s)(w \<mapsto> 0)
                        else fview (systems c) s)) \<Longrightarrow>
      Q () (c\<lparr>systems := X\<rparr>)"
  shows "wp (forEach ns (\<lambda>name. onFree name (fpush w))) Q E c"
  using ok Q
proof (induction ns arbitrary: c)
  case Nil
  from Nil.prems(2) [of "systems c"] Nil.prems(1) show ?case by (simp add: wp_simps)
next
  case (Cons n ns)
  let ?st = "sysLookup (systems c) n"
  from wp_noThrowD [OF fi.push_ok [OF sysOkD(2) [OF Cons.prems(1), of n] w]] obtain f' where
    f': "fpush w (sfree ?st) = (Inr (), f')" "finv f'"
    "falpha f' = (if falpha (sfree ?st) w = None then (falpha (sfree ?st))(w \<mapsto> 0) else falpha (sfree ?st))" by auto
  let ?c = "c\<lparr>systems := AList.update n (?st\<lparr>sfree := f'\<rparr>) (systems c)\<rparr>"
  have ok': "sysOk (systems ?c)" using f' Cons.prems(1) by (simp add: sysOk_update sysOkD)
  have v: "qview (systems ?c) = qview (systems c)"
    "fview (systems ?c) s = (if s = n \<and> fview (systems c) n w = None then (fview (systems c) n)(w \<mapsto> 0) else fview (systems c) s)" for s
    using f'(3) by (auto simp: qview_def fview_def fun_eq_iff)
  have "wp (forEach ns (\<lambda>name. onFree name (fpush w))) Q E ?c"
  proof (rule Cons.IH [OF ok'])
    fix X assume X: "sysOk X" "qview X = qview (systems ?c)"
      "\<And>s. fview X s = (if s \<in> set ns \<and> fview (systems ?c) s w = None then (fview (systems ?c) s)(w \<mapsto> 0)
                        else fview (systems ?c) s)"
    have "Q () (c\<lparr>systems := X\<rparr>)"
      by (rule Cons.prems(2)) (use X in \<open>simp_all only: v, auto\<close>)
    then show "Q () (?c\<lparr>systems := X\<rparr>)" by simp
  qed
  then show ?case by (simp add: wp_simps onFree_def wp_def [of "fpush w"] f')
qed

lemma wp_setAll:
  assumes ok: "sysOk (systems c)" and known: "\<And>s. s \<in> set ns \<Longrightarrow> fview (systems c) s w \<noteq> None"
    and Q: "\<And>X. sysOk X \<Longrightarrow> qview X = qview (systems c) \<Longrightarrow>
      (\<And>s. fview X s = (if s \<in> set ns then (fview (systems c) s)(w \<mapsto> v) else fview (systems c) s)) \<Longrightarrow>
      Q () (c\<lparr>systems := X\<rparr>)"
  shows "wp (forEach ns (\<lambda>name. onFree name (fset w v))) Q E c"
  using ok known Q
proof (induction ns arbitrary: c)
  case Nil
  from Nil.prems(3) [of "systems c"] Nil.prems(1) show ?case by (simp add: wp_simps)
next
  case (Cons n ns)
  let ?st = "sysLookup (systems c) n"
  obtain old where "falpha (sfree ?st) w = Some old" using Cons.prems(2) [of n] by (auto simp: fview_def)
  from fi.set_eq [OF sysOkD(2) [OF Cons.prems(1), of n] this] obtain f' where
    f': "fset w v (sfree ?st) = (Inr (), f')" "finv f'" "falpha f' = (falpha (sfree ?st))(w \<mapsto> v)" .
  let ?c = "c\<lparr>systems := AList.update n (?st\<lparr>sfree := f'\<rparr>) (systems c)\<rparr>"
  have ok': "sysOk (systems ?c)" using f' Cons.prems(1) by (simp add: sysOk_update sysOkD)
  have vw: "qview (systems ?c) = qview (systems c)"
    "fview (systems ?c) s = (if s = n then (fview (systems c) n)(w \<mapsto> v) else fview (systems c) s)" for s
    using f'(3) by (auto simp: qview_def fview_def fun_eq_iff)
  have "wp (forEach ns (\<lambda>name. onFree name (fset w v))) Q E ?c"
  proof (rule Cons.IH [OF ok'])
    show "fview (systems ?c) s w \<noteq> None" if "s \<in> set ns" for s
      using Cons.prems(2) [of s] that by (simp only: vw) auto
    fix X assume X: "sysOk X" "qview X = qview (systems ?c)"
      "\<And>s. fview X s = (if s \<in> set ns then (fview (systems ?c) s)(w \<mapsto> v) else fview (systems ?c) s)"
    have "Q () (c\<lparr>systems := X\<rparr>)"
      by (rule Cons.prems(3)) (use X in \<open>simp_all only: vw, auto\<close>)
    then show "Q () (?c\<lparr>systems := X\<rparr>)" by simp
  qed
  then show ?case by (simp add: wp_simps onFree_def wp_def [of "fset w v"] f')
qed

lemma wp_refreshFree:
  assumes "sysOk (systems c)" and "w < length (workers c)"
    and "\<And>s. s \<in> set (wsystems (workers c ! w)) \<Longrightarrow> fview (systems c) s w \<noteq> None"
    and "\<And>X. sysOk X \<Longrightarrow> qview X = qview (systems c) \<Longrightarrow>
      (\<And>s. fview X s = (if s \<in> set (wsystems (workers c ! w))
         then (fview (systems c) s)(w \<mapsto> refreshVal (workers c ! w)) else fview (systems c) s)) \<Longrightarrow>
      Q () (c\<lparr>systems := X\<rparr>)"
  shows "wp (refreshFree w) Q E c"
  unfolding refreshFree_def wp_bnd wp_workerAt
  using assms(2) by simp (rule wp_setAll [OF assms(1,3)], assumption, rule assms(4))

section \<open>The invariant\<close>

definition idsOk :: "(string \<rightharpoonup> drv_id) \<Rightarrow> drv_id list \<Rightarrow> entry option list \<Rightarrow> bool" where
  "idsOk ids fr es \<longleftrightarrow>
     (\<forall>k d. ids k = Some d \<longleftrightarrow> (\<exists>e. eview es d = Some e \<and> pathKey (drvPath e) = k)) \<and>
     distinct fr \<and> set fr = {d. d < length es \<and> eview es d = None} \<and>
     length es \<le> maxEntries"

definition workersOk :: "(string \<rightharpoonup> worker_id) \<Rightarrow> worker list \<Rightarrow> nat \<Rightarrow> bool" where
  "workersOk ids ws n \<longleftrightarrow>
     (\<forall>a w. ids a = Some w \<longleftrightarrow> w < length ws \<and> waddr (ws ! w) = a) \<and>
     length ws < noWorker \<and> n = length (filter up ws) \<and>
     (\<forall>w < length ws. distinct (running (ws ! w)) \<and> (\<not> up (ws ! w) \<longrightarrow> running (ws ! w) = []) \<and>
        0 \<le> maxJobs (ws ! w) \<and> maxJobs (ws ! w) \<le> 63)"

text \<open>Every index a worker is in holds its number of free slots, and zero where the worker
  no longer offers the system.  Workers in \<open>stale\<close> may read as zero instead: a Hello that
  failed half way leaves its worker in that state.\<close>

definition freeOk :: "worker_id set \<Rightarrow> worker list \<Rightarrow> (string \<Rightarrow> worker_id \<rightharpoonup> int) \<Rightarrow> bool" where
  "freeOk stale ws F \<longleftrightarrow>
     (\<forall>s w v. F s w = Some v \<longrightarrow> w < length ws \<and>
        (if s \<in> set (wsystems (ws ! w)) then v = refreshVal (ws ! w) \<or> w \<in> stale \<and> v = 0 else v = 0)) \<and>
     (\<forall>w < length ws. \<forall>s \<in> set (wsystems (ws ! w)). F s w \<noteq> None)"

text \<open>An entry is assigned or has followers, never neither; followers know it by id.\<close>

definition entryOk :: "core \<Rightarrow> drv_id \<Rightarrow> entry \<Rightarrow> bool" where
  "entryOk c d e \<longleftrightarrow>
     distinct (followers e) \<and>
     (eworker e = noWorker \<longrightarrow> followers e \<noteq> []) \<and>
     (eworker e \<noteq> noWorker \<longrightarrow> eworker e < length (workers c) \<and> up (workers c ! eworker e)) \<and>
     (followers e \<noteq> [] \<longrightarrow> esystem e \<noteq> []) \<and>
     (avoid e \<noteq> noWorker \<longrightarrow> avoid e < length (workers c)) \<and>
     (\<forall>cl \<in> set (followers e). \<exists>ds. follows c cl = Some ds \<and> d \<in> set ds)"

definition slotOk :: "core \<Rightarrow> drv_id \<Rightarrow> bool" where
  "slotOk c d \<longleftrightarrow>
     (case eview (entries c) d of
        None \<Rightarrow> (\<forall>s. qview (systems c) s d = None) \<and> (\<forall>w < length (workers c). d \<notin> set (running (workers c ! w)))
      | Some e \<Rightarrow>
          (\<forall>s. qview (systems c) s d =
             (if eworker e = noWorker \<and> s = esystem e then Some (prio (cfg c) e) else None)) \<and>
          (\<forall>w < length (workers c). d \<in> set (running (workers c ! w)) \<longleftrightarrow> w = eworker e) \<and>
          entryOk c d e)"

definition baseOk :: "worker_id set \<Rightarrow> core \<Rightarrow> bool" where
  "baseOk stale c \<longleftrightarrow>
     idsOk (drvIds c) (freeIds c) (entries c) \<and> workersOk (workerIds c) (workers c) (workersUp c) \<and>
     sysOk (systems c) \<and> freeOk stale (workers c) (fview (systems c))"

definition coreInv :: "worker_id set \<Rightarrow> core \<Rightarrow> bool" where
  "coreInv stale c \<longleftrightarrow> baseOk stale c \<and> (\<forall>d. slotOk c d)"

lemma coreInvI: "baseOk stale c \<Longrightarrow> (\<And>d. slotOk c d) \<Longrightarrow> coreInv stale c"
  by (simp add: coreInv_def)

lemma coreInvD:
  assumes "coreInv stale c"
  shows "idsOk (drvIds c) (freeIds c) (entries c)" "workersOk (workerIds c) (workers c) (workersUp c)"
    "sysOk (systems c)" "freeOk stale (workers c) (fview (systems c))" "slotOk c d" "baseOk stale c"
  using assms by (simp_all add: coreInv_def baseOk_def)

lemma baseOkD:
  assumes "baseOk stale c"
  shows "idsOk (drvIds c) (freeIds c) (entries c)" "workersOk (workerIds c) (workers c) (workersUp c)"
    "sysOk (systems c)" "freeOk stale (workers c) (fview (systems c))"
  using assms by (simp_all add: baseOk_def)

lemma coreInv0: "coreInv {} (core0 cf)"
  by (simp add: coreInv_def baseOk_def core0_def idsOk_def workersOk_def sysOk_def freeOk_def slotOk_def
      eview_def qview_def fview_def sysLookup_def noWorker_def)

text \<open>A slot stays in order when nothing that concerns it changes.\<close>

lemma slotOk_frame:
  assumes "slotOk c d" and "eview (entries c') d = eview (entries c) d" and "cfg c' = cfg c"
    and "\<And>s. qview (systems c') s d = qview (systems c) s d"
    and "length (workers c) \<le> length (workers c')"
    and "\<And>w. w < length (workers c) \<Longrightarrow>
      d \<in> set (running (workers c' ! w)) \<longleftrightarrow> d \<in> set (running (workers c ! w))"
    and "\<And>w. w < length (workers c) \<Longrightarrow> d \<in> set (running (workers c ! w)) \<Longrightarrow> up (workers c ! w) \<Longrightarrow> up (workers c' ! w)"
    and "\<And>w. length (workers c) \<le> w \<Longrightarrow> w < length (workers c') \<Longrightarrow> running (workers c' ! w) = []"
    and "\<And>cl ds e. eview (entries c) d = Some e \<Longrightarrow> cl \<in> set (followers e) \<Longrightarrow>
      follows c cl = Some ds \<Longrightarrow> d \<in> set ds \<Longrightarrow> \<exists>ds'. follows c' cl = Some ds' \<and> d \<in> set ds'"
    and "length (workers c') < noWorker"
  shows "slotOk c' d"
proof (cases "eview (entries c) d")
  case None
  have "d \<notin> set (running (workers c' ! w))" if "w < length (workers c')" for w
    using that assms(1,6,8) None by (cases "w < length (workers c)") (auto simp: slotOk_def)
  then show ?thesis using None assms(1,2,4) by (simp add: slotOk_def)
next
  case (Some e)
  note s = assms(1) [unfolded slotOk_def Some option.case]
  have w: "eworker e < length (workers c) \<and> up (workers c ! eworker e)" if "eworker e \<noteq> noWorker"
    using s that by (simp add: entryOk_def)
  have "d \<in> set (running (workers c' ! w)) \<longleftrightarrow> w = eworker e" if "w < length (workers c')" for w
  proof (cases "w < length (workers c)")
    case True
    then show ?thesis using assms(6) s by simp
  next
    case False
    then have "running (workers c' ! w) = []" using assms(8) that by simp
    moreover have "w \<noteq> eworker e" using False w that assms(10) by (cases "eworker e = noWorker") auto
    ultimately show ?thesis by simp
  qed
  moreover have "up (workers c' ! eworker e)" if "eworker e \<noteq> noWorker"
    using assms(7) [of "eworker e"] w [OF that] s by simp
  moreover have "\<exists>ds. follows c' cl = Some ds \<and> d \<in> set ds" if "cl \<in> set (followers e)" for cl
    using s assms(9) [OF Some that] that by (auto simp: entryOk_def)
  ultimately show ?thesis
    using s Some w assms(2-5) by (auto simp: slotOk_def entryOk_def)
qed

section \<open>Ids\<close>

lemma idsOkD:
  assumes "idsOk ids fr es"
  shows "ids k = Some d \<longleftrightarrow> (\<exists>e. eview es d = Some e \<and> pathKey (drvPath e) = k)"
    "distinct fr" "set fr = {d. d < length es \<and> eview es d = None}" "length es \<le> maxEntries"
  using assms unfolding idsOk_def by blast+

lemma idsOk_small: "idsOk ids fr es \<Longrightarrow> d < length es \<Longrightarrow> d < npos"
  using idsOkD(4) [of ids fr es] by (simp add: maxEntries_def npos_def)

lemma idsOk_key:
  assumes "idsOk ids fr es" "eview es d = Some e" "eview es d' = Some e'" "pathKey (drvPath e) = pathKey (drvPath e')"
  shows "d = d'"
proof -
  have "ids (pathKey (drvPath e)) = Some d" "ids (pathKey (drvPath e)) = Some d'"
    using idsOkD(1) [OF assms(1)] assms(2-4) by auto
  then show ?thesis by simp
qed

lemma idsOk_put:
  assumes "idsOk ids fr es" "eview es d = Some e" "pathKey (drvPath e') = pathKey (drvPath e)"
  shows "idsOk ids fr (es[d := Some e'])"
proof -
  have d: "d < length es" using eview_Some [OF assms(2)] by simp
  have "(\<exists>x. ((eview es)(d \<mapsto> e')) j = Some x \<and> pathKey (drvPath x) = k) \<longleftrightarrow>
        (\<exists>x. eview es j = Some x \<and> pathKey (drvPath x) = k)" for k j
    using assms(2,3) by auto
  moreover have "{j. j < length es \<and> ((eview es)(d \<mapsto> e')) j = None} = {j. j < length es \<and> eview es j = None}"
    using assms(2) by auto
  ultimately show ?thesis using assms(1) d unfolding idsOk_def by simp
qed

lemma idsOk_retire:
  assumes "idsOk ids fr es" "eview es d = Some e"
  shows "idsOk (ids(pathKey (drvPath e) := None)) (fr @ [d]) (es[d := None])"
proof -
  have d: "d < length es" using eview_Some [OF assms(2)] by simp
  note D = idsOkD [OF assms(1)]
  have "(ids(pathKey (drvPath e) := None)) k = Some j \<longleftrightarrow>
      (\<exists>x. ((eview es)(d := None)) j = Some x \<and> pathKey (drvPath x) = k)" for k j
  proof (cases "k = pathKey (drvPath e)")
    case True
    then have "\<not> (\<exists>x. ((eview es)(d := None)) j = Some x \<and> pathKey (drvPath x) = k)"
      using idsOk_key [OF assms, of j] by (cases "j = d") auto
    then show ?thesis using True by simp
  next
    case False
    then show ?thesis using D(1) [of k j] assms(2) by (cases "j = d") auto
  qed
  moreover have "distinct (fr @ [d])" using D(2,3) assms(2) by auto
  moreover have "set (fr @ [d]) = {j. j < length es \<and> ((eview es)(d := None)) j = None}" using D(3) d by auto
  ultimately show ?thesis using D(4) d unfolding idsOk_def by simp
qed

lemma idsOk_fresh:
  assumes ids: "ids (pathKey (drvPath e)) = None"
    and ok: "\<And>k j. ids k = Some j \<longleftrightarrow> (\<exists>x. eview es j = Some x \<and> pathKey (drvPath x) = k)"
    and d: "d < length es" "eview es d = None" and fr: "distinct fr" "set fr = {j. j < length es \<and> eview es j = None} - {d}"
    and len: "length es \<le> maxEntries"
  shows "idsOk (ids(pathKey (drvPath e) \<mapsto> d)) fr (es[d := Some e])"
proof -
  have "(ids(pathKey (drvPath e) \<mapsto> d)) k = Some j \<longleftrightarrow>
      (\<exists>x. ((eview es)(d \<mapsto> e)) j = Some x \<and> pathKey (drvPath x) = k)" for k j
  proof (cases "k = pathKey (drvPath e)")
    case True
    then show ?thesis using ok [of k j] ids by (cases "j = d") auto
  next
    case False
    then show ?thesis using ok [of k j] d(2) by (cases "j = d") auto
  qed
  moreover have "set fr = {j. j < length es \<and> ((eview es)(d \<mapsto> e)) j = None}" using fr(2) by auto
  ultimately show ?thesis using fr(1) len d(1) unfolding idsOk_def by simp
qed

lemma wp_drvId:
  assumes ok: "idsOk (drvIds c) (freeIds c) (entries c)"
    and known: "\<And>d e. drvIds c (pathKey p) = Some d \<Longrightarrow> eview (entries c) d = Some e \<Longrightarrow>
      pathKey (drvPath e) = pathKey p \<Longrightarrow> Q d c"
    and fresh: "\<And>d fr es. drvIds c (pathKey p) = None \<Longrightarrow> eview es = eview (entries c) \<Longrightarrow> eview es d = None \<Longrightarrow>
      d < length es \<Longrightarrow> length es \<le> maxEntries \<Longrightarrow>
      (\<And>e. pathKey (drvPath e) = pathKey p \<Longrightarrow> idsOk ((drvIds c)(pathKey p \<mapsto> d)) fr (es[d := Some e])) \<Longrightarrow>
      Q d (c\<lparr>freeIds := fr, entries := es, drvIds := (drvIds c)(pathKey p \<mapsto> d)\<rparr>)"
    and full: "drvIds c (pathKey p) = None \<Longrightarrow> freeIds c = [] \<Longrightarrow> length (entries c) = maxEntries \<Longrightarrow>
      E (NixError ''scheduler: derivation table full'') c"
  shows "wp (drvId p) Q E c"
proof (cases "drvIds c (pathKey p)")
  case (Some d)
  then obtain e where "eview (entries c) d = Some e" "pathKey (drvPath e) = pathKey p"
    using idsOkD(1) [OF ok] by blast
  with known Some show ?thesis by (simp add: drvId_def wp_simps)
next
  case None
  note D = idsOkD [OF ok]
  show ?thesis
  proof (cases "freeIds c = []")
    case False
    let ?d = "last (freeIds c)" and ?fr = "butlast (freeIds c)"
    have split: "freeIds c = ?fr @ [?d]" using False by simp
    have "distinct (?fr @ [?d])" using D(2) split by metis
    then have fr: "distinct ?fr" "?d \<notin> set ?fr" by simp_all
    have "set (freeIds c) = insert ?d (set ?fr)" by (subst split) simp
    with fr D(3) have fr': "set ?fr = {j. j < length (entries c) \<and> eview (entries c) j = None} - {?d}" by auto
    have d: "?d < length (entries c)" "eview (entries c) ?d = None"
      using D(3) last_in_set [OF False] by auto
    have "Q ?d (c\<lparr>freeIds := ?fr, entries := entries c, drvIds := (drvIds c)(pathKey p \<mapsto> ?d)\<rparr>)"
    proof (rule fresh [OF None refl d(2,1) D(4)])
      fix e :: entry assume "pathKey (drvPath e) = pathKey p"
      with idsOk_fresh [OF _ D(1) d fr(1) fr' D(4), of e] None
      show "idsOk ((drvIds c)(pathKey p \<mapsto> ?d)) ?fr ((entries c)[?d := Some e])" by simp
    qed
    then show ?thesis using None False by (simp add: drvId_def wp_simps)
  next
    case True
    show ?thesis
    proof (cases "length (entries c) \<ge> maxEntries")
      case full': True
      then have "length (entries c) = maxEntries" using D(4) by simp
      with full None True full' show ?thesis by (simp add: drvId_def wp_simps)
    next
      case False
      let ?d = "length (entries c)" and ?es = "entries c @ [None]"
      have es: "eview ?es = eview (entries c)" "?d < length ?es" "length ?es \<le> maxEntries" using False by simp_all
      have d: "eview ?es ?d = None" by (simp add: eview_def)
      have none: "{j. j < length ?es \<and> eview ?es j = None} - {?d} = set []" using D(3) True by (auto simp: less_Suc_eq)
      have small: "?d mod 2 ^ 32 = ?d" using False by (simp add: maxEntries_def)
      have "Q ?d (c\<lparr>freeIds := [], entries := ?es, drvIds := (drvIds c)(pathKey p \<mapsto> ?d)\<rparr>)"
      proof (rule fresh [OF None es(1) d es(2,3)])
        fix e :: entry assume e: "pathKey (drvPath e) = pathKey p"
        have "idsOk ((drvIds c)(pathKey (drvPath e) \<mapsto> ?d)) [] (?es[?d := Some e])"
          by (rule idsOk_fresh [OF _ _ es(2) d _ none [symmetric] es(3)]) (simp_all only: e None es(1) D(1) distinct.simps)
        then show "idsOk ((drvIds c)(pathKey p \<mapsto> ?d)) [] (?es[?d := Some e])" by (simp only: e)
      qed
      moreover have eq: "c\<lparr>entries := ?es, drvIds := (drvIds c)(pathKey p \<mapsto> ?d)\<rparr> =
          c\<lparr>freeIds := [], entries := ?es, drvIds := (drvIds c)(pathKey p \<mapsto> ?d)\<rparr>" using True by simp
      ultimately have "Q ?d (c\<lparr>entries := ?es, drvIds := (drvIds c)(pathKey p \<mapsto> ?d)\<rparr>)" by (simp only: eq)
      then show ?thesis using None True False small by (simp add: drvId_def wp_simps)
    qed
  qed
qed

section \<open>Retiring an entry\<close>

lemma offered_iff: "offered c s \<longleftrightarrow> (\<exists>w < length (workers c). s \<in> set (wsystems (workers c ! w)))"
  by (simp add: offered_def list_ex_iff) (metis in_set_conv_nth)

lemma wp_retire:
  assumes e: "eview (entries c) d = Some e" and ok: "sysOk (systems c)"
    and Q: "\<And>X. sysOk X \<Longrightarrow>
      (\<And>s. qview X s = (if s = esystem e then (qview (systems c) s)(d := None) else qview (systems c) s)) \<Longrightarrow>
      (\<And>s. fview X s = fview (systems c) s \<or> \<not> offered c s \<and> fview X s = Map.empty) \<Longrightarrow>
      Q () (c\<lparr>systems := X, drvIds := (drvIds c)(pathKey (drvPath e) := None),
             entries := (entries c)[d := None], freeIds := freeIds c @ [d]\<rparr>)"
  shows "wp (retire d) Q E c"
proof (cases "map_of (systems c) (esystem e)")
  case None
  then have "qview (systems c) (esystem e) = Map.empty" by (simp add: qview_def sysLookup_def)
  then have "Q () (c\<lparr>systems := systems c, drvIds := (drvIds c)(pathKey (drvPath e) := None),
             entries := (entries c)[d := None], freeIds := freeIds c @ [d]\<rparr>)"
    by (intro Q ok) auto
  then show ?thesis using None eview_Some [OF e] by (simp add: retire_def wp_simps)
next
  case (Some st)
  have "wp (onQueue (esystem e) (herase d)) (\<lambda>_ c.
      if hsize (queue (sysLookup (systems c) (esystem e))) = 0 \<and> \<not> offered c (esystem e)
      then Q () (c\<lparr>systems := AList.delete (esystem e) (systems c), drvIds := (drvIds c)(pathKey (drvPath e) := None),
             entries := (entries c)[d := None], freeIds := freeIds c @ [d]\<rparr>)
      else Q () (c\<lparr>drvIds := (drvIds c)(pathKey (drvPath e) := None),
             entries := (entries c)[d := None], freeIds := freeIds c @ [d]\<rparr>)) E c"
  proof (rule wp_onQueue_herase [OF ok], goal_cases)
    case (1 X)
    let ?Y = "AList.delete (esystem e) X"
    have off: "offered (c\<lparr>systems := X\<rparr>) = offered c" by (simp add: offered_def fun_eq_iff)
    show ?case
    proof (cases "hsize (queue (sysLookup X (esystem e))) = 0 \<and> \<not> offered c (esystem e)")
      case True
      then have "card (dom (qview X (esystem e))) = 0"
        using hq.size_ok [OF sysOkD(1) [OF 1(1)]] by (simp add: qview_def)
      then have "dom (qview X (esystem e)) = {}" using card_0_eq [OF hq.finite_dom] unfolding qview_def by blast
      then have "qview X (esystem e) = Map.empty" by simp
      moreover have "qview ?Y s = (if s = esystem e then Map.empty else qview X s)"
        "fview ?Y s = (if s = esystem e then Map.empty else fview X s)" for s
        by (simp_all add: qview_def fview_def)
      ultimately have "Q () (c\<lparr>systems := ?Y, drvIds := (drvIds c)(pathKey (drvPath e) := None),
             entries := (entries c)[d := None], freeIds := freeIds c @ [d]\<rparr>)"
        using 1(2,3) True by (intro Q sysOk_delete 1(1)) (auto simp: fun_eq_iff)
      then show ?thesis using True off by simp
    next
      case False
      have "Q () (c\<lparr>systems := X, drvIds := (drvIds c)(pathKey (drvPath e) := None),
             entries := (entries c)[d := None], freeIds := freeIds c @ [d]\<rparr>)"
        using 1(2,3) by (intro Q 1(1)) auto
      then show ?thesis using False off by auto
    qed
  qed
  then show ?thesis using Some eview_Some [OF e] by (simp add: retire_def wp_simps split del: if_split cong: if_cong)
qed

end
