(* ===== verification/SchedOps.thy ===== *)
theory SchedOps
  imports SchedInv
begin

text \<open>
  What the operations of the scheduler core do: each keeps the invariant \<open>coreInv\<close>, throws
  nothing but the errors it is meant to, and changes the entries as its lemma says
  (\<open>afterCancel\<close>, \<open>afterDone\<close>, \<open>afterGiveBack\<close>, \<open>afterGone\<close>, \<open>helloPost\<close>).

  An operation works on one slot at a time.  \<open>readyAt\<close> describes the state between \<open>drvId\<close> and
  the filling of the slot, \<open>sameBut d\<close> what an operation on slot \<open>d\<close> leaves alone, and \<open>idle\<close>
  an entry that is in no running list; \<open>retire_ok\<close>, \<open>requeue_ok\<close> and \<open>refresh_ok\<close> are the
  building blocks.
\<close>

section \<open>Naming a derivation\<close>


text \<open>After \<open>drvId\<close> has returned \<open>d\<close>, the slot may still be empty; filling it with an entry
  for the same path completes the step.\<close>

definition readyAt :: "worker_id set \<Rightarrow> core \<Rightarrow> string \<Rightarrow> drv_id \<Rightarrow> bool" where
  "readyAt stale c key d \<longleftrightarrow>
     workersOk (workerIds c) (workers c) (workersUp c) \<and> sysOk (systems c) \<and>
     freeOk stale (workers c) (fview (systems c)) \<and> (\<forall>j. slotOk c j) \<and> d < length (entries c) \<and> d < npos \<and>
     (\<forall>e. eview (entries c) d = Some e \<longrightarrow> pathKey (drvPath e) = key) \<and>
     (\<forall>e. pathKey (drvPath e) = key \<longrightarrow> idsOk (drvIds c) (freeIds c) ((entries c)[d := Some e]))"

lemma coreInv_readyAt:
  assumes inv: "coreInv stale c" and e: "eview (entries c) d = Some e"
  shows "readyAt stale c (pathKey (drvPath e)) d"
proof -
  have d: "d < length (entries c)" using eview_Some [OF e] by simp
  then show ?thesis
    using coreInvD [OF inv] e idsOk_put [OF coreInvD(1) [OF inv] e] idsOk_small [OF coreInvD(1) [OF inv] d]
    by (simp add: readyAt_def)
qed

lemma slotOk_cong:
  assumes "eview (entries c') = eview (entries c)" "workers c' = workers c" "qview (systems c') = qview (systems c)"
    "cfg c' = cfg c" "follows c' = follows c"
  shows "slotOk c' d = slotOk c d"
  by (simp only: slotOk_def entryOk_def assms)

lemma wp_drvId_ready:
  assumes inv: "coreInv stale c"
    and Q: "\<And>ids es fr d. let c1 = c\<lparr>freeIds := fr, entries := es, drvIds := ids\<rparr> in
      readyAt stale c1 (pathKey p) d \<longrightarrow> eview es = eview (entries c) \<longrightarrow> Q d c1"
    and full: "drvIds c (pathKey p) = None \<Longrightarrow> freeIds c = [] \<Longrightarrow> length (entries c) = maxEntries \<Longrightarrow>
      E (NixError ''scheduler: derivation table full'') c"
  shows "wp (drvId p) Q E c"
proof (rule wp_drvId [OF coreInvD(1) [OF inv]], goal_cases)
  case (1 d e)
  from coreInv_readyAt [OF inv 1(2)] Q [of "drvIds c" "entries c" "freeIds c" d] 1(3) show ?case by simp
next
  case (2 d fr es)
  let ?c1 = "c\<lparr>freeIds := fr, entries := es, drvIds := (drvIds c)(pathKey p \<mapsto> d)\<rparr>"
  have "slotOk ?c1 j" for j using coreInvD(5) [OF inv, of j] 2(2) by (subst slotOk_cong [of _ c]) simp_all
  moreover have "d < npos" using 2(4,5) by (simp add: maxEntries_def npos_def)
  ultimately have "readyAt stale ?c1 (pathKey p) d"
    using coreInvD(2-4) [OF inv] 2 by (simp add: readyAt_def)
  then show ?case using Q [of "(drvIds c)(pathKey p \<mapsto> d)" es fr d] 2(2) by simp
next
  case 3
  then show ?case by (rule full)
qed

lemma slotOk_same_workers:
  assumes sl: "slotOk c d" and small: "length (workers c) < noWorker"
    and same: "workers c' = workers c" "cfg c' = cfg c" "eview (entries c') d = eview (entries c) d"
      "\<And>s. qview (systems c') s d = qview (systems c) s d"
    and fl: "\<And>cl ds. follows c cl = Some ds \<Longrightarrow> d \<in> set ds \<Longrightarrow> \<exists>ds'. follows c' cl = Some ds' \<and> d \<in> set ds'"
  shows "slotOk c' d"
  by (rule slotOk_frame [OF sl]) (simp_all only: same small order_refl fl)

text \<open>Changing one slot, with its place in the queues and in the clients' lists.\<close>

lemma coreInv_slot:
  assumes r: "readyAt stale c key d" and key: "pathKey (drvPath e) = key"
    and X: "sysOk X" "fview X = fview (systems c)" "\<And>s j. j \<noteq> d \<Longrightarrow> qview X s j = qview (systems c) s j"
    and fl: "\<And>cl ds. follows c cl = Some ds \<Longrightarrow> \<exists>ds'. fl cl = Some ds' \<and> set ds \<subseteq> set ds'"
    and d: "slotOk (c\<lparr>entries := (entries c)[d := Some e], follows := fl, systems := X\<rparr>) d"
  shows "coreInv stale (c\<lparr>entries := (entries c)[d := Some e], follows := fl, systems := X\<rparr>)"
    (is "coreInv stale ?c")
proof (rule coreInvI)
  show "baseOk stale ?c" using r key X by (simp add: baseOk_def readyAt_def)
  fix j show "slotOk ?c j"
  proof (cases "j = d")
    case False
    have c: "slotOk c j" "d < length (entries c)" "length (workers c) < noWorker"
      using r by (simp_all add: readyAt_def workersOk_def)
    show ?thesis
    proof (rule slotOk_same_workers [OF c(1,3)])
      show "\<exists>ds'. follows ?c cl = Some ds' \<and> j \<in> set ds'" if "follows c cl = Some ds" "j \<in> set ds" for cl ds
        using fl [OF that(1)] that(2) by auto
    qed (use False X(3) [OF False] c(2) in simp_all)
  qed (simp add: d)
qed

lemma slotOkD:
  assumes "slotOk c d" "eview (entries c) d = Some e"
  shows "qview (systems c) s d = (if eworker e = noWorker \<and> s = esystem e then Some (prio (cfg c) e) else None)"
    "w < length (workers c) \<Longrightarrow> d \<in> set (running (workers c ! w)) \<longleftrightarrow> w = eworker e" "entryOk c d e"
  using assms by (simp_all add: slotOk_def)

lemma slotOk_None:
  assumes "slotOk c d" "eview (entries c) d = None"
  shows "qview (systems c) s d = None" "w < length (workers c) \<Longrightarrow> d \<notin> set (running (workers c ! w))"
  using assms by (simp_all add: slotOk_def)

section \<open>Want\<close>

lemma wantEntry_simps:
  "set (followers (wantEntry cl info now slot)) = insert cl (set (followers (wantBase info now slot)))"
  "eworker (wantEntry cl info now slot) = (case slot of None \<Rightarrow> noWorker | Some e \<Rightarrow> eworker e)"
  "avoid (wantEntry cl info now slot) = (case slot of None \<Rightarrow> noWorker | Some e \<Rightarrow> avoid e)"
  "drvPath (wantEntry cl info now slot) = (case slot of None \<Rightarrow> wiDrvPath info | Some e \<Rightarrow> drvPath e)"
  "followers (wantBase info now slot) = (case slot of None \<Rightarrow> [] | Some e \<Rightarrow> followers e)"
  by (auto simp: wantEntry_def wantBase_def entry0_def Let_def split: option.split)

lemma wantEntry_ok:
  assumes "wiSystem info \<noteq> []" and "case slot of None \<Rightarrow> True | Some e \<Rightarrow> distinct (followers e)"
  shows "esystem (wantEntry cl info now slot) \<noteq> []" "distinct (followers (wantEntry cl info now slot))"
  using assms by (auto simp: wantEntry_def wantBase_def entry0_def Let_def split: option.splits)

lemma want_slot:
  fixes cl :: client_id and now :: real
  assumes r: "readyAt stale c (pathKey (wiDrvPath info)) d" and sys: "wiSystem info \<noteq> []"
    and X: "sysOk X" "fview X = fview (systems c)" "\<And>s j. j \<noteq> d \<Longrightarrow> qview X s j = qview (systems c) s j"
  defines "ent \<equiv> wantEntry cl info now (entries c ! d)"
  defines "fl \<equiv> if cl \<in> set (followers (wantBase info now (entries c ! d))) then follows c else addFollow cl d (follows c)"
  assumes q: "\<And>s. qview X s d = (if eworker ent = noWorker \<and> s = esystem ent then Some (prio (cfg c) ent) else None)"
  shows "coreInv stale (c\<lparr>entries := (entries c)[d := Some ent], follows := fl, systems := X\<rparr>)"
proof (rule coreInv_slot [OF r _ X])
  have d: "d < length (entries c)" and sl: "slotOk c d" and ev: "eview (entries c) d = entries c ! d"
    using r by (simp_all add: readyAt_def eview_def)
  show "pathKey (drvPath ent) = pathKey (wiDrvPath info)"
    using r ev by (auto simp: ent_def wantEntry_simps readyAt_def split: option.split)
  show grow: "\<exists>ds'. fl x = Some ds' \<and> set ds \<subseteq> set ds'" if "follows c x = Some ds" for x ds
    using that by (auto simp: fl_def addFollow_def)
  have old: "entries c ! d = Some e \<Longrightarrow> entryOk c d e" for e
    using slotOkD(3) [OF sl, of e] ev by simp
  have "\<exists>ds. fl x = Some ds \<and> d \<in> set ds" if x: "x \<in> set (followers ent)" for x
  proof (cases "x \<in> set (followers (wantBase info now (entries c ! d)))")
    case True
    then obtain e where "entries c ! d = Some e" "x \<in> set (followers e)"
      by (cases "entries c ! d") (auto simp: wantEntry_simps)
    then obtain ds where "follows c x = Some ds" "d \<in> set ds"
      using old [of e] unfolding entryOk_def by blast
    then show ?thesis using grow by blast
  next
    case False
    then have "x = cl" using x by (simp add: ent_def wantEntry_simps(1))
    then show ?thesis using False by (simp add: fl_def addFollow_def)
  qed
  moreover have "eworker ent \<noteq> noWorker \<longrightarrow> eworker ent < length (workers c) \<and> up (workers c ! eworker ent)"
    "avoid ent \<noteq> noWorker \<longrightarrow> avoid ent < length (workers c)"
    using old by (auto simp: ent_def wantEntry_simps entryOk_def split: option.split)
  moreover have "cl \<in> set (followers ent)" by (simp add: ent_def wantEntry_simps(1))
  then have "followers ent \<noteq> []" by auto
  moreover have "esystem ent \<noteq> []" "distinct (followers ent)"
    using wantEntry_ok [OF sys, of "entries c ! d"] old by (auto simp: ent_def entryOk_def split: option.splits)
  ultimately have "entryOk (c\<lparr>entries := (entries c)[d := Some ent], follows := fl, systems := X\<rparr>) d ent"
    by (simp add: entryOk_def)
  moreover have "d \<in> set (running (workers c ! w)) \<longleftrightarrow> w = eworker ent" if "w < length (workers c)" for w
    using slotOkD(2) [OF sl _ that] slotOk_None(2) [OF sl _ that] ev that r
    by (auto simp: ent_def wantEntry_simps readyAt_def workersOk_def split: option.splits)
  ultimately show "slotOk (c\<lparr>entries := (entries c)[d := Some ent], follows := fl, systems := X\<rparr>) d"
    using d q by (simp add: slotOk_def)
qed

lemma wantAt_ok:
  assumes r: "readyAt stale c (pathKey (wiDrvPath info)) d" and sys: "wiSystem info \<noteq> []"
  shows "wp (wantAt cl info now d)
    (\<lambda>(d', asg) c'. d' = d \<and> coreInv stale c' \<and>
       (\<exists>e. eview (entries c') = (eview (entries c))(d \<mapsto> e) \<and> pathKey (drvPath e) = pathKey (wiDrvPath info) \<and>
          cl \<in> set (followers e) \<and> asg = (if eworker e = noWorker then None else Some (eworker e, assignId e))))
    noThrow c"
proof -
  define ent where "ent = wantEntry cl info now (entries c ! d)"
  define fl where "fl = (if cl \<in> set (followers (wantBase info now (entries c ! d))) then follows c else addFollow cl d (follows c))"
  have d: "d < length (entries c)" "d < npos" and sl: "slotOk c d" and ok: "sysOk (systems c)"
    and ev: "eview (entries c) d = entries c ! d" using r by (simp_all add: readyAt_def eview_def)
  have e: "pathKey (drvPath ent) = pathKey (wiDrvPath info)" "cl \<in> set (followers ent)"
    using r ev by (auto simp: ent_def wantEntry_simps readyAt_def split: option.split)
  have w: "eworker ent = (case entries c ! d of None \<Rightarrow> noWorker | Some e \<Rightarrow> eworker e)"
    by (simp add: ent_def wantEntry_simps)
  note post = want_slot [OF r sys, of _ cl now, folded ent_def fl_def]
  have unf: "wp (wantAt cl info now d) Q E c = (if eworker ent = noWorker
      then wp (requeue d ent) (\<lambda>_. Q (d, None)) E (c\<lparr>entries := (entries c)[d := Some ent], follows := fl\<rparr>)
      else Q (d, Some (eworker ent, assignId ent)) (c\<lparr>entries := (entries c)[d := Some ent], follows := fl\<rparr>))" for Q E
    using d by (simp add: wantAt_def wp_simps ent_def fl_def)
  show ?thesis
  proof (cases "eworker ent = noWorker")
    case True
    have "qview (systems c) s d = None" if "s \<noteq> esystem ent" for s
    proof (cases "entries c ! d")
      case (Some e0)
      then have "esystem ent = esystem e0"
        using slotOkD(3) [OF sl, of e0] ev True w by (auto simp: ent_def entryOk_def wantEntry_def wantBase_def Let_def)
      then show ?thesis using slotOkD(1) [OF sl, of e0 s] Some ev that by simp
    qed (use slotOk_None(1) [OF sl] ev in simp)
    note none = this
    have "wp (requeue d ent) (\<lambda>_ c'. coreInv stale c' \<and> entries c' = (entries c)[d := Some ent]) noThrow
        (c\<lparr>entries := (entries c)[d := Some ent], follows := fl\<rparr>)"
    proof (rule wp_requeue, goal_cases)
      case (3 X)
      have "coreInv stale (c\<lparr>entries := (entries c)[d := Some ent], follows := fl, systems := X\<rparr>)"
        using 3 none True by (intro post) auto
      then show ?case by simp
    qed (simp_all add: ok d)
    then show ?thesis unfolding unf using True d e by (simp, elim wp_mono) (auto intro!: exI [of _ ent])
  next
    case False
    then have "entries c ! d \<noteq> None" using w by (auto split: option.splits)
    then have "qview (systems c) s d = None" for s using slotOkD(1) [OF sl] ev w False by auto
    then have "coreInv stale (c\<lparr>entries := (entries c)[d := Some ent], follows := fl, systems := systems c\<rparr>)"
      using False by (intro post ok refl) auto
    then show ?thesis unfolding unf using False d e by (auto intro!: exI [of _ ent])
  qed
qed

lemma want_ok:
  assumes inv: "coreInv stale c" and sys: "wiSystem info \<noteq> []"
  shows "wp (want cl info now)
    (\<lambda>(d, asg) c'. coreInv stale c' \<and>
       (\<exists>e. eview (entries c') = (eview (entries c))(d \<mapsto> e) \<and> pathKey (drvPath e) = pathKey (wiDrvPath info) \<and>
          cl \<in> set (followers e) \<and> asg = (if eworker e = noWorker then None else Some (eworker e, assignId e))))
    (\<lambda>x c'. c' = c \<and> x = NixError ''scheduler: derivation table full'' \<and> length (entries c) = maxEntries \<and> freeIds c = []) c"
  unfolding want_def wp_bnd
proof (rule wp_drvId_ready [OF inv], unfold Let_def, intro impI)
  fix d fr es ids
  let ?c = "c\<lparr>freeIds := fr, entries := es, drvIds := ids\<rparr>"
  assume r: "readyAt stale ?c (pathKey (wiDrvPath info)) d" and ev: "eview es = eview (entries c)"
  show "wp (wantAt cl info now d)
    (\<lambda>(d, asg) c'. coreInv stale c' \<and>
       (\<exists>e. eview (entries c') = (eview (entries c))(d \<mapsto> e) \<and> pathKey (drvPath e) = pathKey (wiDrvPath info) \<and>
          cl \<in> set (followers e) \<and> asg = (if eworker e = noWorker then None else Some (eworker e, assignId e))))
    (\<lambda>x c'. c' = c \<and> x = NixError ''scheduler: derivation table full'' \<and> length (entries c) = maxEntries \<and> freeIds c = []) ?c"
    by (rule wp_mono [OF wantAt_ok [OF r sys]]) (auto simp: ev)
qed simp


section \<open>One slot at a time\<close>

text \<open>What an operation on slot \<open>d\<close> leaves alone.\<close>

definition sameBut :: "drv_id \<Rightarrow> core \<Rightarrow> core \<Rightarrow> bool" where
  "sameBut d c c' \<longleftrightarrow> workers c' = workers c \<and> cfg c' = cfg c \<and> follows c' = follows c \<and>
     lastAssignId c' = lastAssignId c \<and> lastBuilder c' = lastBuilder c \<and>
     (\<forall>j. j \<noteq> d \<longrightarrow> eview (entries c') j = eview (entries c) j \<and> (\<forall>s. qview (systems c') s j = qview (systems c) s j))"

lemma sameButD:
  assumes "sameBut d c c'"
  shows "workers c' = workers c" "cfg c' = cfg c" "follows c' = follows c" "lastAssignId c' = lastAssignId c"
    "j \<noteq> d \<Longrightarrow> eview (entries c') j = eview (entries c) j" "j \<noteq> d \<Longrightarrow> qview (systems c') s j = qview (systems c) s j"
  using assms by (simp_all add: sameBut_def)

lemma sameBut_slotOk:
  assumes "sameBut d c c'" "j \<noteq> d" "slotOk c j" "length (workers c) < noWorker"
  shows "slotOk c' j"
  by (rule slotOk_same_workers [OF assms(3,4)]) (use sameButD [OF assms(1)] assms(2) in auto)

lemma baseOk_small: "baseOk stale c \<Longrightarrow> length (workers c) < noWorker"
  by (simp add: baseOk_def workersOk_def)

lemma sameBut_coreInv:
  assumes "sameBut d c c'" "baseOk stale c'" "slotOk c' d" "\<And>j. j \<noteq> d \<Longrightarrow> slotOk c j"
  shows "coreInv stale c'"
proof (rule coreInvI [OF assms(2)])
  fix j
  have "length (workers c) < noWorker" using baseOk_small [OF assms(2)] sameButD(1) [OF assms(1)] by simp
  then show "slotOk c' j" using assms sameBut_slotOk by (cases "j = d") auto
qed

text \<open>\<open>d\<close> is in no worker's running list and in no queue but possibly that of its system.\<close>

definition idle :: "core \<Rightarrow> drv_id \<Rightarrow> entry \<Rightarrow> bool" where
  "idle c d e \<longleftrightarrow> eview (entries c) d = Some e \<and>
     (\<forall>w < length (workers c). d \<notin> set (running (workers c ! w))) \<and>
     (\<forall>s. s \<noteq> esystem e \<longrightarrow> qview (systems c) s d = None)"

lemma freeOk_weaken:
  assumes "freeOk stale (workers c) F" "\<And>s. F' s = F s \<or> \<not> offered c s \<and> F' s = Map.empty"
  shows "freeOk stale (workers c) F'"
proof -
  have "F' s w = Some v \<Longrightarrow> F s w = Some v" for s w v using assms(2) [of s] by auto
  moreover have "F' s = F s" if "w < length (workers c)" "s \<in> set (wsystems (workers c ! w))" for w s
    using assms(2) [of s] that by (auto simp: offered_iff)
  ultimately show ?thesis using assms(1) unfolding freeOk_def by metis
qed

lemma retire_ok:
  assumes base: "baseOk stale c" and i: "idle c d e"
  shows "wp (retire d) (\<lambda>_ c'. baseOk stale c' \<and> slotOk c' d \<and> sameBut d c c' \<and> eview (entries c') d = None) noThrow c"
proof (rule wp_retire)
  show e: "eview (entries c) d = Some e" using i by (simp add: idle_def)
  show "sysOk (systems c)" using base by (simp add: baseOk_def)
  fix X
  let ?c = "c\<lparr>systems := X, drvIds := (drvIds c)(pathKey (drvPath e) := None),
             entries := (entries c)[d := None], freeIds := freeIds c @ [d]\<rparr>"
  assume X: "sysOk X"
    "\<And>s. qview X s = (if s = esystem e then (qview (systems c) s)(d := None) else qview (systems c) s)"
    "\<And>s. fview X s = fview (systems c) s \<or> \<not> offered c s \<and> fview X s = Map.empty"
  have d: "d < length (entries c)" using eview_Some [OF e] by simp
  have "freeOk stale (workers c) (fview X)" by (rule freeOk_weaken [OF baseOkD(4) [OF base] X(3)])
  then have "baseOk stale ?c"
    using base X(1) idsOk_retire [OF baseOkD(1) [OF base] e] by (simp add: baseOk_def)
  moreover have "qview X s d = None" for s using X(2) [of s] i by (simp add: idle_def)
  then have "slotOk ?c d" using i d by (simp add: slotOk_def idle_def)
  moreover have "sameBut d c ?c" using d X(2) by (simp add: sameBut_def)
  ultimately show "baseOk stale ?c \<and> slotOk ?c d \<and> sameBut d c ?c \<and> eview (entries ?c) d = None"
    using d by simp
qed

lemma requeue_ok:
  assumes base: "baseOk stale c" and i: "idle c d e" and e: "eworker e = noWorker" "entryOk c d e"
  shows "wp (requeue d e) (\<lambda>_ c'. baseOk stale c' \<and> slotOk c' d \<and> sameBut d c c' \<and> entries c' = entries c) noThrow c"
proof (rule wp_requeue)
  have ev: "eview (entries c) d = Some e" using i by (simp add: idle_def)
  show "sysOk (systems c)" using base by (simp add: baseOk_def)
  show "d < npos" using idsOk_small [OF baseOkD(1) [OF base]] eview_Some [OF ev] by simp
  fix X
  assume X: "sysOk X"
    "qview X = (qview (systems c))(esystem e := (qview (systems c) (esystem e))(d \<mapsto> prio (cfg c) e))"
    "fview X = fview (systems c)"
  have "baseOk stale (c\<lparr>systems := X\<rparr>)" using base X by (simp add: baseOk_def)
  moreover have "slotOk (c\<lparr>systems := X\<rparr>) d"
  proof -
    have "w \<noteq> noWorker" if "w < length (workers c)" for w using that baseOk_small [OF base] by simp
    then show ?thesis using i e ev X(2) by (auto simp: slotOk_def idle_def entryOk_def)
  qed
  moreover have "sameBut d c (c\<lparr>systems := X\<rparr>)" using X(2) by (simp add: sameBut_def)
  ultimately show "baseOk stale (c\<lparr>systems := X\<rparr>) \<and> slotOk (c\<lparr>systems := X\<rparr>) d \<and>
      sameBut d c (c\<lparr>systems := X\<rparr>) \<and> entries (c\<lparr>systems := X\<rparr>) = entries c" by simp
qed

lemma putSlot_base:
  assumes "baseOk stale c" "eview (entries c) d = Some e" "drvPath e' = drvPath e"
  shows "baseOk stale (c\<lparr>entries := (entries c)[d := Some e']\<rparr>)"
  using assms idsOk_put [OF baseOkD(1) [OF assms(1)] assms(2), of e'] by (simp add: baseOk_def)

lemma sameBut_put: "d < length (entries c) \<Longrightarrow> sameBut d c (c\<lparr>entries := (entries c)[d := x]\<rparr>)"
  by (simp add: sameBut_def)

lemma sameBut_trans: "sameBut d c c1 \<Longrightarrow> sameBut d c1 c2 \<Longrightarrow> sameBut d c c2"
  by (simp add: sameBut_def)

text \<open>An entry that lost its worker goes back to its queue, or away when nobody wants it.\<close>

lemma requeueOrRetire_ok:
  assumes base: "baseOk stale c" and i: "idle c d e0"
    and e: "eworker e = noWorker" "drvPath e = drvPath e0" "esystem e = esystem e0" "followers e \<noteq> [] \<Longrightarrow> entryOk c d e"
  shows "wp (if followers e = [] then retire d else requeue d e)
    (\<lambda>_ c'. baseOk stale c' \<and> slotOk c' d \<and> sameBut d c c' \<and>
       eview (entries c') d = (if followers e = [] then None else Some e)) noThrow
    (c\<lparr>entries := (entries c)[d := Some e]\<rparr>)"
proof -
  let ?c = "c\<lparr>entries := (entries c)[d := Some e]\<rparr>"
  have ev: "eview (entries c) d = Some e0" "d < length (entries c)" using i eview_Some by (auto simp: idle_def)
  have base': "baseOk stale ?c" by (rule putSlot_base [OF base ev(1) e(2)])
  have i': "idle ?c d e" using i ev e(3) by (simp add: idle_def)
  note same = sameBut_trans [OF sameBut_put [OF ev(2)]]
  show ?thesis
  proof (cases "followers e = []")
    case True
    have "wp (retire d) (\<lambda>_ c'. baseOk stale c' \<and> slotOk c' d \<and> sameBut d c c' \<and> eview (entries c') d = None) noThrow ?c"
      by (rule wp_mono [OF retire_ok [OF base' i']]) (auto intro: same)
    then show ?thesis using True by simp
  next
    case False
    then have "entryOk ?c d e" using e(4) by (simp add: entryOk_def)
    then have "wp (requeue d e) (\<lambda>_ c'. baseOk stale c' \<and> slotOk c' d \<and> sameBut d c c' \<and> eview (entries c') d = Some e) noThrow ?c"
      using ev by (intro wp_mono [OF requeue_ok [OF base' i' e(1)]]) (auto intro: same)
    then show ?thesis using False by simp
  qed
qed

lemma slot_idle:
  assumes "slotOk c d" "eview (entries c) d = Some e" "eworker e = noWorker" "length (workers c) < noWorker"
  shows "idle c d e"
  using assms slotOkD [OF assms(1,2)] by (auto simp: idle_def)

section \<open>Cancel\<close>

text \<open>What leaving does to the entry the client followed, and what there is to revoke.\<close>

definition afterCancel :: "client_id \<Rightarrow> entry option \<Rightarrow> entry option" where
  "afterCancel cl slot =
     (case slot of
        None \<Rightarrow> None
      | Some e \<Rightarrow> let e' = e\<lparr>followers := removeAll cl (followers e)\<rparr> in
          if followers e' = [] \<and> eworker e = noWorker then None else Some e')"

definition toRevoke :: "client_id \<Rightarrow> entry option \<Rightarrow> worker_id option" where
  "toRevoke cl slot =
     (case slot of
        None \<Rightarrow> None
      | Some e \<Rightarrow> if cl \<in> set (followers e) \<and> removeAll cl (followers e) = [] \<and> eworker e \<noteq> noWorker
          then Some (eworker e) else None)"

lemma cancelId_ok:
  assumes inv: "coreInv stale c"
  shows "wp (cancelId cl d) (\<lambda>r c'. coreInv stale c' \<and> follows c' = follows c \<and> workers c' = workers c \<and>
    eview (entries c') = (eview (entries c))(d := afterCancel cl (eview (entries c) d)) \<and>
    r = toRevoke cl (eview (entries c) d)) noThrow c"
    (is "wp _ ?Q _ _")
proof (cases "\<exists>e. eview (entries c) d = Some e \<and> cl \<in> set (followers e)")
  case False
  then have "afterCancel cl (eview (entries c) d) = eview (entries c) d" "toRevoke cl (eview (entries c) d) = None"
    using coreInvD(5) [OF inv, of d] by (auto simp: afterCancel_def toRevoke_def slotOk_def entryOk_def split: option.splits)
  then have "?Q None c" using inv by simp
  then show ?thesis using False by (auto simp: cancelId_def wp_simps eview_def split: option.splits)
next
  case True
  then obtain e where e: "eview (entries c) d = Some e" "cl \<in> set (followers e)" by blast
  define e' where "e' = e\<lparr>followers := removeAll cl (followers e)\<rparr>"
  have d: "d < length (entries c)" "entries c ! d = Some e" using eview_Some [OF e(1)] by simp_all
  let ?c = "c\<lparr>entries := (entries c)[d := Some e']\<rparr>"
  note sl = coreInvD(5) [OF inv] and base = coreInvD(6) [OF inv]
  have ok: "followers e' \<noteq> [] \<Longrightarrow> entryOk c d e'"
    using slotOkD(3) [OF sl e(1)] by (auto simp: e'_def entryOk_def distinct_removeAll)
  have unf: "wp (cancelId cl d) Q E c =
      (if eworker e' = noWorker then wp (if followers e' = [] then retire d else requeue d e') (\<lambda>_. Q None) E ?c
       else Q (if followers e' = [] then Some (eworker e') else None) ?c)" for Q E
    using d e(2) by (simp add: cancelId_def wp_simps e'_def [symmetric])
  show ?thesis
  proof (cases "eworker e = noWorker")
    case w: True
    have i: "idle c d e" using slot_idle [OF sl e(1) w baseOk_small [OF base]] .
    have "wp (if followers e' = [] then retire d else requeue d e') (\<lambda>_. ?Q None) noThrow ?c"
      by (rule wp_mono [OF requeueOrRetire_ok [OF base i]])
        (use w e e'_def ok sl in \<open>auto simp: afterCancel_def toRevoke_def fun_eq_iff dest: sameButD intro: sameBut_coreInv\<close>)
    then show ?thesis unfolding unf using w by (simp add: e'_def)
  next
    case w: False
    then have "entryOk ?c d e'" using slotOkD(3) [OF sl e(1)] by (auto simp: e'_def entryOk_def distinct_removeAll)
    then have "slotOk ?c d" using sl [of d] w d e(1) by (simp add: slotOk_def e'_def)
    then have "coreInv stale ?c"
      using sameBut_put [OF d(1)] putSlot_base [OF base e(1), of e'] sl by (intro sameBut_coreInv [of d c]) (auto simp: e'_def)
    then show ?thesis unfolding unf using w e d
      by (auto simp: e'_def afterCancel_def toRevoke_def Let_def)
  qed
qed


lemma cancel_ok:
  assumes inv: "coreInv stale c"
  shows "wp (cancel cl path) (\<lambda>r c'. coreInv stale c' \<and> follows c' = follows c \<and> workers c' = workers c \<and>
    (case findDrv c path of None \<Rightarrow> c' = c \<and> r = None
     | Some d \<Rightarrow> eview (entries c') = (eview (entries c))(d := afterCancel cl (eview (entries c) d)) \<and>
         r = toRevoke cl (eview (entries c) d))) noThrow c"
  using inv cancelId_ok [OF inv] by (auto simp: cancel_def wp_simps split: option.split)

lemma afterCancel_gone: "afterCancel cl slot = Some e \<Longrightarrow> cl \<notin> set (followers e)"
  by (auto simp: afterCancel_def Let_def split: option.splits if_splits)

lemma cancelAll_ok:
  assumes "coreInv stale c"
  shows "wp (cancelAll cl ds rs) (\<lambda>r c'. coreInv stale c' \<and> follows c' = follows c \<and> workers c' = workers c \<and>
    (\<forall>j. eview (entries c') j = (if j \<in> set ds then afterCancel cl (eview (entries c) j) else eview (entries c) j)) \<and>
    set r = set rs \<union> {(j, w). j \<in> set ds \<and> toRevoke cl (eview (entries c) j) = Some w}) noThrow c"
  using assms
proof (induction ds arbitrary: c rs)
  case Nil
  then show ?case by (simp add: wp_simps)
next
  case (Cons d ds)
  have idem: "afterCancel cl (afterCancel cl x) = afterCancel cl x" "toRevoke cl (afterCancel cl x) = None" for x
    by (auto simp: afterCancel_def toRevoke_def Let_def split: option.splits)
  show ?case unfolding cancelAll.simps wp_bnd
  proof (rule wp_mono [OF cancelId_ok [OF Cons.prems]], goal_cases)
    case (1 r c1)
    then have c1: "coreInv stale c1" "follows c1 = follows c" "workers c1 = workers c"
      and ev: "eview (entries c1) j = (if j = d then afterCancel cl (eview (entries c) j) else eview (entries c) j)" for j
      by simp_all
    have upd: "(if j \<in> set ds then afterCancel cl (eview (entries c1) j) else eview (entries c1) j) =
        (if j \<in> set (d # ds) then afterCancel cl (eview (entries c) j) else eview (entries c) j)" for j
      by (simp add: ev idem)
    have rev: "set (case r of None \<Rightarrow> rs | Some w \<Rightarrow> rs @ [(d, w)]) \<union>
        {(j, w). j \<in> set ds \<and> toRevoke cl (eview (entries c1) j) = Some w} =
        set rs \<union> {(j, w). j \<in> set (d # ds) \<and> toRevoke cl (eview (entries c) j) = Some w}"
      using 1 by (auto simp: ev idem split: option.split if_splits)
    show ?case by (rule wp_mono [OF Cons.IH [OF c1(1)]]) (simp_all only: upd rev c1 simp_thms)
  qed simp
qed

text \<open>\<open>clientGone\<close> forgets the client's list before it goes through it; cancelling does not
  look at the lists, so that the order does not matter.\<close>

definition ignoresFollows :: "(core, 'a) prog \<Rightarrow> bool" where
  "ignoresFollows m \<longleftrightarrow> (\<forall>c fl. m (c\<lparr>follows := fl\<rparr>) = map_prod id (\<lambda>c'. c'\<lparr>follows := fl\<rparr>) (m c))"

lemma ignoresFollows_bnd:
  "ignoresFollows m \<Longrightarrow> (\<And>a. ignoresFollows (f a)) \<Longrightarrow> ignoresFollows (bnd m f)"
  by (simp add: ignoresFollows_def bnd_def split: prod.split sum.split)

lemma ignoresFollows_basic:
  "ignoresFollows (ret a)" "ignoresFollows (throw e)" "ignoresFollows (vat xs i)" "ignoresFollows (putSlot d x)"
  by (simp_all add: ignoresFollows_def ret_def throw_def vat_def putSlot_def upd_def)

lemma ignoresFollows_gets: "(\<And>c fl. f (c\<lparr>follows := fl\<rparr>) = f c) \<Longrightarrow> ignoresFollows (gets f)"
  by (simp add: ignoresFollows_def gets_def)

lemma ignoresFollows_upd: "(\<And>c fl. f (c\<lparr>follows := fl\<rparr>) = (f c)\<lparr>follows := fl\<rparr>) \<Longrightarrow> ignoresFollows (upd f)"
  by (simp add: ignoresFollows_def upd_def)

lemma ignoresFollows_onQueue: "ignoresFollows (onQueue n m)"
  by (simp add: ignoresFollows_def onQueue_def zoom_def split: prod.split)

lemmas ignoresFollows_intros = ignoresFollows_bnd ignoresFollows_basic ignoresFollows_gets ignoresFollows_upd
  ignoresFollows_onQueue

lemma ignoresFollows_retire: "ignoresFollows (retire d)"
  unfolding retire_def slotAt_def
  by (intro ignoresFollows_intros | simp add: offered_def ignoresFollows_intros split: option.split)+

lemma ignoresFollows_requeue: "ignoresFollows (requeue d e)"
  unfolding requeue_def by (intro ignoresFollows_intros) simp

lemma ignoresFollows_cancelAll: "ignoresFollows (cancelAll cl ds rs)"
proof (induction ds arbitrary: rs)
  case (Cons d ds)
  have "ignoresFollows (cancelId cl d)"
    unfolding cancelId_def Let_def
    by (intro ignoresFollows_intros
      | simp add: ignoresFollows_intros ignoresFollows_retire ignoresFollows_requeue split: option.split)+
  then show ?case using Cons by (simp add: ignoresFollows_bnd)
qed (simp add: ignoresFollows_basic)

lemma wp_ignoresFollows:
  assumes "ignoresFollows m"
  shows "wp m Q E (c\<lparr>follows := fl\<rparr>) = wp m (\<lambda>a c'. Q a (c'\<lparr>follows := fl\<rparr>)) (\<lambda>e c'. E e (c'\<lparr>follows := fl\<rparr>)) c"
  using assms by (simp add: ignoresFollows_def wp_def split: prod.split sum.split)

lemma coreInv_forget:
  assumes inv: "coreInv stale c" and gone: "\<And>j e. eview (entries c) j = Some e \<Longrightarrow> cl \<notin> set (followers e)"
  shows "coreInv stale (c\<lparr>follows := (follows c)(cl := None)\<rparr>)"
proof (rule coreInvI)
  show "baseOk stale (c\<lparr>follows := (follows c)(cl := None)\<rparr>)" using coreInvD(6) [OF inv] by (simp add: baseOk_def)
  fix j
  show "slotOk (c\<lparr>follows := (follows c)(cl := None)\<rparr>) j"
    using coreInvD(5) [OF inv, of j] gone [of j] by (auto simp: slotOk_def entryOk_def split: option.splits)
qed

lemma cancel_nop:
  assumes "slotOk c j" "\<And>e. eview (entries c) j = Some e \<Longrightarrow> cl \<notin> set (followers e)"
  shows "afterCancel cl (eview (entries c) j) = eview (entries c) j" "toRevoke cl (eview (entries c) j) = None"
proof -
  have "afterCancel cl (eview (entries c) j) = eview (entries c) j \<and> toRevoke cl (eview (entries c) j) = None"
  proof (cases "eview (entries c) j")
    case (Some e)
    then have "removeAll cl (followers e) = followers e" using assms(2) by simp
    moreover have "eworker e = noWorker \<Longrightarrow> followers e \<noteq> []"
      using slotOkD(3) [OF assms(1) Some] by (simp add: entryOk_def)
    ultimately show ?thesis using Some assms(2) [OF Some] by (auto simp: afterCancel_def toRevoke_def)
  qed (simp add: afterCancel_def toRevoke_def)
  then show "afterCancel cl (eview (entries c) j) = eview (entries c) j" "toRevoke cl (eview (entries c) j) = None"
    by simp_all
qed

text \<open>A client that leaves is forgotten everywhere; what it was the last to want is revoked.\<close>

lemma clientGone_ok:
  assumes inv: "coreInv stale c"
  shows "wp (clientGone cl) (\<lambda>r c'. coreInv stale c' \<and> workers c' = workers c \<and> follows c' = (follows c)(cl := None) \<and>
    (\<forall>j. eview (entries c') j = afterCancel cl (eview (entries c) j)) \<and>
    set r = {(j, w). toRevoke cl (eview (entries c) j) = Some w}) noThrow c"
    (is "wp _ ?Q _ _")
proof (cases "follows c cl")
  case None
  have "cl \<notin> set (followers e)" if "eview (entries c) j = Some e" for j e
    using slotOkD(3) [OF coreInvD(5) [OF inv] that] None by (auto simp: entryOk_def)
  then have "afterCancel cl (eview (entries c) j) = eview (entries c) j" "toRevoke cl (eview (entries c) j) = None" for j
    using cancel_nop [OF coreInvD(5) [OF inv]] by blast+
  moreover have "(follows c)(cl := None) = follows c" using None by auto
  ultimately show ?thesis using None inv by (auto simp: clientGone_def wp_simps)
next
  case (Some ds)
  have listed: "j \<in> set ds" if "eview (entries c) j = Some e" "cl \<in> set (followers e)" for j e
    using slotOkD(3) [OF coreInvD(5) [OF inv] that(1)] that(2) Some by (auto simp: entryOk_def)
  have other: "afterCancel cl (eview (entries c) j) = eview (entries c) j" "toRevoke cl (eview (entries c) j) = None"
    if "j \<notin> set ds" for j
    using cancel_nop [OF coreInvD(5) [OF inv]] listed that by blast+
  have "wp (cancelAll cl ds []) (\<lambda>r c'. ?Q r (c'\<lparr>follows := (follows c)(cl := None)\<rparr>)) noThrow c"
  proof (rule wp_mono [OF cancelAll_ok [OF inv]], goal_cases)
    case (1 r c')
    then have ev: "eview (entries c') j = afterCancel cl (eview (entries c) j)" for j using other [of j] by simp
    then have "cl \<notin> set (followers e)" if "eview (entries c') j = Some e" for j e
      using that by (auto dest: afterCancel_gone)
    then have "coreInv stale (c'\<lparr>follows := (follows c')(cl := None)\<rparr>)" using 1 by (intro coreInv_forget) auto
    moreover have "set r = {(j, w). toRevoke cl (eview (entries c) j) = Some w}" 
      using 1 other(2) by (auto, metis option.distinct(1))
    ultimately show ?case using 1 ev by simp
  qed simp
  then show ?thesis using Some
    by (simp add: clientGone_def wp_simps wp_ignoresFollows [OF ignoresFollows_cancelAll])
qed


section \<open>Workers\<close>

lemma freeOk_refresh:
  assumes F: "freeOk stale ws F" and w: "w < length ws" and wkr: "wsystems wkr = wsystems (ws ! w)"
    and F': "\<And>s x. F' s x = (if x = w \<and> s \<in> set (wsystems wkr) then Some (refreshVal wkr) else F s x)"
  shows "freeOk (stale - {w}) (ws[w := wkr]) F'"
  unfolding freeOk_def
proof (intro conjI allI impI ballI, goal_cases)
  case (1 s x v)
  then show ?case using F w F' [of s x] by (auto simp: freeOk_def split: if_splits)
next
  case (2 s x v)
  then show ?case
  proof (cases "x = w")
    case True
    then show ?thesis using 2 F w F' [of s x] wkr by (auto simp: freeOk_def split: if_splits)
  next
    case False
    then show ?thesis using 2 F F' [of s x] by (auto simp: freeOk_def)
  qed
next
  case (3 x s)
  then show ?case using F w F' [of s x] by (cases "x = w") (auto simp: freeOk_def)
qed

text \<open>A change to one worker that keeps its address and systems, followed by \<open>refreshFree\<close>.\<close>

lemma refresh_ok:
  fixes c :: core and wkr :: worker and n :: nat
  assumes base: "baseOk stale c" and w: "w < length (workers c)"
    and wkr: "wsystems wkr = wsystems (workers c ! w)"
    and wok: "workersOk (workerIds c) ((workers c)[w := wkr]) n"
  defines "c1 \<equiv> c\<lparr>workersUp := n, workers := (workers c)[w := wkr]\<rparr>"
  shows "wp (refreshFree w)
    (\<lambda>_ c'. baseOk (stale - {w}) c' \<and> (\<exists>X. c' = c1\<lparr>systems := X\<rparr> \<and> qview X = qview (systems c) \<and>
       (\<forall>s x. x \<noteq> w \<longrightarrow> fview X s x = fview (systems c) s x))) noThrow c1"
proof (rule wp_refreshFree)
  note F = baseOkD(4) [OF base]
  show "sysOk (systems c1)" using base by (simp add: baseOk_def c1_def)
  show "w < length (workers c1)" using w by (simp add: c1_def)
  show "fview (systems c1) s w \<noteq> None" if "s \<in> set (wsystems (workers c1 ! w))" for s
    using F that w wkr by (simp add: c1_def freeOk_def)
  fix X
  assume X: "sysOk X" "qview X = qview (systems c1)"
    "\<And>s. fview X s = (if s \<in> set (wsystems (workers c1 ! w))
         then (fview (systems c1) s)(w \<mapsto> refreshVal (workers c1 ! w)) else fview (systems c1) s)"
  have "freeOk (stale - {w}) ((workers c)[w := wkr]) (fview X)"
    by (rule freeOk_refresh [OF F w wkr]) (use X(3) w in \<open>simp add: c1_def\<close>)
  then have "baseOk (stale - {w}) (c1\<lparr>systems := X\<rparr>)"
    using base wok X(1) by (simp add: baseOk_def c1_def)
  then show "baseOk (stale - {w}) (c1\<lparr>systems := X\<rparr>) \<and>
      (\<exists>Y. c1\<lparr>systems := X\<rparr> = c1\<lparr>systems := Y\<rparr> \<and> qview Y = qview (systems c) \<and>
         (\<forall>s x. x \<noteq> w \<longrightarrow> fview Y s x = fview (systems c) s x))"
    using X(2,3) by (intro conjI exI [of _ X]) (simp_all add: c1_def)
qed

lemma freeOk_mono: "freeOk A ws F \<Longrightarrow> A \<subseteq> B \<Longrightarrow> freeOk B ws F"
  unfolding freeOk_def by (metis subsetD)

lemma baseOk_mono: "baseOk A c \<Longrightarrow> A \<subseteq> B \<Longrightarrow> baseOk B c"
  by (auto simp: baseOk_def intro: freeOk_mono)

lemma coreInv_mono: "coreInv A c \<Longrightarrow> A \<subseteq> B \<Longrightarrow> coreInv B c"
  by (auto simp: coreInv_def intro: baseOk_mono)

text \<open>Updating a worker without changing who it is or whether it is up.\<close>

lemma workersOk_update:
  assumes "workersOk ids ws n" "w < length ws" "waddr wkr = waddr (ws ! w)" "up wkr = up (ws ! w)"
    "distinct (running wkr)" "\<not> up wkr \<longrightarrow> running wkr = []" "0 \<le> maxJobs wkr" "maxJobs wkr \<le> 63"
  shows "workersOk ids (ws[w := wkr]) n"
proof -
  have "map up (ws[w := wkr]) = map up ws" using assms(2,4) by (simp add: map_update list_update_same_conv)
  then have "length (filter up (ws[w := wkr])) = length (filter up ws)"
    using filter_map [of "\<lambda>b. b" up ws] filter_map [of "\<lambda>b. b" up "ws[w := wkr]"] by (simp add: comp_def) (metis length_map)
  moreover have "waddr (ws[w := wkr] ! x) = waddr (ws ! x)" for x
    using assms(2,3) by (simp add: nth_update_if)
  ultimately show ?thesis using assms unfolding workersOk_def by (simp add: nth_update_if)
qed

lemma workersOkD:
  assumes "workersOk ids ws n"
  shows "length ws < noWorker" "n = length (filter up ws)"
    "w < length ws \<Longrightarrow> distinct (running (ws ! w))" "w < length ws \<Longrightarrow> \<not> up (ws ! w) \<Longrightarrow> running (ws ! w) = []"
    "w < length ws \<Longrightarrow> 0 \<le> maxJobs (ws ! w)" "w < length ws \<Longrightarrow> maxJobs (ws ! w) \<le> 63"
    "ids a = Some w \<longleftrightarrow> w < length ws \<and> waddr (ws ! w) = a"
  using assms unfolding workersOk_def by blast+

lemma setDraining_ok:
  assumes inv: "coreInv stale c" and w: "w < length (workers c)"
  shows "wp (setDraining w b) (\<lambda>_ c'. coreInv stale c' \<and> entries c' = entries c \<and> follows c' = follows c \<and>
    workers c' = (workers c)[w := (workers c ! w)\<lparr>draining := b\<rparr>]) noThrow c"
proof -
  let ?wkr = "(workers c ! w)\<lparr>draining := b\<rparr>"
  note W = workersOkD [OF coreInvD(2) [OF inv]]
  have "workersOk (workerIds c) ((workers c)[w := ?wkr]) (workersUp c)"
    using W(3-6) [OF w] by (intro workersOk_update [OF coreInvD(2) [OF inv] w]) auto
  from refresh_ok [OF coreInvD(6) [OF inv] w _ this]
  have "wp (refreshFree w) (\<lambda>_ c'. coreInv stale c' \<and> entries c' = entries c \<and> follows c' = follows c \<and>
    workers c' = (workers c)[w := ?wkr]) noThrow (c\<lparr>workersUp := workersUp c, workers := (workers c)[w := ?wkr]\<rparr>)"
  proof (rule wp_mono [OF _ _ FalseE], simp, goal_cases)
    case (1 _ c')
    then obtain X where X: "c' = c\<lparr>workersUp := workersUp c, workers := (workers c)[w := ?wkr], systems := X\<rparr>"
      "qview X = qview (systems c)" "baseOk stale c'" by (auto intro: baseOk_mono)
    have "slotOk c' d" for d
      by (rule slotOk_frame [OF coreInvD(5) [OF inv, of d]]) (use w W(1) in \<open>simp_all add: X nth_update_if\<close>)
    then show ?case using X by (simp add: coreInvI)
  qed
  then show ?thesis using w by (simp add: setDraining_def wp_simps)
qed


lemma dropRunning_ok:
  assumes inv: "coreInv stale c" and w: "w < length (workers c)" and e: "eview (entries c) d = Some e"
  shows "wp (dropRunning w d) (\<lambda>_ c'. baseOk stale c' \<and> entries c' = entries c \<and> follows c' = follows c \<and>
    workers c' = (workers c)[w := (workers c ! w)\<lparr>running := removeAll d (running (workers c ! w))\<rparr>] \<and>
    (\<forall>j. j \<noteq> d \<or> eworker e \<noteq> w \<longrightarrow> slotOk c' j) \<and> (eworker e = w \<longrightarrow> idle c' d e \<and> (\<forall>s. qview (systems c') s d = None))) noThrow c"
proof -
  let ?wkr = "(workers c ! w)\<lparr>running := removeAll d (running (workers c ! w))\<rparr>"
  note W = workersOkD [OF coreInvD(2) [OF inv]] and sl = coreInvD(5) [OF inv]
  have "workersOk (workerIds c) ((workers c)[w := ?wkr]) (workersUp c)"
    using W(3-6) [OF w] by (intro workersOk_update [OF coreInvD(2) [OF inv] w]) (auto simp: distinct_removeAll)
  from refresh_ok [OF coreInvD(6) [OF inv] w _ this]
  have "wp (refreshFree w) (\<lambda>_ c'. baseOk stale c' \<and> entries c' = entries c \<and> follows c' = follows c \<and>
    workers c' = (workers c)[w := ?wkr] \<and> (\<forall>j. j \<noteq> d \<or> eworker e \<noteq> w \<longrightarrow> slotOk c' j) \<and>
    (eworker e = w \<longrightarrow> idle c' d e \<and> (\<forall>s. qview (systems c') s d = None)))
    noThrow (c\<lparr>workersUp := workersUp c, workers := (workers c)[w := ?wkr]\<rparr>)"
  proof (rule wp_mono [OF _ _ FalseE], simp, goal_cases)
    case (1 _ c')
    then obtain X where X: "c' = c\<lparr>workersUp := workersUp c, workers := (workers c)[w := ?wkr], systems := X\<rparr>"
      "qview X = qview (systems c)" "baseOk stale c'" by (auto intro: baseOk_mono)
    have "slotOk c' j" if j: "j \<noteq> d \<or> eworker e \<noteq> w" for j
    proof (rule slotOk_frame [OF sl [of j]])
      fix x assume x: "x < length (workers c)"
      have "d \<notin> set (running (workers c ! w))" if "j = d" using slotOkD(2) [OF sl e w] j that by auto
      then show "j \<in> set (running (workers c' ! x)) \<longleftrightarrow> j \<in> set (running (workers c ! x))"
        using w j by (auto simp: X nth_update_if)
    qed (use w W(1) in \<open>simp_all add: X nth_update_if\<close>)
    moreover have "idle c' d e \<and> (\<forall>s. qview (systems c') s d = None)" if "eworker e = w"
      using slotOkD [OF sl e] that w e W(1) X(2) by (auto simp: idle_def X nth_update_if)
    ultimately show ?case using X by simp
  qed
  then show ?thesis using w by (simp add: dropRunning_def wp_simps)
qed

lemma findDrv_entry:
  assumes "coreInv stale c" "findDrv c path = Some d"
  obtains e where "eview (entries c) d = Some e" "pathKey (drvPath e) = pathKey path"
  using idsOkD(1) [OF coreInvD(1) [OF assms(1)], of "pathKey path" d] assms(2) by (auto simp: findDrv_def)

lemma coreInv_lastBuilder: "coreInv stale (c\<lparr>lastBuilder := l\<rparr>) \<longleftrightarrow> coreInv stale c"
  by (simp add: coreInv_def baseOk_def slotOk_cong [of "c\<lparr>lastBuilder := l\<rparr>" c])

lemma wp_rememberBuilders:
  assumes "\<And>l. Q () (c\<lparr>lastBuilder := l\<rparr>)"
  shows "wp (forEach outs (\<lambda>(out, sz). upd (rememberBuilder out wid sz))) Q E c"
proof -
  have "wp (forEach outs (\<lambda>(out, sz). upd (rememberBuilder out wid sz))) (\<lambda>_ c'. \<exists>l. c' = c\<lparr>lastBuilder := l\<rparr>) E c"
  proof (rule wp_forEach)
    show "\<exists>l. c = c\<lparr>lastBuilder := l\<rparr>" by (rule exI [of _ "lastBuilder c"]) simp
    fix x c' assume "\<exists>l. c' = c\<lparr>lastBuilder := l\<rparr>"
    then show "wp (case x of (out, sz) \<Rightarrow> upd (rememberBuilder out wid sz)) (\<lambda>_ c'. \<exists>l. c' = c\<lparr>lastBuilder := l\<rparr>) E c'"
      by (auto simp: wp_simps rememberBuilder_def Let_def split: prod.split option.split)
  qed
  then show ?thesis by (rule wp_mono) (use assms in auto)
qed

text \<open>A derivation a worker reports done is retired, provided that worker was building it.\<close>

definition afterDone :: "core \<Rightarrow> worker_id \<Rightarrow> string \<Rightarrow> drv_id \<rightharpoonup> entry" where
  "afterDone c w path =
     (case findDrv c path of
        None \<Rightarrow> eview (entries c)
      | Some d \<Rightarrow> (case eview (entries c) d of
          None \<Rightarrow> eview (entries c)
        | Some e \<Rightarrow> if eworker e = w then (eview (entries c))(d := None) else eview (entries c)))"

lemma coreDone_ok:
  assumes inv0: "coreInv stale c0" and w: "w < length (workers c0)"
  shows "wp (coreDone w path outs) (\<lambda>_ c'. coreInv stale c' \<and> eview (entries c') = afterDone c0 w path) noThrow c0"
proof -
  have main: "wp (case findDrv c path of None \<Rightarrow> ret () | Some d \<Rightarrow>
      bnd (dropRunning w d) (\<lambda>_. bnd (slotAt d) (\<lambda>slot. case slot of None \<Rightarrow> ret ()
        | Some ent \<Rightarrow> if eworker ent = w then retire d else ret ())))
      (\<lambda>_ c'. coreInv stale c' \<and> eview (entries c') = afterDone c0 w path) noThrow c"
    if c: "c = c0\<lparr>lastBuilder := l\<rparr>" for c l
  proof (cases "findDrv c path")
    case None
    then show ?thesis using inv0 c by (simp add: wp_simps afterDone_def findDrv_def coreInv_lastBuilder)
  next
    case (Some d)
    have inv: "coreInv stale c" and w': "w < length (workers c)" using inv0 w c by (simp_all add: coreInv_lastBuilder)
    from findDrv_entry [OF inv Some] obtain e where e: "eview (entries c) d = Some e" .
    have ad: "afterDone c0 w path = (if eworker e = w then (eview (entries c))(d := None) else eview (entries c))"
      using Some e c by (simp add: afterDone_def findDrv_def)
    have d: "d < length (entries c)" "entries c ! d = Some e" using eview_Some [OF e] by simp_all
    show ?thesis
      unfolding Some option.case wp_bnd
    proof (rule wp_mono [OF dropRunning_ok [OF inv w' e]], goal_cases)
      case (1 _ c1)
      show ?case
      proof (cases "eworker e = w")
        case True
        have "wp (retire d) (\<lambda>_ c'. coreInv stale c' \<and> eview (entries c') = afterDone c0 w path) noThrow c1"
        proof (rule wp_mono [OF retire_ok [of stale c1 d e]], goal_cases)
          case (3 _ c2)
          then have "coreInv stale c2" using 1 by (intro sameBut_coreInv [of d c1 c2]) auto
          moreover have "eview (entries c2) = (eview (entries c1))(d := None)"
            using 3 by (auto simp: fun_eq_iff dest: sameButD(5))
          ultimately show ?case using ad 1 True by simp
        qed (use 1 True in auto)
        then show ?thesis using 1 True d by (simp add: wp_simps)
      next
        case False
        then have "coreInv stale c1" using 1 by (intro coreInvI) auto
        then show ?thesis using False 1 d ad by (simp add: wp_simps)
      qed
    qed simp
  qed
  show ?thesis
    using w main by (simp add: coreDone_def wp_simps) (rule wp_rememberBuilders, simp add: wp_simps)
qed

text \<open>A derivation its worker gives back is queued again, avoiding that worker, or retired.\<close>

definition afterGiveBack :: "core \<Rightarrow> worker_id \<Rightarrow> string \<Rightarrow> drv_id \<rightharpoonup> entry" where
  "afterGiveBack c w path =
     (case findDrv c path of
        None \<Rightarrow> eview (entries c)
      | Some d \<Rightarrow> (case eview (entries c) d of
          None \<Rightarrow> eview (entries c)
        | Some e \<Rightarrow>
            if eworker e \<noteq> w then eview (entries c)
            else (eview (entries c))(d := (if followers e = [] then None else Some (e\<lparr>eworker := noWorker, avoid := w\<rparr>)))))"

lemma giveBack_ok:
  assumes inv: "coreInv stale c" and w: "w < length (workers c)"
  shows "wp (giveBack w path) (\<lambda>_ c'. coreInv stale c' \<and> eview (entries c') = afterGiveBack c w path) noThrow c"
proof (cases "findDrv c path")
  case None
  then show ?thesis using inv by (simp add: giveBack_def wp_simps afterGiveBack_def)
next
  case (Some d)
  from findDrv_entry [OF inv Some] obtain e where e: "eview (entries c) d = Some e" .
  define e' where "e' = e\<lparr>eworker := noWorker, avoid := w\<rparr>"
  have ag: "afterGiveBack c w path = (if eworker e \<noteq> w then eview (entries c)
      else (eview (entries c))(d := (if followers e = [] then None else Some e')))"
    using Some e by (simp add: afterGiveBack_def e'_def)
  have d: "d < length (entries c)" "entries c ! d = Some e" using eview_Some [OF e] by simp_all
  have "wp (dropRunning w d) (\<lambda>_. wp (bnd (slotAt d) (\<lambda>slot. case slot of None \<Rightarrow> ret () | Some ent \<Rightarrow>
      if eworker ent \<noteq> w then ret ()
      else let ent = ent\<lparr>eworker := noWorker, avoid := w\<rparr> in
           bnd (putSlot d (Some ent)) (\<lambda>_. if followers ent = [] then retire d else requeue d ent)))
      (\<lambda>_ c'. coreInv stale c' \<and> eview (entries c') = afterGiveBack c w path) noThrow) noThrow c"
  proof (rule wp_mono [OF dropRunning_ok [OF inv w e]], goal_cases)
    case (1 _ c1)
    show ?case
    proof (cases "eworker e = w")
      case True
      have "entryOk c1 d e'" if "followers e \<noteq> []"
        using slotOkD(3) [OF coreInvD(5) [OF inv] e] 1 that w by (auto simp: entryOk_def e'_def)
      then have "wp (if followers e' = [] then retire d else requeue d e')
          (\<lambda>_ c'. coreInv stale c' \<and> eview (entries c') = afterGiveBack c w path) noThrow (c1\<lparr>entries := (entries c1)[d := Some e']\<rparr>)"
      proof (intro wp_mono [OF requeueOrRetire_ok [of stale c1 d e e']], goal_cases)
        case (7 _ c2)
        then have "coreInv stale c2" using 1 by (intro sameBut_coreInv [of d c1 c2]) auto
        moreover have "eview (entries c2) = (eview (entries c1))(d := (if followers e = [] then None else Some e'))"
          using 7 by (auto simp: fun_eq_iff e'_def dest: sameButD(5))
        ultimately show ?case using ag 1 True by simp
      qed (use 1 True in \<open>auto simp: e'_def\<close>)
      then show ?thesis using 1 True d unfolding e'_def by (simp add: wp_simps)
    next
      case False
      then have "coreInv stale c1" using 1 by (intro coreInvI) auto
      then show ?thesis using False 1 d ag by (simp add: wp_simps)
    qed
  qed simp
  then show ?thesis using Some by (simp add: giveBack_def wp_simps)
qed


text \<open>The running list of a worker that went away is worked off one derivation at a time.\<close>

definition afterGone :: "worker_id \<Rightarrow> entry option \<Rightarrow> entry option" where
  "afterGone w slot =
     (case slot of
        None \<Rightarrow> None
      | Some e \<Rightarrow> if eworker e \<noteq> w then Some e
          else if followers e = [] then None else Some (e\<lparr>eworker := noWorker\<rparr>))"

definition orphan :: "worker_id \<Rightarrow> core \<Rightarrow> drv_id \<Rightarrow> bool" where
  "orphan w c d \<longleftrightarrow> (\<exists>e. idle c d e \<and> eworker e = w \<and> (\<forall>s. qview (systems c) s d = None) \<and>
     (followers e \<noteq> [] \<longrightarrow> entryOk c d (e\<lparr>eworker := noWorker\<rparr>)))"

lemma orphan_same:
  assumes "sameBut d c c'" "j \<noteq> d" "orphan w c j"
  shows "orphan w c' j"
  using assms sameButD [OF assms(1)] by (auto simp: orphan_def idle_def entryOk_def)

lemma requeueOrphan_ok:
  assumes base: "baseOk stale c" and o: "orphan w c d"
  shows "wp (requeueOrphan w d) (\<lambda>_ c'. baseOk stale c' \<and> slotOk c' d \<and> sameBut d c c' \<and>
    eview (entries c') d = afterGone w (eview (entries c) d)) noThrow c"
proof -
  from o obtain e where i: "idle c d e" and e: "eworker e = w"
    "followers e \<noteq> [] \<Longrightarrow> entryOk c d (e\<lparr>eworker := noWorker\<rparr>)" by (auto simp: orphan_def)
  have d: "eview (entries c) d = Some e" "d < length (entries c)" "entries c ! d = Some e"
    using i eview_Some by (auto simp: idle_def)
  have "wp (if followers (e\<lparr>eworker := noWorker\<rparr>) = [] then retire d else requeue d (e\<lparr>eworker := noWorker\<rparr>))
      (\<lambda>_ c'. baseOk stale c' \<and> slotOk c' d \<and> sameBut d c c' \<and> eview (entries c') d = afterGone w (eview (entries c) d))
      noThrow (c\<lparr>entries := (entries c)[d := Some (e\<lparr>eworker := noWorker\<rparr>)]\<rparr>)"
    by (rule wp_mono [OF requeueOrRetire_ok [OF base i]]) (use d e in \<open>auto simp: afterGone_def\<close>)
  then show ?thesis using d e by (simp add: requeueOrphan_def wp_simps)
qed

lemma requeueOrphans_ok:
  assumes "baseOk stale c" "distinct ds" "\<And>j. j \<in> set ds \<Longrightarrow> orphan w c j" "\<And>j. j \<notin> set ds \<Longrightarrow> slotOk c j"
  shows "wp (forEach ds (requeueOrphan w)) (\<lambda>_ c'. coreInv stale c' \<and> workers c' = workers c \<and> follows c' = follows c \<and>
    (\<forall>j. eview (entries c') j = (if j \<in> set ds then afterGone w (eview (entries c) j) else eview (entries c) j))) noThrow c"
  using assms
proof (induction ds arbitrary: c)
  case Nil
  then show ?case by (simp add: wp_simps coreInvI)
next
  case (Cons d ds)
  show ?case unfolding forEach.simps wp_bnd
  proof (rule wp_mono [OF requeueOrphan_ok [OF Cons.prems(1)]], goal_cases)
    case 1
    show ?case using Cons.prems(3) by simp
  next
    case (2 _ c1)
    then have same: "sameBut d c c1" and base: "baseOk stale c1" and sd: "slotOk c1 d" by auto
    have "slotOk c1 j" if "j \<notin> set ds" for j
      using that sd Cons.prems(4) sameBut_slotOk [OF same _ _ baseOk_small [OF Cons.prems(1)]] by (cases "j = d") auto
    moreover have "orphan w c1 j" if "j \<in> set ds" for j
      using that Cons.prems(2) by (intro orphan_same [OF same] Cons.prems(3)) auto
    ultimately have "wp (forEach ds (requeueOrphan w)) (\<lambda>_ c'. coreInv stale c' \<and> workers c' = workers c1 \<and> follows c' = follows c1 \<and>
      (\<forall>j. eview (entries c') j = (if j \<in> set ds then afterGone w (eview (entries c1) j) else eview (entries c1) j))) noThrow c1"
      using Cons.prems(2) base by (intro Cons.IH) auto
    moreover have "eview (entries c1) j = (if j = d then afterGone w (eview (entries c) j) else eview (entries c) j)" for j
      using 2 sameButD(5) [OF same] by simp
    ultimately show ?case
      by (elim wp_mono) (use sameButD(1,3) [OF same] Cons.prems(2) in auto)
  qed simp
qed

lemma length_filter_update:
  "w < length ws \<Longrightarrow> length (filter P (ws[w := x])) + (if P (ws ! w) then 1 else 0) =
     length (filter P ws) + (if P x then 1 else 0)"
proof (induction ws arbitrary: w)
  case (Cons a ws)
  then show ?case using Cons.IH [of "w - 1"] by (cases w) auto
qed simp

lemma workersOk_down:
  assumes "workersOk ids ws n" "w < length ws"
  shows "workersOk ids (ws[w := (ws ! w)\<lparr>up := False, running := []\<rparr>]) (if up (ws ! w) then n - 1 else n)"
proof -
  let ?x = "(ws ! w)\<lparr>up := False, running := []\<rparr>"
  have "(if up (ws ! w) then n - 1 else n) = length (filter up (ws[w := ?x]))"
    using length_filter_update [OF assms(2), of up ?x] workersOkD(2) [OF assms(1)] by (auto split: if_splits)
  moreover have "waddr (ws[w := ?x] ! x) = waddr (ws ! x)" for x using assms(2) by (simp add: nth_update_if)
  ultimately show ?thesis using assms unfolding workersOk_def by (simp add: nth_update_if)
qed

lemma workerGone_ok:
  assumes inv: "coreInv stale c" and w: "w < length (workers c)"
  defines "ws \<equiv> (workers c)[w := (workers c ! w)\<lparr>up := False, running := []\<rparr>]"
  shows "wp (workerGone w) (\<lambda>_ c'. coreInv (stale - {w}) c' \<and> workers c' = ws \<and> follows c' = follows c \<and>
    (\<forall>j. eview (entries c') j = afterGone w (eview (entries c) j))) noThrow c"
proof -
  let ?wkr = "workers c ! w"
  define n where "n = (if up ?wkr then workersUp c - 1 else workersUp c)"
  define c1 where "c1 = c\<lparr>workersUp := n, workers := (workers c)[w := ?wkr\<lparr>up := False\<rparr>]\<rparr>"
  note sl = coreInvD(5) [OF inv] and W = workersOkD [OF coreInvD(2) [OF inv]]
  have "wp (refreshFree w) (\<lambda>_ c'. wp (bnd (putWorker w (?wkr\<lparr>up := False, running := []\<rparr>))
      (\<lambda>_. forEach (running ?wkr) (requeueOrphan w)))
      (\<lambda>_ c'. coreInv (stale - {w}) c' \<and> workers c' = ws \<and> follows c' = follows c \<and>
        (\<forall>j. eview (entries c') j = afterGone w (eview (entries c) j))) noThrow c') noThrow c1"
  proof (rule wp_refreshFree, goal_cases)
    case 1
    show ?case using coreInvD(3) [OF inv] by (simp add: c1_def)
  next
    case 2
    show ?case using w by (simp add: c1_def)
  next
    case (3 s)
    then show ?case using coreInvD(4) [OF inv] w by (auto simp: c1_def freeOk_def)
  next
    case (4 X)
    define c2 where "c2 = c1\<lparr>systems := X, workers := ws\<rparr>"
    have v: "refreshVal (?wkr\<lparr>up := False\<rparr>) = refreshVal (?wkr\<lparr>up := False, running := []\<rparr>)"
      by (simp add: refreshVal_def takesWork_def)
    have "freeOk (stale - {w}) ws (fview X)" unfolding ws_def
      by (rule freeOk_refresh [OF coreInvD(4) [OF inv] w]) (use 4(3) w v in \<open>simp_all add: c1_def\<close>)
    then have base: "baseOk (stale - {w}) c2"
      using coreInvD(1) [OF inv] workersOk_down [OF coreInvD(2) [OF inv] w] 4(1)
      by (simp add: baseOk_def c2_def c1_def n_def ws_def)
    have c2: "entries c2 = entries c" "qview (systems c2) = qview (systems c)" "workers c2 = ws" "follows c2 = follows c" "cfg c2 = cfg c"
      using 4(2) by (simp_all add: c2_def c1_def)
    have run: "running (ws ! x) = (if x = w then [] else running (workers c ! x))"
      "up (ws ! x) = (x \<noteq> w \<and> up (workers c ! x))" for x using w by (auto simp: ws_def nth_update_if)
    have len: "length ws = length (workers c)" by (simp add: ws_def)
    have "slotOk c2 j" if "j \<notin> set (running ?wkr)" for j
      by (rule slotOk_frame [OF sl [of j]]) (use that W(1) in \<open>auto simp: c2 run len\<close>)
    moreover have "orphan w c2 j" if j: "j \<in> set (running ?wkr)" for j
    proof -
      obtain e where e: "eview (entries c) j = Some e" using slotOk_None(2) [OF sl _ w] j by blast
      then have ew: "eworker e = w" using slotOkD(2) [OF sl e w] j by simp
      then show ?thesis using slotOkD [OF sl e] W(1) w e
        unfolding orphan_def idle_def entryOk_def c2 by (auto simp: run len)
    qed
    ultimately have loop: "wp (forEach (running ?wkr) (requeueOrphan w)) (\<lambda>_ c'. coreInv (stale - {w}) c' \<and> workers c' = workers c2 \<and>
        follows c' = follows c2 \<and> (\<forall>j. eview (entries c') j =
          (if j \<in> set (running ?wkr) then afterGone w (eview (entries c2) j) else eview (entries c2) j))) noThrow c2"
      using W(3) [OF w] base by (intro requeueOrphans_ok) auto
    have "afterGone w (eview (entries c) j) = eview (entries c) j" if "j \<notin> set (running ?wkr)" for j
      using slotOkD(2) [OF sl _ w] that by (auto simp: afterGone_def split: option.split)
    then have "wp (forEach (running ?wkr) (requeueOrphan w)) (\<lambda>_ c'. coreInv (stale - {w}) c' \<and> workers c' = ws \<and>
        follows c' = follows c \<and> (\<forall>j. eview (entries c') j = afterGone w (eview (entries c) j))) noThrow c2"
      by (intro wp_mono [OF loop]) (auto simp: c2)
    then show ?case by (simp add: wp_simps c2_def c1_def ws_def)
  qed
  then show ?thesis using w by (simp add: workerGone_def wp_simps c1_def n_def split del: if_split)
qed


section \<open>Hello\<close>

lemma workersOk_snoc:
  assumes "workersOk ids ws n" "Suc (length ws) < noWorker" "ids addr = None"
  shows "workersOk (ids(addr \<mapsto> length ws)) (ws @ [worker0\<lparr>waddr := addr\<rparr>]) n"
proof -
  note W = workersOkD [OF assms(1)]
  have "(ids(addr \<mapsto> length ws)) a = Some w \<longleftrightarrow>
      w < length (ws @ [worker0\<lparr>waddr := addr\<rparr>]) \<and> waddr ((ws @ [worker0\<lparr>waddr := addr\<rparr>]) ! w) = a" for a w
    using W(7) [of a w] W(7) [of addr w] assms(3) by (cases "w < length ws") (auto simp: nth_append)
  then show ?thesis using W(1-6) assms(2) unfolding workersOk_def
    by (auto simp: worker0_def nth_append)
qed

lemma workerId_ok:
  assumes inv: "coreInv stale c" and room: "Suc (length (workers c)) < noWorker"
  shows "wp (workerId addr) (\<lambda>w c'. coreInv stale c' \<and> entries c' = entries c \<and> follows c' = follows c \<and>
    w < length (workers c') \<and> waddr (workers c' ! w) = addr) noThrow c"
proof (cases "workerIds c addr")
  case (Some w)
  then have "w < length (workers c)" "waddr (workers c ! w) = addr"
    using workersOkD(7) [OF coreInvD(2) [OF inv]] by auto
  then show ?thesis using Some inv by (simp add: workerId_def wp_simps)
next
  case None
  let ?ws = "workers c @ [worker0\<lparr>waddr := addr\<rparr>]" and ?n = "length (workers c)"
  let ?c = "c\<lparr>workers := ?ws, workerIds := (workerIds c)(addr \<mapsto> ?n)\<rparr>"
  have "freeOk stale ?ws (fview (systems c))"
    using coreInvD(4) [OF inv] by (auto simp: freeOk_def nth_append worker0_def less_Suc_eq)
  then have base: "baseOk stale ?c"
    using coreInvD(6) [OF inv] workersOk_snoc [OF coreInvD(2) [OF inv] room None] by (simp add: baseOk_def)
  have "slotOk ?c d" for d
    by (rule slotOk_frame [OF coreInvD(5) [OF inv, of d]])
      (use room in \<open>auto simp: nth_append worker0_def less_Suc_eq\<close>)
  then have "coreInv stale ?c" using base by (simp add: coreInvI)
  moreover have "?n mod 2 ^ 32 = ?n" using room by (simp add: noWorker_def)
  ultimately show ?thesis using None by (simp add: workerId_def wp_simps)
qed

text \<open>While its Hello is processed a worker reads as having no free slot.\<close>

definition zeroFree :: "worker_id \<Rightarrow> core \<Rightarrow> bool" where
  "zeroFree w c \<longleftrightarrow> (\<forall>s v. fview (systems c) s w = Some v \<longrightarrow> v = 0)"

lemma down_zeroFree:
  assumes "freeOk stale (workers c) (fview (systems c))" "w < length (workers c)" "\<not> up (workers c ! w)"
  shows "zeroFree w c"
proof -
  have "refreshVal (workers c ! w) = 0" using assms(3) by (simp add: refreshVal_def takesWork_def)
  then show ?thesis using assms(1) unfolding zeroFree_def freeOk_def by (metis (no_types))
qed

lemma freeOk_zero:
  assumes "freeOk stale ws F" "w < length ws" "w \<in> stale" "\<And>s v. F s w = Some v \<Longrightarrow> v = 0"
    "wsystems wkr = wsystems (ws ! w)"
  shows "freeOk stale (ws[w := wkr]) F"
  using assms unfolding freeOk_def by (auto simp: nth_update_if)

lemma helloUp_ok:
  fixes info :: helloInfo
  assumes inv: "coreInv stale c" and w: "w < length (workers c)" "\<not> up (workers c ! w)"
  defines "wkr \<equiv> (workers c ! w)\<lparr>up := True, draining := False, wsystems := hiSystems info,
     wfeatures := hiFeatures info, maxJobs := int (min (hiMaxJobs info) maxSlots)\<rparr>"
  shows "wp (helloUp w info) (\<lambda>_ c'. coreInv (insert w stale) c' \<and> zeroFree w c' \<and> entries c' = entries c \<and>
    follows c' = follows c \<and> workers c' = (workers c)[w := wkr]) noThrow c"
proof -
  let ?wkr = "(workers c ! w)\<lparr>up := True, draining := False, wsystems := hiSystems info\<rparr>"
  let ?ws = "(workers c)[w := wkr]"
  note W = workersOkD [OF coreInvD(2) [OF inv]]
  have run: "running (workers c ! w) = []" using W(4) [OF w] .
  have small: "w < npos" using w(1) W(1) by (simp add: noWorker_def npos_def)
  have z: "zeroFree w c" by (rule down_zeroFree [OF coreInvD(4) [OF inv] w])
  have "wp (forEach (hiSystems info) (\<lambda>name. onFree name (fpush w))) (\<lambda>_ c'. let c2 = c'\<lparr>workers := (workers c')[w := wkr]\<rparr> in
      coreInv (insert w stale) c2 \<and> zeroFree w c2 \<and> entries c2 = entries c \<and> follows c2 = follows c \<and> workers c2 = ?ws)
      noThrow (c\<lparr>workersUp := workersUp c + 1, workers := (workers c)[w := ?wkr]\<rparr>)"
  proof (rule wp_pushAll [OF _ small], goal_cases)
    case 1
    then show ?case using coreInvD(3) [OF inv] by simp
  next
    case (2 X)
    define c2 where "c2 = c\<lparr>workersUp := workersUp c + 1, systems := X, workers := ?ws\<rparr>"
    have fv: "fview X s x = (if x = w \<and> s \<in> set (hiSystems info) then Some 0 else fview (systems c) s x)" for s x
      using 2(3) [of s] z by (auto simp: zeroFree_def)
    have "freeOk (insert w stale) ?ws (fview X)"
      using coreInvD(4) [OF inv] w(1) z unfolding freeOk_def zeroFree_def
      by (auto simp: nth_update_if wkr_def fv split: if_splits)
    moreover have "workersOk (workerIds c) ?ws (workersUp c + 1)"
    proof -
      have "waddr (?ws ! x) = waddr (workers c ! x)" for x using w(1) by (simp add: nth_update_if wkr_def)
      moreover have "workersUp c + 1 = length (filter up ?ws)"
        using length_filter_update [OF w(1), of up wkr] W(2) w(2) by (simp add: wkr_def)
      ultimately show ?thesis using coreInvD(2) [OF inv] w(1) run unfolding workersOk_def
        by (simp add: nth_update_if) (simp add: wkr_def maxSlots_def)
    qed
    ultimately have base: "baseOk (insert w stale) c2"
      using coreInvD(1) [OF inv] 2(1) by (simp add: baseOk_def c2_def)
    have "slotOk c2 d" for d
      by (rule slotOk_frame [OF coreInvD(5) [OF inv, of d]])
        (use 2(2) w(1) W(1) run in \<open>auto simp: c2_def nth_update_if wkr_def\<close>)
    then have "coreInv (insert w stale) c2" using base by (simp add: coreInvI)
    moreover have "zeroFree w c2" using z by (auto simp: zeroFree_def c2_def fv)
    ultimately show ?case by (simp add: c2_def Let_def)
  qed
  then show ?thesis using w by (simp add: helloUp_def wp_simps wkr_def Let_def)
qed


text \<open>Workers that differ in their running lists at most.\<close>

definition sameWorkers :: "worker list \<Rightarrow> worker list \<Rightarrow> bool" where
  "sameWorkers ws ws' \<longleftrightarrow> length ws' = length ws \<and>
     (\<forall>x < length ws. up (ws' ! x) = up (ws ! x) \<and> draining (ws' ! x) = draining (ws ! x) \<and>
        wsystems (ws' ! x) = wsystems (ws ! x) \<and> wfeatures (ws' ! x) = wfeatures (ws ! x) \<and>
        waddr (ws' ! x) = waddr (ws ! x) \<and> maxJobs (ws' ! x) = maxJobs (ws ! x))"

lemma sameWorkersD:
  assumes "sameWorkers ws ws'"
  shows "length ws' = length ws" "x < length ws \<Longrightarrow> up (ws' ! x) = up (ws ! x)"
    "x < length ws \<Longrightarrow> wsystems (ws' ! x) = wsystems (ws ! x)" "x < length ws \<Longrightarrow> waddr (ws' ! x) = waddr (ws ! x)"
  using assms by (simp_all add: sameWorkers_def)

lemma sameWorkers_refl: "sameWorkers ws ws"
  by (simp add: sameWorkers_def)

lemma sameWorkers_trans: "sameWorkers a b \<Longrightarrow> sameWorkers b d \<Longrightarrow> sameWorkers a d"
  by (simp add: sameWorkers_def)

lemma sameWorkers_update: "w < length ws \<Longrightarrow> sameWorkers ws (ws[w := (ws ! w)\<lparr>running := r\<rparr>])"
  by (simp add: sameWorkers_def nth_update_if)

text \<open>The worker that loses \<open>d\<close> to the reporter \<open>w\<close>.\<close>

lemma loser_ok:
  assumes base: "baseOk stale c" and z: "zeroFree w c" and l: "l \<noteq> noWorker \<Longrightarrow> l < length (workers c)"
    and run: "\<And>x. x < length (workers c) \<Longrightarrow> d \<in> set (running (workers c ! x)) \<longleftrightarrow> x = l"
  shows "wp (if l \<noteq> noWorker \<and> l \<noteq> w then dropRunning l d else ret ())
    (\<lambda>_ c'. \<exists>n ws X. c' = c\<lparr>workersUp := n, workers := ws, systems := X\<rparr> \<and> baseOk stale c' \<and> zeroFree w c' \<and>
       qview X = qview (systems c) \<and> sameWorkers (workers c) ws \<and>
       (\<forall>x < length (workers c). \<forall>j. j \<in> set (running (ws ! x)) \<longleftrightarrow> j \<in> set (running (workers c ! x)) \<and> (j = d \<longrightarrow> x = w)))
    noThrow c"
proof (cases "l \<noteq> noWorker \<and> l \<noteq> w")
  case False
  have "x = w" if "x < length (workers c)" "d \<in> set (running (workers c ! x))" for x
    using run [OF that(1)] that False baseOk_small [OF base] by auto
  then have "\<forall>x < length (workers c). \<forall>j. j \<in> set (running (workers c ! x)) \<longleftrightarrow> j \<in> set (running (workers c ! x)) \<and> (j = d \<longrightarrow> x = w)"
    by blast
  then have "\<exists>n ws X. c = c\<lparr>workersUp := n, workers := ws, systems := X\<rparr> \<and> baseOk stale c \<and> zeroFree w c \<and>
       qview X = qview (systems c) \<and> sameWorkers (workers c) ws \<and>
       (\<forall>x < length (workers c). \<forall>j. j \<in> set (running (ws ! x)) \<longleftrightarrow> j \<in> set (running (workers c ! x)) \<and> (j = d \<longrightarrow> x = w))"
    using base z by (intro exI [of _ "workersUp c"] exI [of _ "workers c"] exI [of _ "systems c"]) (simp add: sameWorkers_refl)
  then show ?thesis using False by (simp only: wp_simps if_False)
next
  case True
  then have l: "l < length (workers c)" using l by simp
  let ?wkr = "(workers c ! l)\<lparr>running := removeAll d (running (workers c ! l))\<rparr>"
  note W = workersOkD [OF baseOkD(2) [OF base]]
  have "workersOk (workerIds c) ((workers c)[l := ?wkr]) (workersUp c)"
    using W(3-6) [OF l] by (intro workersOk_update [OF baseOkD(2) [OF base] l]) (auto simp: distinct_removeAll)
  from refresh_ok [OF base l _ this]
  have "wp (refreshFree l) (\<lambda>_ c'. \<exists>n ws X. c' = c\<lparr>workersUp := n, workers := ws, systems := X\<rparr> \<and> baseOk stale c' \<and> zeroFree w c' \<and>
       qview X = qview (systems c) \<and> sameWorkers (workers c) ws \<and>
       (\<forall>x < length (workers c). \<forall>j. j \<in> set (running (ws ! x)) \<longleftrightarrow> j \<in> set (running (workers c ! x)) \<and> (j = d \<longrightarrow> x = w)))
    noThrow (c\<lparr>workersUp := workersUp c, workers := (workers c)[l := ?wkr]\<rparr>)"
  proof (rule wp_mono [OF _ _ FalseE], simp, goal_cases)
    case (1 _ c')
    then obtain X where X: "c' = c\<lparr>workersUp := workersUp c, workers := (workers c)[l := ?wkr], systems := X\<rparr>"
      "qview X = qview (systems c)" "\<And>s x. x \<noteq> l \<Longrightarrow> fview X s x = fview (systems c) s x" "baseOk stale c'"
      by (auto intro: baseOk_mono)
    have "zeroFree w c'" using z X(3) [of w] True by (auto simp: zeroFree_def X(1))
    moreover have "j \<in> set (running ((workers c)[l := ?wkr] ! x)) \<longleftrightarrow> j \<in> set (running (workers c ! x)) \<and> (j = d \<longrightarrow> x = w)"
      if "x < length (workers c)" for x j using run [OF that] True l by (auto simp: nth_update_if)
    ultimately show ?case using X sameWorkers_update [OF l]
      by (intro exI [of _ "workersUp c"] exI [of _ "(workers c)[l := ?wkr]"] exI [of _ X]) auto
  qed
  then show ?thesis using True l by (simp add: dropRunning_def wp_simps)
qed


definition helloEntry :: "string \<Rightarrow> entry option \<Rightarrow> entry" where
  "helloEntry path slot = (case slot of None \<Rightarrow> entry0\<lparr>drvPath := path\<rparr> | Some e \<Rightarrow> e)"

lemma helloSlot:
  assumes r: "readyAt stale c (pathKey path) d" and w: "w < length (workers c)" "up (workers c ! w)"
  defines "ent \<equiv> helloEntry path (entries c ! d)"
  assumes ws: "sameWorkers (workers c) ws"
    "\<And>x j. x < length (workers c) \<Longrightarrow> j \<in> set (running (ws ! x)) \<longleftrightarrow>
       j \<in> set (running (workers c ! x)) \<and> (j = d \<longrightarrow> x = w) \<or> j = d \<and> x = w"
    and X: "qview X = (qview (systems c))(esystem ent := (qview (systems c) (esystem ent))(d := None))"
    and c': "entries c' = (entries c)[d := Some (ent\<lparr>eworker := w, assignId := aid\<rparr>)]" "workers c' = ws" "systems c' = X"
      "follows c' = follows c" "cfg c' = cfg c"
  shows "slotOk c' j"
proof -
  have d: "d < length (entries c)" and sl: "\<And>j. slotOk c j" and ev: "eview (entries c) d = entries c ! d"
    and small: "length (workers c) < noWorker" using r by (simp_all add: readyAt_def workersOk_def eview_def)
  show ?thesis
  proof (cases "j = d")
    case False
    show ?thesis
      by (rule slotOk_frame [OF sl [of j]])
        (use False d small sameWorkersD(1,2) [OF ws(1)] ws(2) in \<open>auto simp: c' X\<close>)
  next
    case True
    have "qview X s d = None" for s
      using slotOkD(1) [OF sl [of d]] slotOk_None(1) [OF sl [of d]] ev
      by (cases "entries c ! d") (auto simp: X ent_def helloEntry_def)
    moreover have "entryOk c' d (ent\<lparr>eworker := w, assignId := aid\<rparr>)"
    proof (cases "entries c ! d")
      case None
      then show ?thesis using w small sameWorkersD(1,2) [OF ws(1)]
        by (simp add: ent_def helloEntry_def entry0_def entryOk_def c')
    next
      case (Some e)
      then have "entryOk c d e" using slotOkD(3) [OF sl [of d], of e] ev by simp
      then show ?thesis using Some w small sameWorkersD(1,2) [OF ws(1)]
        by (simp add: ent_def helloEntry_def entryOk_def c')
    qed
    moreover have "d \<in> set (running (ws ! x)) \<longleftrightarrow> x = w" if "x < length ws" for x
      using ws(2) [of x d] that sameWorkersD(1) [OF ws(1)] by auto
    moreover have "w \<noteq> noWorker" using w(1) small by simp
    ultimately show ?thesis using True d by (simp add: slotOk_def c')
  qed
qed

text \<open>Reporting a derivation assigns it to the reporter; followers that waited for it or were
  told another worker are to be told again.\<close>

definition reports :: "worker_id \<Rightarrow> string set \<Rightarrow> core \<Rightarrow> core \<Rightarrow> (drv_id \<times> worker_id) list \<Rightarrow> bool" where
  "reports w P c c' sups \<longleftrightarrow>
     (\<forall>j e. eview (entries c) j = Some e \<longrightarrow> (\<exists>e'. eview (entries c') j = Some e' \<and>
        followers e' = followers e \<and> drvPath e' = drvPath e \<and>
        (eworker e' = eworker e \<or> eworker e' = w \<and> (followers e \<noteq> [] \<longrightarrow> j \<in> fst ` set sups)))) \<and>
     (\<forall>j e'. eview (entries c) j = None \<longrightarrow> eview (entries c') j = Some e' \<longrightarrow> followers e' = []) \<and>
     (\<forall>j e'. eview (entries c') j = Some e' \<longrightarrow> eworker e' = w \<longrightarrow>
        pathKey (drvPath e') \<in> P \<or> (\<exists>e. eview (entries c) j = Some e \<and> eworker e = w))"

lemma helloAt_ok:
  assumes r: "readyAt stale c (pathKey path) d" and w: "w < length (workers c)" "up (workers c ! w)" "w \<in> stale"
    and z: "zeroFree w c"
  shows "wp (helloAt w path aid d)
    (\<lambda>sups c'. coreInv stale c' \<and> zeroFree w c' \<and> follows c' = follows c \<and> sameWorkers (workers c) (workers c') \<and>
       reports w {pathKey path} c c' sups \<and>
       (\<exists>e. eview (entries c') d = Some e \<and> eworker e = w \<and> assignId e = aid \<and> pathKey (drvPath e) = pathKey path))
    noThrow c" (is "wp _ ?Q _ _")
proof -
  define ent where "ent = helloEntry path (entries c ! d)"
  define ent' where "ent' = ent\<lparr>eworker := w, assignId := aid\<rparr>"
  define sups where "sups = (if eworker ent \<noteq> noWorker \<and> eworker ent \<noteq> w then [(d, eworker ent)]
    else if eworker ent = noWorker \<and> followers ent \<noteq> [] then [(d, noWorker)] else [])"
  have d: "d < length (entries c)" and sl: "\<And>j. slotOk c j" and ev: "eview (entries c) d = entries c ! d"
    and ids: "\<And>e. pathKey (drvPath e) = pathKey path \<Longrightarrow> idsOk (drvIds c) (freeIds c) ((entries c)[d := Some e])"
    and small: "length (workers c) < noWorker" using r by (simp_all add: readyAt_def workersOk_def eview_def)
  have key: "pathKey (drvPath ent) = pathKey path"
    using r ev by (auto simp: ent_def helloEntry_def readyAt_def split: option.split)
  let ?c2 = "c\<lparr>entries := (entries c)[d := Some ent]\<rparr>"
  have base2: "baseOk stale ?c2" using r ids [OF key] by (simp add: baseOk_def readyAt_def)
  have l: "eworker ent \<noteq> noWorker \<Longrightarrow> eworker ent < length (workers ?c2)"
    "\<And>x. x < length (workers ?c2) \<Longrightarrow> d \<in> set (running (workers ?c2 ! x)) \<longleftrightarrow> x = eworker ent"
    using slotOkD(2,3) [OF sl [of d]] slotOk_None(2) [OF sl [of d]] ev small
    by (auto simp: ent_def helloEntry_def entry0_def entryOk_def split: option.splits)
  have z2: "zeroFree w ?c2" using z by (simp add: zeroFree_def)
  have "wp (if eworker ent \<noteq> noWorker \<and> eworker ent \<noteq> w then dropRunning (eworker ent) d else ret ())
     (\<lambda>_. wp (bnd (putSlot d (Some ent')) (\<lambda>_. bnd (onQueue (esystem ent) (herase d)) (\<lambda>_.
        bnd (workerAt w) (\<lambda>wkr. bnd (putWorker w (wkr\<lparr>running := (if d \<in> set (running wkr) then running wkr else running wkr @ [d])\<rparr>))
        (\<lambda>_. ret sups))))) ?Q noThrow) noThrow ?c2"
  proof (rule wp_mono [OF loser_ok [OF base2 z2 l]], assumption, assumption, goal_cases)
    case (1 _ c3)
    then obtain n ws X where c3: "c3 = c\<lparr>entries := (entries c)[d := Some ent], workersUp := n, workers := ws, systems := X\<rparr>"
      "baseOk stale c3" "zeroFree w c3" "qview X = qview (systems c)" "sameWorkers (workers c) ws"
      and run: "\<And>x j. x < length (workers c) \<Longrightarrow> j \<in> set (running (ws ! x)) \<longleftrightarrow> j \<in> set (running (workers c ! x)) \<and> (j = d \<longrightarrow> x = w)"
      by auto
    define wkr where "wkr = (ws ! w)\<lparr>running := (if d \<in> set (running (ws ! w)) then running (ws ! w) else running (ws ! w) @ [d])\<rparr>"
    have w3: "w < length ws" "up (ws ! w)" using w sameWorkersD(1,2) [OF c3(5)] by simp_all
    let ?c4 = "c3\<lparr>entries := (entries c)[d := Some ent']\<rparr>"
    have "wp (onQueue (esystem ent) (herase d)) (\<lambda>_ c5. ?Q sups (c5\<lparr>workers := ws[w := wkr]\<rparr>) \<and> workers c5 = ws) noThrow ?c4"
    proof (rule wp_onQueue_herase, goal_cases)
      case 1
      then show ?case using c3(2) by (simp add: baseOk_def)
    next
      case (2 Y)
      let ?c5 = "?c4\<lparr>systems := Y, workers := ws[w := wkr]\<rparr>"
      have fv: "fview Y = fview X" and qv: "qview Y = (qview (systems c))(esystem ent := (qview (systems c) (esystem ent))(d := None))"
        using 2 c3(1,4) by simp_all
      have W: "workersOk (workerIds c) ws n" using baseOkD(2) [OF c3(2)] c3(1) by simp
      have "workersOk (workerIds c) (ws[w := wkr]) n"
        using workersOkD(3-6) [OF W w3(1)] w3 by (intro workersOk_update [OF W w3(1)]) (auto simp: wkr_def)
      moreover have "freeOk stale (ws[w := wkr]) (fview Y)"
        unfolding fv using baseOkD(4) [OF c3(2)] c3(1,3) w(3) w3(1)
        by (intro freeOk_zero) (auto simp: zeroFree_def wkr_def)
      ultimately have base5: "baseOk stale ?c5"
        using ids [of ent'] key 2(1) by (simp add: baseOk_def c3(1) ent'_def)
      have same: "sameWorkers (workers c) (ws[w := wkr])"
        using sameWorkers_trans [OF c3(5) sameWorkers_update [OF w3(1)]] unfolding wkr_def .
      have run5: "j \<in> set (running (ws[w := wkr] ! x)) \<longleftrightarrow>
          j \<in> set (running (workers c ! x)) \<and> (j = d \<longrightarrow> x = w) \<or> j = d \<and> x = w" if "x < length (workers c)" for x j
        using run [OF that, of j] w3(1) by (auto simp: nth_update_if wkr_def)
      have "slotOk ?c5 j" for j
        by (rule helloSlot [OF r w(1,2) same run5 qv [unfolded ent_def]]) (simp_all add: c3(1) ent'_def ent_def)
      then have "coreInv stale ?c5" using base5 by (simp add: coreInvI)
      moreover have "zeroFree w ?c5" using c3(1,3) by (simp add: zeroFree_def fv)
      moreover have "reports w {pathKey path} c ?c5 sups"
        using d ev key by (auto simp: reports_def c3(1) ent'_def ent_def helloEntry_def entry0_def sups_def)
      ultimately show ?case using same d key c3(1) by (simp add: ent'_def)
    qed
    then show ?case using w3 c3(1) w(1)
      by (simp add: wp_simps, elim wp_mono) (auto simp: wkr_def)
  qed simp
  then show ?thesis using d
    by (simp only: helloAt_def wp_bnd wp_slotAt wp_putSlot wp_Let if_True ent'_def sups_def ent_def helloEntry_def)
qed


definition assignedTo :: "worker_id \<Rightarrow> core \<Rightarrow> string \<Rightarrow> bool" where
  "assignedTo w c path \<longleftrightarrow>
     (\<exists>d e. findDrv c path = Some d \<and> eview (entries c) d = Some e \<and> eworker e = w)"

lemma reportsD:
  assumes "reports w P c c' sups"
  shows "eview (entries c) j = Some e \<Longrightarrow> \<exists>e'. eview (entries c') j = Some e' \<and> followers e' = followers e \<and>
      drvPath e' = drvPath e \<and> (eworker e' = eworker e \<or> eworker e' = w \<and> (followers e \<noteq> [] \<longrightarrow> j \<in> fst ` set sups))"
    "eview (entries c) j = None \<Longrightarrow> eview (entries c') j = Some e' \<Longrightarrow> followers e' = []"
    "eview (entries c') j = Some e' \<Longrightarrow> eworker e' = w \<Longrightarrow>
      pathKey (drvPath e') \<in> P \<or> (\<exists>e. eview (entries c) j = Some e \<and> eworker e = w)"
  using assms by (simp_all add: reports_def)

lemma reports_trans:
  assumes 1: "reports w P c c1 s1" and 2: "reports w P' c1 c2 s2"
  shows "reports w (P \<union> P') c c2 (s1 @ s2)"
  unfolding reports_def
proof (intro conjI allI impI)
  fix j e assume "eview (entries c) j = Some e"
  from reportsD(1) [OF 1 this] obtain e1 where e1: "eview (entries c1) j = Some e1" "followers e1 = followers e"
    "drvPath e1 = drvPath e" "eworker e1 = eworker e \<or> eworker e1 = w \<and> (followers e \<noteq> [] \<longrightarrow> j \<in> fst ` set s1)" by blast
  from reportsD(1) [OF 2 this(1)] obtain e2 where "eview (entries c2) j = Some e2" "followers e2 = followers e1"
    "drvPath e2 = drvPath e1" "eworker e2 = eworker e1 \<or> eworker e2 = w \<and> (followers e1 \<noteq> [] \<longrightarrow> j \<in> fst ` set s2)" by blast
  with e1 show "\<exists>e'. eview (entries c2) j = Some e' \<and> followers e' = followers e \<and> drvPath e' = drvPath e \<and>
      (eworker e' = eworker e \<or> eworker e' = w \<and> (followers e \<noteq> [] \<longrightarrow> j \<in> fst ` set (s1 @ s2)))" by auto
next
  fix j e' assume "eview (entries c) j = None" "eview (entries c2) j = Some e'"
  then show "followers e' = []"
    using reportsD(2) [OF 1] reportsD(1,2) [OF 2, of j] by (cases "eview (entries c1) j") auto
next
  fix j e' assume e': "eview (entries c2) j = Some e'" "eworker e' = w"
  from reportsD(3) [OF 2 e'] show "pathKey (drvPath e') \<in> P \<union> P' \<or> (\<exists>e. eview (entries c) j = Some e \<and> eworker e = w)"
  proof
    assume "\<exists>e. eview (entries c1) j = Some e \<and> eworker e = w"
    then obtain e where e: "eview (entries c1) j = Some e" "eworker e = w" by blast
    from reportsD(1) [OF 2 e(1)] e' have "drvPath e' = drvPath e" by auto
    then show ?thesis using reportsD(3) [OF 1 e] by auto
  qed blast
qed

lemma reports_assigned:
  assumes "reports w P c c' sups" "coreInv S c" "coreInv S' c'" "assignedTo w c path"
  shows "assignedTo w c' path"
proof -
  from assms(4) obtain d e where d: "findDrv c path = Some d" "eview (entries c) d = Some e" "eworker e = w"
    by (auto simp: assignedTo_def)
  from reportsD(1) [OF assms(1) d(2)] obtain e' where e': "eview (entries c') d = Some e'" "drvPath e' = drvPath e" "eworker e' = w"
    using d(3) by auto
  have "pathKey (drvPath e) = pathKey path"
    using idsOkD(1) [OF coreInvD(1) [OF assms(2)], of "pathKey path" d] d(1,2) by (auto simp: findDrv_def)
  then have "findDrv c' path = Some d"
    using idsOkD(1) [OF coreInvD(1) [OF assms(3)], of "pathKey path" d] e' by (auto simp: findDrv_def)
  with e' show ?thesis by (auto simp: assignedTo_def)
qed

lemma helloRunning_ok:
  assumes "coreInv stale c" "w < length (workers c)" "up (workers c ! w)" "w \<in> stale" "zeroFree w c"
  shows "wp (helloRunning w items sups0)
    (\<lambda>sups c'. coreInv stale c' \<and> zeroFree w c' \<and> follows c' = follows c \<and> sameWorkers (workers c) (workers c') \<and>
       (\<exists>more. sups = sups0 @ more \<and> reports w (pathKey ` fst ` set items) c c' more) \<and> (\<forall>(p, a) \<in> set items. assignedTo w c' p))
    (\<lambda>x c'. x = NixError ''scheduler: derivation table full'' \<and> coreInv stale c') c"
  using assms
proof (induction items arbitrary: c sups0)
  case Nil
  have "reports w {} c c []" by (simp add: reports_def)
  then show ?case using Nil by (simp add: wp_simps sameWorkers_refl)
next
  case (Cons item items)
  obtain p a where item: "item = (p, a)" by (cases item)
  show ?case unfolding item helloRunning.simps wp_bnd
  proof (rule wp_drvId_ready [OF Cons.prems(1)], unfold Let_def, intro impI)
    fix ids es fr d
    let ?c = "c\<lparr>freeIds := fr, entries := es, drvIds := ids\<rparr>"
    assume r: "readyAt stale ?c (pathKey p) d" and ev: "eview es = eview (entries c)"
    have pre: "w < length (workers ?c)" "up (workers ?c ! w)" "zeroFree w ?c"
      using Cons.prems(2,3,5) by (simp_all add: zeroFree_def)
    show "wp (helloAt w p a d) (\<lambda>more. wp (helloRunning w items (sups0 @ more))
        (\<lambda>sups c'. coreInv stale c' \<and> zeroFree w c' \<and> follows c' = follows c \<and> sameWorkers (workers c) (workers c') \<and>
           (\<exists>more. sups = sups0 @ more \<and> reports w (pathKey ` fst ` set ((p, a) # items)) c c' more) \<and> (\<forall>(p, a) \<in> set ((p, a) # items). assignedTo w c' p))
        (\<lambda>x c'. x = NixError ''scheduler: derivation table full'' \<and> coreInv stale c'))
      (\<lambda>x c'. x = NixError ''scheduler: derivation table full'' \<and> coreInv stale c') ?c"
    proof (rule wp_mono [OF helloAt_ok [OF r pre(1,2) Cons.prems(4) pre(3)]], goal_cases)
      case (1 more c1)
      then have c1: "coreInv stale c1" "zeroFree w c1" "follows c1 = follows c" "sameWorkers (workers c) (workers c1)"
        and rep: "reports w {pathKey p} c c1 more" using ev by (auto simp: reports_def)
      from 1 obtain e where e: "eview (entries c1) d = Some e" "eworker e = w" "pathKey (drvPath e) = pathKey p" by blast
      then have "findDrv c1 p = Some d" using idsOkD(1) [OF coreInvD(1) [OF c1(1)]] by (auto simp: findDrv_def)
      with e have asg: "assignedTo w c1 p" by (auto simp: assignedTo_def)
      have "w < length (workers c1)" "up (workers c1 ! w)"
        using sameWorkersD(1,2) [OF c1(4)] Cons.prems(2,3) by simp_all
      from Cons.IH [OF c1(1) this Cons.prems(4) c1(2), of "sups0 @ more"]
      show ?case
      proof (rule wp_mono, goal_cases)
        case (1 sups c2)
        then obtain m2 where m2: "sups = sups0 @ more @ m2" "reports w (pathKey ` fst ` set items) c1 c2 m2" by auto
        then have "\<exists>m. sups = sups0 @ m \<and> reports w (pathKey ` fst ` set ((p, a) # items)) c c2 m"
          using reports_trans [OF rep m2(2)] by auto
        moreover have "assignedTo w c2 p" using reports_assigned [OF m2(2) c1(1) _ asg] 1 by blast
        ultimately show ?case using 1 c1(3) sameWorkers_trans [OF c1(4)] by auto
      qed simp
    qed simp
  qed (use Cons.prems(1) in simp)
qed


lemma afterGone_other:
  "afterGone w slot = Some e \<Longrightarrow> w \<noteq> noWorker \<Longrightarrow> eworker e \<noteq> w"
  by (auto simp: afterGone_def split: option.splits if_splits)

text \<open>After a Hello the worker is up as it said; what it reports is assigned to it, no wanted
  derivation is lost, and whoever follows one that is now on this worker is told again.\<close>

definition helloPost :: "helloInfo \<Rightarrow> core \<Rightarrow> worker_id \<Rightarrow> (drv_id \<times> worker_id) list \<Rightarrow> core \<Rightarrow> bool" where
  "helloPost info c w sups c' \<longleftrightarrow>
     w < length (workers c') \<and> waddr (workers c' ! w) = hiAddr info \<and> up (workers c' ! w) \<and> \<not> draining (workers c' ! w) \<and>
     wsystems (workers c' ! w) = hiSystems info \<and> wfeatures (workers c' ! w) = hiFeatures info \<and>
     maxJobs (workers c' ! w) = int (min (hiMaxJobs info) 63) \<and> follows c' = follows c \<and>
     (\<forall>(p, a) \<in> set (hiRunning info). assignedTo w c' p) \<and>
     (\<forall>j e. eview (entries c') j = Some e \<longrightarrow> eworker e = w \<longrightarrow> pathKey (drvPath e) \<in> pathKey ` fst ` set (hiRunning info)) \<and>
     (\<forall>j e. eview (entries c) j = Some e \<longrightarrow> followers e \<noteq> [] \<longrightarrow>
        (\<exists>e'. eview (entries c') j = Some e' \<and> followers e' = followers e)) \<and>
     (\<forall>j e. eview (entries c') j = Some e \<longrightarrow> followers e \<noteq> [] \<longrightarrow> eworker e = w \<longrightarrow> j \<in> fst ` set sups)"

lemma helloDown_ok:
  assumes inv: "coreInv stale c" and w: "w < length (workers c)"
  shows "wp (if up (workers c ! w) then workerGone w else ret ())
    (\<lambda>_ c'. coreInv stale c' \<and> length (workers c') = length (workers c) \<and> waddr (workers c' ! w) = waddr (workers c ! w) \<and>
       \<not> up (workers c' ! w) \<and> follows c' = follows c \<and> (\<forall>j. eview (entries c') j = afterGone w (eview (entries c) j)))
    noThrow c"
proof (cases "up (workers c ! w)")
  case True
  then show ?thesis using wp_mono [OF workerGone_ok [OF inv w]] w
    by simp (rule wp_mono [OF workerGone_ok [OF inv w]], auto intro: coreInv_mono)
next
  case False
  then have "running (workers c ! w) = []" using workersOkD(4) [OF coreInvD(2) [OF inv] w] by simp
  then have "afterGone w (eview (entries c) j) = eview (entries c) j" for j
    using slotOkD(2) [OF coreInvD(5) [OF inv] _ w] by (auto simp: afterGone_def split: option.split)
  then show ?thesis using False inv by (simp add: wp_simps)
qed

lemma helloPost_intro:
  assumes gone: "\<And>j. eview (entries c3) j = afterGone w (eview (entries c) j)" and nw: "w \<noteq> noWorker"
    and rep: "reports w (pathKey ` fst ` set (hiRunning info)) c3 c4 sups" and w: "w < length (workers c4)" "waddr (workers c4 ! w) = hiAddr info"
      "up (workers c4 ! w)" "\<not> draining (workers c4 ! w)" "wsystems (workers c4 ! w) = hiSystems info"
      "wfeatures (workers c4 ! w) = hiFeatures info" "maxJobs (workers c4 ! w) = int (min (hiMaxJobs info) 63)"
    and rest: "follows c4 = follows c" "\<forall>(p, a) \<in> set (hiRunning info). assignedTo w c4 p"
  shows "helloPost info c w sups c4"
proof -
  have "\<exists>e'. eview (entries c4) j = Some e' \<and> followers e' = followers e"
    if "eview (entries c) j = Some e" "followers e \<noteq> []" for j e
  proof -
    have "\<exists>e3. eview (entries c3) j = Some e3 \<and> followers e3 = followers e"
      using that gone [of j] by (auto simp: afterGone_def)
    then show ?thesis using reportsD(1) [OF rep] by fastforce
  qed
  moreover have "j \<in> fst ` set sups" if e: "eview (entries c4) j = Some e" "followers e \<noteq> []" "eworker e = w" for j e
  proof (cases "eview (entries c3) j")
    case None
    then show ?thesis using reportsD(2) [OF rep None e(1)] e(2) by simp
  next
    case (Some e3)
    then have "eworker e3 \<noteq> w" using gone [of j] afterGone_other nw by auto
    then show ?thesis using reportsD(1) [OF rep Some] e by auto
  qed
  moreover have "pathKey (drvPath e) \<in> pathKey ` fst ` set (hiRunning info)"
    if e: "eview (entries c4) j = Some e" "eworker e = w" for j e
    using reportsD(3) [OF rep e] gone [of j] afterGone_other nw by metis
  ultimately show ?thesis using w rest by (simp add: helloPost_def)
qed

lemma hello_refresh:
  assumes inv: "coreInv (insert w stale) c4" and w: "w < length (workers c4)" and post: "helloPost info c w sups c4"
  shows "wp (refreshFree w) (\<lambda>_ c'. coreInv (stale - {w}) c' \<and> helloPost info c w sups c') noThrow c4"
proof -
  have wk: "workersOk (workerIds c4) ((workers c4)[w := workers c4 ! w]) (workersUp c4)"
    using coreInvD(2) [OF inv] by simp
  from refresh_ok [OF coreInvD(6) [OF inv] w refl wk]
  show ?thesis
  proof (simp, elim wp_mono, goal_cases)
    case (1 _ c5)
    then obtain X where X: "c5 = c4\<lparr>systems := X\<rparr>" "qview X = qview (systems c4)" by blast
    have "slotOk c5 d" for d using coreInvD(5) [OF inv, of d] X by (subst slotOk_cong [of _ c4]) simp_all
    then have "coreInv (stale - {w}) c5" using 1 by (auto intro!: coreInvI intro: baseOk_mono)
    then show ?case using post by (simp add: helloPost_def X(1) assignedTo_def findDrv_def)
  qed
qed

text \<open>The part of \<open>hello\<close> after the worker's id is known.\<close>

lemma helloRest_ok:
  assumes c1: "coreInv stale c1" "w < length (workers c1)" "waddr (workers c1 ! w) = hiAddr info"
    "entries c1 = entries c" "follows c1 = follows c"
    and E: "\<And>x c'. x = NixError ''scheduler: derivation table full'' \<Longrightarrow> coreInv (insert w stale) c' \<Longrightarrow> E x c'"
  shows "wp (if up (workers c1 ! w) then workerGone w else ret ()) (\<lambda>_. wp (helloUp w info)
      (\<lambda>_. wp (helloRunning w (hiRunning info) []) (\<lambda>sups. wp (refreshFree w) (\<lambda>_ c'.
        coreInv (stale - {w}) c' \<and> helloPost info c w sups c') E) E) E) E c1"
proof (rule wp_mono [OF helloDown_ok [OF c1(1,2)]], goal_cases)
  case (1 _ c2)
  have nw: "w \<noteq> noWorker" using c1(2) workersOkD(1) [OF coreInvD(2) [OF c1(1)]] by simp
  from 1 have c2: "coreInv stale c2" "w < length (workers c2)" "\<not> up (workers c2 ! w)" "waddr (workers c2 ! w) = hiAddr info"
    "follows c2 = follows c" "\<And>j. eview (entries c2) j = afterGone w (eview (entries c) j)" using c1 by auto
  show ?case
  proof (rule wp_mono [OF helloUp_ok [OF c2(1-3)]], goal_cases)
    case up: (1 _ c3)
    then have c3: "coreInv (insert w stale) c3" "w < length (workers c3)" "zeroFree w c3" "entries c3 = entries c2"
      "follows c3 = follows c" "up (workers c3 ! w)" using c2 by auto
    show ?case
    proof (rule wp_mono [OF helloRunning_ok [OF c3(1,2,6) insertI1 c3(3)]], goal_cases)
      case run: (1 sups c4)
      then have "helloPost info c w sups c4"
        using up c2 c3(5) nw
        by (intro helloPost_intro [of c3]) (auto simp: c3(4) sameWorkers_def maxSlots_def)
      moreover have "w < length (workers c4)" using run c3(2) by (simp add: sameWorkers_def)
      ultimately show ?case using run by (intro wp_mono [OF hello_refresh]) auto
    qed (use E in auto)
  qed simp
qed simp

lemma hello_ok:
  assumes inv: "coreInv stale c" and room: "Suc (length (workers c)) < noWorker"
  shows "wp (hello info) (\<lambda>(w, sups) c'. coreInv (stale - {w}) c' \<and> helloPost info c w sups c')
    (\<lambda>x c'. x = NixError ''scheduler: Hello without addr'' \<and> hiAddr info = [] \<and> c' = c \<or>
       x = NixError ''scheduler: derivation table full'' \<and> (\<exists>w. coreInv (insert w stale) c')) c"
    (is "wp _ ?Q ?E _")
proof (cases "hiAddr info = []")
  case True
  then show ?thesis by (simp add: hello_def wp_simps)
next
  case False
  show ?thesis unfolding hello_def if_not_P [OF False] wp_bnd
  proof (rule wp_mono [OF workerId_ok [OF inv room]], goal_cases)
    case (1 w c1)
    have "wp (if up (workers c1 ! w) then workerGone w else ret ()) (\<lambda>_. wp (helloUp w info)
      (\<lambda>_. wp (helloRunning w (hiRunning info) []) (\<lambda>sups. wp (refreshFree w) (\<lambda>_ c'. ?Q (w, sups) c') ?E) ?E) ?E) ?E c1"
      using helloRest_ok [of stale c1 w info c ?E] 1 by (simp add: exI [of _ w])
    then show ?case using 1 by (simp only: wp_workerAt if_True wp_bnd wp_ret)
  qed simp
qed

end
