(* ===== verification/SchedDispatch.thy ===== *)
theory SchedDispatch
  imports SchedOps
begin

text \<open>
  Choosing workers (\<open>pick\<close>, \<open>dispatch\<close>) and telling clients what can be placed
  (\<open>placeabilityChanges\<close>).  \<open>pick\<close> returns a worker with a free slot that offers what the
  derivation needs, and only fails when there is none it may use (\<open>stuck\<close>); the loop of
  \<open>dispatch\<close> ends within its fuel, assigns the most urgent derivations first and leaves only
  stuck ones behind.
\<close>


section \<open>Choosing a worker\<close>

lemma free_pos:
  assumes "freeOk stale ws F" "F s w = Some v" "0 < v"
  shows "w < length ws" "s \<in> set (wsystems (ws ! w))" "v = refreshVal (ws ! w)"
  using assms unfolding freeOk_def by (metis less_irrefl)+

lemma free_exact:
  assumes "freeOk stale ws F" "w < length ws" "w \<notin> stale" "s \<in> set (wsystems (ws ! w))"
  shows "F s w = Some (refreshVal (ws ! w))"
proof -
  obtain v where v: "F s w = Some v" using assms(1,2,4) unfolding freeOk_def by blast
  with assms show ?thesis unfolding freeOk_def by (metis (full_types))
qed

lemma fget_fview:
  "sysOk sts \<Longrightarrow> fget (sfree (sysLookup sts s)) w = (case fview sts s w of None \<Rightarrow> 0 | Some v \<Rightarrow> v)"
  unfolding fview_def by (rule fi.get_ok [OF sysOkD(2)])

lemma freeOf_cases:
  assumes "baseOk stale c"
  shows "freeOf c w = (case wsystems (workers c ! w) of [] \<Rightarrow> 0
    | s # _ \<Rightarrow> (case fview (systems c) s w of None \<Rightarrow> 0 | Some v \<Rightarrow> v))"
proof -
  have "(case map_of (systems c) s of None \<Rightarrow> 0 | Some st \<Rightarrow> fget (sfree st) w) = fget (sfree (sysLookup (systems c) s)) w" for s
    by (simp add: sysLookup_def sysState0_def findex0_def fget_def split: option.split)
  then show ?thesis
    using fget_fview [OF baseOkD(3) [OF assms]] by (simp add: freeOf_def split: list.split)
qed

lemma freeOf_pos: "baseOk stale c \<Longrightarrow> 0 < freeOf c w \<Longrightarrow> w < length (workers c) \<and> 0 < refreshVal (workers c ! w)"
  using free_pos [OF baseOkD(4), of stale c] by (auto simp: freeOf_cases split: list.splits option.splits)

lemma freeOf_exact:
  "baseOk stale c \<Longrightarrow> w < length (workers c) \<Longrightarrow> w \<notin> stale \<Longrightarrow> s \<in> set (wsystems (workers c ! w)) \<Longrightarrow>
   freeOf c w = refreshVal (workers c ! w)"
  using free_exact [OF baseOkD(4), of stale c w "hd (wsystems (workers c ! w))"]
  by (cases "wsystems (workers c ! w)") (auto simp: freeOf_cases)

text \<open>The loops that look for the best worker are folds of this shape.\<close>

lemma foldl_best:
  fixes f :: "worker_id \<Rightarrow> int" and P :: "worker_id \<Rightarrow> bool"
  defines "step \<equiv> \<lambda>best wid. if P wid \<and> better f wid best then Some wid else best"
  shows "(case foldl step acc xs of None \<Rightarrow> acc = None \<and> (\<forall>x \<in> set xs. \<not> P x)
    | Some w \<Rightarrow> (acc = Some w \<or> w \<in> set xs \<and> P w) \<and> (\<forall>x \<in> set xs. P x \<longrightarrow> f x \<le> f w) \<and> (\<forall>a. acc = Some a \<longrightarrow> f a \<le> f w))"
proof (induction xs arbitrary: acc)
  case (Cons x xs)
  show ?case using Cons [of "step acc x"]
    by (auto simp: step_def better_def split: option.splits if_splits)
qed (auto split: option.split)

definition canTake :: "core \<Rightarrow> entry \<Rightarrow> worker_id \<Rightarrow> bool" where
  "canTake c e w \<longleftrightarrow> w < length (workers c) \<and> offers (workers c ! w) e \<and> 0 < refreshVal (workers c ! w)"

lemma offers_system: "offers wkr e \<Longrightarrow> esystem e \<in> set (wsystems wkr)"
  by (simp add: offers_def)

lemma refreshVal_takesWork: "0 < refreshVal wkr \<Longrightarrow> takesWork wkr"
  by (simp add: refreshVal_def split: if_splits)

lemma emptiestFor_some:
  assumes base: "baseOk stale c" and e: "emptiestFor c e = Some w"
  shows "canTake c e w"
proof -
  note F = baseOkD(4) [OF base] and ok = baseOkD(3) [OF base]
  from e obtain st where st: "map_of (systems c) (esystem e) = Some st" by (auto simp: emptiestFor_def split: option.splits)
  then have lk: "sysLookup (systems c) (esystem e) = st" by (simp add: sysLookup_def)
  show ?thesis
  proof (cases "efeatures e = []")
    case True
    then have "emptiest (sfree st) = Some w" using e st by (simp add: emptiestFor_def)
    from fi.emptiest_some [OF _ this] obtain v where "fview (systems c) (esystem e) w = Some v" "0 < v"
      using sysOkD(2) [OF ok, of "esystem e"] by (auto simp: lk fview_def)
    with free_pos [OF F this] True show ?thesis by (simp add: canTake_def offers_def)
  next
    case False
    let ?P = "\<lambda>wid. up (workers c ! wid) \<and> fget (sfree st) wid > 0 \<and> offers (workers c ! wid) e"
    have "foldl (\<lambda>best wid. if ?P wid \<and> better (fget (sfree st)) wid best then Some wid else best) None
        [0..<length (workers c)] = Some w"
      using e st False by (simp add: emptiestFor_def)
    then have w: "w < length (workers c)" "offers (workers c ! w) e" "0 < fget (sfree st) w"
      using foldl_best [where P = ?P and f = "fget (sfree st)" and acc = None and xs = "[0..<length (workers c)]"] by auto
    then obtain v where "fview (systems c) (esystem e) w = Some v" "0 < v"
      using fget_fview [OF ok, of "esystem e" w] by (auto simp: lk split: option.splits)
    with free_pos [OF F this] w show ?thesis by (simp add: canTake_def)
  qed
qed

lemma emptiestFor_none:
  assumes base: "baseOk stale c" and e: "emptiestFor c e = None" and w: "w \<notin> stale"
  shows "\<not> canTake c e w"
proof
  assume can: "canTake c e w"
  note F = baseOkD(4) [OF base] and ok = baseOkD(3) [OF base]
  have fv: "fview (systems c) (esystem e) w = Some (refreshVal (workers c ! w))"
    using free_exact [OF F _ w] can offers_system by (auto simp: canTake_def)
  then obtain st where st: "map_of (systems c) (esystem e) = Some st" using fview_known by blast
  then have lk: "sysLookup (systems c) (esystem e) = st" by (simp add: sysLookup_def)
  have pos: "0 < fget (sfree st) w"
    using fget_fview [OF ok, of "esystem e" w] fv can by (simp add: lk canTake_def)
  show False
  proof (cases "efeatures e = []")
    case True
    then have "emptiest (sfree st) = None" using e st by (simp add: emptiestFor_def)
    then have "fget (sfree st) w \<le> 0"
      using fi.some_free_iff [of "sfree st"] sysOkD(2) [OF ok, of "esystem e"] by (simp add: lk)
    then show False using pos by simp
  next
    case False
    let ?P = "\<lambda>wid. up (workers c ! wid) \<and> fget (sfree st) wid > 0 \<and> offers (workers c ! wid) e"
    have "foldl (\<lambda>best wid. if ?P wid \<and> better (fget (sfree st)) wid best then Some wid else best) None
        [0..<length (workers c)] = None"
      using e st False by (simp add: emptiestFor_def)
    then have "\<not> ?P w" using foldl_best [where P = ?P and f = "fget (sfree st)" and acc = None and xs = "[0..<length (workers c)]"] can by (auto simp: canTake_def)
    moreover have "up (workers c ! w)" using can refreshVal_takesWork by (auto simp: canTake_def takesWork_def)
    ultimately show False using pos can by (simp add: canTake_def)
  qed
qed

lemma avoidStep_foldl:
  "foldl (avoidStep c e) acc xs =
    (foldl (\<lambda>best wid. if (wid \<noteq> avoid e \<and> takesWork (workers c ! wid) \<and> offers (workers c ! wid) e \<and> 0 < freeOf c wid) \<and>
        better (freeOf c) wid best then Some wid else best) (fst acc) xs,
     snd acc \<or> (\<exists>x \<in> set xs. x \<noteq> avoid e \<and> takesWork (workers c ! x) \<and> offers (workers c ! x) e))"
  by (induction xs arbitrary: acc) (auto simp: avoidStep_def Let_def)

text \<open>Nobody can take \<open>e\<close> now: a worker that could, other than stale ones, is the one that gave
  it back, and some other worker serves it.\<close>

definition stuck :: "worker_id set \<Rightarrow> core \<Rightarrow> entry \<Rightarrow> bool" where
  "stuck stale c e \<longleftrightarrow> (\<forall>w. w \<notin> stale \<longrightarrow> canTake c e w \<longrightarrow>
     w = avoid e \<and> (\<exists>x < length (workers c). x \<noteq> w \<and> takesWork (workers c ! x) \<and> offers (workers c ! x) e))"

lemma avoiding_ok:
  assumes base: "baseOk stale c" and av: "canTake c e (avoid e)"
  shows "case avoiding c e of None \<Rightarrow> stuck stale c e | Some w \<Rightarrow> canTake c e w"
proof -
  let ?P = "\<lambda>wid. wid \<noteq> avoid e \<and> takesWork (workers c ! wid) \<and> offers (workers c ! wid) e \<and> 0 < freeOf c wid"
  let ?best = "foldl (\<lambda>best wid. if ?P wid \<and> better (freeOf c) wid best then Some wid else best) None [0..<length (workers c)]"
  let ?others = "\<exists>x \<in> set [0..<length (workers c)]. x \<noteq> avoid e \<and> takesWork (workers c ! x) \<and> offers (workers c ! x) e"
  have eq: "avoiding c e = (if ?best \<noteq> None \<or> ?others then ?best else Some (avoid e))"
    unfolding avoiding_def avoidStep_foldl by (simp only: fst_conv snd_conv prod.case Let_def simp_thms)
  note fb = foldl_best [where P = ?P and f = "freeOf c" and acc = None and xs = "[0..<length (workers c)]"]
  show ?thesis
  proof (cases ?best)
    case (Some w)
    then have "?P w" using fb by simp
    then have "canTake c e w" using freeOf_pos [OF base, of w] by (simp add: canTake_def)
    then show ?thesis using eq Some by simp
  next
    case None
    then have none: "\<And>x. x < length (workers c) \<Longrightarrow> \<not> ?P x" using fb by simp
    show ?thesis
    proof (cases ?others)
      case True
      have "w = avoid e" if "w \<notin> stale" "canTake c e w" for w
        using none [of w] that freeOf_exact [OF base, of w "esystem e"] refreshVal_takesWork [of "workers c ! w"] offers_system
        by (auto simp: canTake_def)
      moreover have "avoiding c e = None" unfolding eq using None True by (simp only: simp_thms if_True)
      ultimately show ?thesis using True by (auto simp: stuck_def)
    next
      case False
      then have "avoiding c e = Some (avoid e)" unfolding eq using None by (simp only: simp_thms if_False)
      then show ?thesis using av by simp
    qed
  qed
qed

lemma candAdd_keys: "fst ` set (candAdd w b cs) = insert w (fst ` set cs)"
  by (induction w b cs rule: candAdd.induct) auto

lemma cands_ok:
  assumes base: "baseOk stale c" and "x \<in> fst ` set (foldl (candStep c e) cs ins)"
  shows "x \<in> fst ` set cs \<or> canTake c e x"
  using assms(2)
proof (induction ins arbitrary: cs)
  case (Cons i ins)
  have "fst ` set (candStep c e cs i) \<subseteq> fst ` set cs \<union> {x. canTake c e x}"
  proof (cases "map_of (lastBuilder c) i")
    case (Some r)
    then show ?thesis using freeOf_pos [OF base, of "fst r"]
      by (cases r) (simp add: candStep_def candAdd_keys canTake_def not_le)
  qed (simp add: candStep_def)
  then show ?case using Cons.IH [of "candStep c e cs i"] Cons.prems by auto
qed simp

lemma pickFrom_in: "pickFrom c e b = b \<or> pickFrom c e b \<in> fst ` set (foldl (candStep c e) [] (inputs e))"
proof -
  have "fst (foldl (\<lambda>(p, bs) (w, by). let scr = score c tf w by in if scr > bs then (w, scr) else (p, bs)) acc cs)
      \<in> insert (fst acc) (fst ` set cs)" for tf acc and cs :: "(worker_id \<times> real) list"
  proof (induction cs arbitrary: acc)
    case (Cons x xs)
    show ?case using Cons [of "(case acc of (p, bs) \<Rightarrow> case x of (w, by) \<Rightarrow>
        let scr = score c tf w by in if scr > bs then (w, scr) else (p, bs))"]
      by (auto simp: Let_def split: prod.splits if_splits)
  qed simp
  from this [of _ "(b, score c (max 1 (real_of_int (freeOf c b))) b 0)"] show ?thesis
    by (fastforce simp: pickFrom_def Let_def)
qed

lemma pick_ok:
  assumes base: "baseOk stale c"
  shows "wp (pick e) (\<lambda>r c'. c' = c \<and> (case r of None \<Rightarrow> stuck stale c e | Some w \<Rightarrow> canTake c e w)) noThrow c"
proof -
  define best where "best = (if emptiestFor c e = Some (avoid e) then avoiding c e else emptiestFor c e)"
  have b: "case best of None \<Rightarrow> stuck stale c e | Some w \<Rightarrow> canTake c e w"
  proof (cases "emptiestFor c e = Some (avoid e)")
    case True
    then show ?thesis using avoiding_ok [OF base emptiestFor_some [OF base True]] by (simp add: best_def)
  next
    case False
    then show ?thesis using emptiestFor_some [OF base] emptiestFor_none [OF base]
      by (auto simp: best_def stuck_def split: option.split)
  qed
  show ?thesis
  proof (cases best)
    case None
    then show ?thesis using b by (simp add: pick_def wp_simps best_def [symmetric])
  next
    case (Some w)
    then have "canTake c e w" using b by simp
    moreover have "canTake c e (pickFrom c e w)"
      using pickFrom_in [of c e w] cands_ok [OF base, of _ e "[]"] \<open>canTake c e w\<close> by auto
    ultimately show ?thesis using Some by (simp add: pick_def wp_simps best_def [symmetric]) (simp add: canTake_def)
  qed
qed


section \<open>One assignment\<close>

lemma stuck_anti:
  assumes "stuck stale c e" "sameWorkers (workers c) (workers c')"
    "\<And>w. w < length (workers c) \<Longrightarrow> refreshVal (workers c' ! w) \<le> refreshVal (workers c ! w)"
  shows "stuck stale c' e"
proof -
  have "canTake c e w" if "canTake c' e w" for w
    using that assms(2) assms(3) [of w] by (fastforce simp: canTake_def sameWorkers_def offers_def)
  moreover have "x < length (workers c) \<Longrightarrow> takesWork (workers c ! x) \<Longrightarrow> offers (workers c ! x) e \<Longrightarrow>
      x < length (workers c') \<and> takesWork (workers c' ! x) \<and> offers (workers c' ! x) e" for x
    using assms(2) by (simp add: sameWorkers_def takesWork_def offers_def)
  ultimately show ?thesis using assms(1) unfolding stuck_def by meson
qed

lemma refreshVal_push: "refreshVal (wkr\<lparr>running := running wkr @ [d]\<rparr>) \<le> refreshVal wkr"
  by (auto simp: refreshVal_def takesWork_def)

lemma assignTo_ok:
  assumes base: "baseOk stale c" and i: "idle c d e" and e: "eworker e = noWorker" "entryOk c d e"
    and q: "\<And>s. qview (systems c) s d = None" and w: "canTake c e w"
  defines "ws \<equiv> (workers c)[w := (workers c ! w)\<lparr>running := running (workers c ! w) @ [d]\<rparr>]"
    and "aid \<equiv> (lastAssignId c + 1) mod 2 ^ 64"
  shows "wp (assignTo d e w) (\<lambda>a c'. a = \<lparr>aDrv = d, aWorker = w, aAssignId = aid, aClients = followers e\<rparr> \<and>
    lastAssignId c' = aid \<and> baseOk stale c' \<and> cfg c' = cfg c \<and> follows c' = follows c \<and>
    entries c' = (entries c)[d := Some (e\<lparr>eworker := w, assignId := aid\<rparr>)] \<and> qview (systems c') = qview (systems c) \<and>
    workers c' = ws \<and> slotOk c' d \<and> (\<forall>j. j \<noteq> d \<longrightarrow> slotOk c j \<longrightarrow> slotOk c' j)) noThrow c"
proof -
  let ?e = "e\<lparr>eworker := w, assignId := aid\<rparr>" and ?wkr = "(workers c ! w)\<lparr>running := running (workers c ! w) @ [d]\<rparr>"
  define c1 where "c1 = c\<lparr>lastAssignId := aid, entries := (entries c)[d := Some ?e]\<rparr>"
  have ev: "eview (entries c) d = Some e" "d < length (entries c)" using i eview_Some by (auto simp: idle_def)
  have wl: "w < length (workers c)" "up (workers c ! w)"
    using w refreshVal_takesWork by (auto simp: canTake_def takesWork_def)
  note W = workersOkD [OF baseOkD(2) [OF base]]
  have "baseOk stale (c\<lparr>entries := (entries c)[d := Some ?e]\<rparr>)" by (rule putSlot_base [OF base ev(1)]) simp
  then have base1: "baseOk stale c1" by (simp add: baseOk_def c1_def)
  have "d \<notin> set (running (workers c ! w))" using i wl by (simp add: idle_def)
  then have wok: "workersOk (workerIds c1) ((workers c1)[w := ?wkr]) (workersUp c1)"
    using W(3-6) [OF wl(1)] wl by (intro workersOk_update) (simp_all add: c1_def baseOkD(2) [OF base])
  have "wp (refreshFree w) (\<lambda>_ c'. lastAssignId c' = aid \<and> baseOk stale c' \<and> cfg c' = cfg c \<and> follows c' = follows c \<and>
      entries c' = (entries c)[d := Some ?e] \<and> qview (systems c') = qview (systems c) \<and> workers c' = ws \<and> slotOk c' d \<and>
      (\<forall>j. j \<noteq> d \<longrightarrow> slotOk c j \<longrightarrow> slotOk c' j)) noThrow (c1\<lparr>workersUp := workersUp c1, workers := (workers c1)[w := ?wkr]\<rparr>)"
  proof (rule wp_mono [OF refresh_ok [OF base1 _ _ wok]], goal_cases)
    case (3 _ c')
    then obtain X where X: "c' = c1\<lparr>workers := ws, systems := X\<rparr>" "qview X = qview (systems c)" "baseOk stale c'"
      by (auto simp: c1_def ws_def intro: baseOk_mono)
    have "slotOk c' j" if "j \<noteq> d" "slotOk c j" for j
      by (rule slotOk_frame [OF that(2)])
        (use that(1) ev(2) wl(1) W(1) in \<open>auto simp: X c1_def ws_def nth_update_if\<close>)
    moreover have "slotOk c' d"
      using i e q ev wl W(1) by (auto simp: slotOk_def X c1_def ws_def idle_def entryOk_def nth_update_if)
    ultimately show ?case using X by (simp add: c1_def)
  qed (use wl in \<open>simp_all add: c1_def\<close>)
  then have "wp (refreshFree w) (\<lambda>_ c'. lastAssignId c' = aid \<and> baseOk stale c' \<and> cfg c' = cfg c \<and> follows c' = follows c \<and>
      entries c' = (entries c)[d := Some ?e] \<and> qview (systems c') = qview (systems c) \<and> workers c' = ws \<and> slotOk c' d \<and>
      (\<forall>j. j \<noteq> d \<longrightarrow> slotOk c j \<longrightarrow> slotOk c' j)) noThrow
      (c\<lparr>lastAssignId := aid, entries := (entries c)[d := Some ?e], workers := ws\<rparr>)"
    by (simp add: c1_def ws_def)
  then show ?thesis using wl
    by (simp add: assignTo_def wp_simps aid_def ws_def)
qed

section \<open>Size of the queues\<close>

definition waiting :: "(string \<times> sysState) list \<Rightarrow> drv_id set" where
  "waiting sts = {d. \<exists>s. qview sts s d \<noteq> None}"

lemma waiting_Un: "waiting sts = (\<Union>s \<in> fst ` set sts. dom (qview sts s))"
  using qview_known by (fastforce simp: waiting_def map_of_eq_None_iff)

lemma finite_waiting: "finite (waiting sts)"
  unfolding waiting_Un qview_def by (intro finite_UN_I hq.finite_dom) simp

lemma queued_card:
  assumes ok: "sysOk (systems c)"
    and disj: "\<And>s t d. qview (systems c) s d \<noteq> None \<Longrightarrow> qview (systems c) t d \<noteq> None \<Longrightarrow> s = t"
  shows "queued c = card (waiting (systems c))"
proof -
  let ?sts = "systems c"
  have dist: "distinct (map fst ?sts)" using ok by (simp add: sysOk_def)
  have "hsize (queue st) = card (dom (qview ?sts n))" if "(n, st) \<in> set ?sts" for n st
  proof -
    have "sysLookup ?sts n = st" using that dist by (simp add: sysLookup_def)
    then show ?thesis using hq.size_ok [OF sysOkD(1) [OF ok, of n]] by (simp add: qview_def)
  qed
  then have "queued c = sum_list (map (\<lambda>n. card (dom (qview ?sts n))) (map fst ?sts))"
    by (auto simp: queued_def comp_def intro!: arg_cong [of _ _ sum_list])
  also have "\<dots> = (\<Sum>n \<in> fst ` set ?sts. card (dom (qview ?sts n)))"
    using dist by (simp only: sum_list_distinct_conv_sum_set set_map)
  also have "\<dots> = card (waiting ?sts)"
    unfolding waiting_Un
  proof (rule card_UN_disjoint [symmetric])
    show "\<forall>n \<in> fst ` set ?sts. finite (dom (qview ?sts n))" by (simp add: qview_def hq.finite_dom)
    show "\<forall>n \<in> fst ` set ?sts. \<forall>m \<in> fst ` set ?sts. n \<noteq> m \<longrightarrow> dom (qview ?sts n) \<inter> dom (qview ?sts m) = {}"
    proof (intro ballI impI equals0I)
      fix n m d assume "n \<noteq> m" "d \<in> dom (qview ?sts n) \<inter> dom (qview ?sts m)"
      then show False using disj [of n d m] by auto
    qed
  qed simp
  finally show ?thesis .
qed

section \<open>The most urgent queue\<close>

lemma foldl_bestStep:
  "(case foldl bestStep acc sts of
      None \<Rightarrow> acc = None \<and> (\<forall>(n, st) \<in> set sts. topKey (queue st) = None \<or> maxFree (sfree st) \<le> 0)
    | Some (n, k) \<Rightarrow>
        (acc = Some (n, k) \<or> (\<exists>st. (n, st) \<in> set sts \<and> topKey (queue st) = Some k \<and> 0 < maxFree (sfree st))) \<and>
        (\<forall>(m, st) \<in> set sts. \<forall>j. topKey (queue st) = Some j \<longrightarrow> 0 < maxFree (sfree st) \<longrightarrow> k \<le> j) \<and>
        (\<forall>a. acc = Some a \<longrightarrow> k \<le> snd a))"
proof (induction sts arbitrary: acc)
  case (Cons x sts)
  obtain n st where x: "x = (n, st)" by (cases x)
  show ?case using Cons [of "bestStep acc x"] unfolding x
    by (auto simp: bestStep_def not_less split: option.splits if_splits prod.splits)
qed (auto split: option.split)


section \<open>The dispatch loop\<close>

text \<open>What the assignments \<open>out\<close> did to the state the loop started in.\<close>

definition outcome :: "core \<Rightarrow> core \<Rightarrow> assign list \<Rightarrow> bool" where
  "outcome c0 c out \<longleftrightarrow>
     cfg c = cfg c0 \<and> follows c = follows c0 \<and> sameWorkers (workers c0) (workers c) \<and> distinct (map aDrv out) \<and>
     (\<forall>d. d \<notin> aDrv ` set out \<longrightarrow> eview (entries c) d = eview (entries c0) d) \<and>
     (\<forall>a \<in> set out. \<exists>e. eview (entries c0) (aDrv a) = Some e \<and> eworker e = noWorker \<and> followers e \<noteq> [] \<and>
        aClients a = followers e \<and>
        eview (entries c) (aDrv a) = Some (e\<lparr>eworker := aWorker a, assignId := aAssignId a\<rparr>) \<and>
        aWorker a < length (workers c0) \<and> takesWork (workers c0 ! aWorker a) \<and> offers (workers c0 ! aWorker a) e) \<and>
     (\<forall>w < length (workers c0). int (length (running (workers c ! w))) \<le>
        max (int (length (running (workers c0 ! w)))) (maxJobs (workers c0 ! w))) \<and>
     map aAssignId out = map (\<lambda>i. (lastAssignId c0 + Suc i) mod 2 ^ 64) [0..<length out] \<and>
     lastAssignId c mod 2 ^ 64 = (lastAssignId c0 + length out) mod 2 ^ 64"

text \<open>An entry that was taken off its queue because nobody can take it.\<close>

definition setAside :: "worker_id set \<Rightarrow> core \<Rightarrow> skipped \<Rightarrow> bool" where
  "setAside stale c sk = (case sk of (s, d, k) \<Rightarrow>
     \<exists>e. idle c d e \<and> eworker e = noWorker \<and> entryOk c d e \<and> (\<forall>t. qview (systems c) t d = None) \<and>
       s = esystem e \<and> k = prio (cfg c) e \<and> stuck stale c e)"

definition loopInv :: "worker_id set \<Rightarrow> core \<Rightarrow> core \<Rightarrow> assign list \<times> skipped list \<Rightarrow> bool" where
  "loopInv stale c0 c acc \<longleftrightarrow>
     baseOk stale c \<and> outcome c0 c (fst acc) \<and> distinct (map (fst \<circ> snd) (snd acc)) \<and>
     (\<forall>d. d \<notin> (fst \<circ> snd) ` set (snd acc) \<longrightarrow> slotOk c d) \<and> (\<forall>sk \<in> set (snd acc). setAside stale c sk)"

lemma outcome_refl: "outcome c c []"
  by (simp add: outcome_def sameWorkers_refl)

lemma loopInv_start: "coreInv stale c \<Longrightarrow> loopInv stale c c ([], [])"
  by (simp add: loopInv_def coreInv_def outcome_refl)

lemma canTake_room:
  assumes "canTake c e w" "baseOk stale c"
  shows "int (length (running (workers c ! w))) < maxJobs (workers c ! w)"
proof -
  have "0 < refreshVal (workers c ! w)" "w < length (workers c)" using assms(1) by (simp_all add: canTake_def)
  then show ?thesis using workersOkD(6) [OF baseOkD(2) [OF assms(2)], of w]
    by (simp add: refreshVal_def maxSlots_def split: if_splits)
qed

lemma sameWorkers_offers:
  assumes "sameWorkers ws ws'" "x < length ws"
  shows "takesWork (ws' ! x) = takesWork (ws ! x)" "offers (ws' ! x) e = offers (ws ! x) e"
  using assms by (simp_all add: sameWorkers_def takesWork_def offers_def)

lemma outcome_assign:
  assumes out: "outcome c0 c out" and base: "baseOk stale c"
    and d: "eview (entries c) d = Some e" "eworker e = noWorker" "followers e \<noteq> []" and w: "canTake c e w"
    and aid: "aid = (lastAssignId c + 1) mod 2 ^ 64"
    and c': "lastAssignId c' = aid" "cfg c' = cfg c" "follows c' = follows c"
      "eview (entries c') = (eview (entries c))(d \<mapsto> e\<lparr>eworker := w, assignId := aid\<rparr>)"
      "workers c' = (workers c)[w := (workers c ! w)\<lparr>running := running (workers c ! w) @ [d]\<rparr>]"
  shows "outcome c0 c' (out @ [\<lparr>aDrv = d, aWorker = w, aAssignId = aid, aClients = followers e\<rparr>])"
proof -
  let ?ws = "(workers c)[w := (workers c ! w)\<lparr>running := running (workers c ! w) @ [d]\<rparr>]"
  have same: "sameWorkers (workers c0) (workers c)" using out by (simp add: outcome_def)
  have wl: "w < length (workers c)" using w by (simp add: canTake_def)
  have new: "d \<notin> aDrv ` set out"
  proof
    assume "d \<in> aDrv ` set out"
    then obtain a e0 where a: "a \<in> set out" "eview (entries c) d = Some (e0\<lparr>eworker := aWorker a, assignId := aAssignId a\<rparr>)"
      "aWorker a < length (workers c0)" using out unfolding outcome_def by blast
    then have "eworker e = aWorker a" using d(1) by simp
    then show False using a(3) d(2) sameWorkersD(1) [OF same] baseOk_small [OF base] by simp
  qed
  have e0: "eview (entries c0) d = Some e" using out new d(1) by (simp add: outcome_def)
  have work: "takesWork (workers c0 ! w)" "offers (workers c0 ! w) e" "w < length (workers c0)"
    using w refreshVal_takesWork [of "workers c ! w"] sameWorkers_offers [OF same, of w] sameWorkersD(1) [OF same]
    by (simp_all add: canTake_def)
  have ids: "aid = (lastAssignId c0 + Suc (length out)) mod 2 ^ 64"
  proof -
    have "lastAssignId c mod 2 ^ 64 = (lastAssignId c0 + length out) mod 2 ^ 64" using out unfolding outcome_def by blast
    from mod_add_cong [OF this, of 1 1] show ?thesis by (simp add: aid)
  qed
  have "int (length (running (?ws ! x))) \<le> max (int (length (running (workers c0 ! x)))) (maxJobs (workers c0 ! x))"
    if "x < length (workers c0)" for x
    using out that canTake_room [OF w base] same wl by (auto simp: outcome_def nth_update_if sameWorkers_def)
  moreover have "sameWorkers (workers c0) ?ws" by (rule sameWorkers_trans [OF same sameWorkers_update [OF wl]])
  ultimately show ?thesis
    using out new e0 work d ids unfolding outcome_def c' by (auto simp: image_iff)
qed


definition someFree :: "core \<Rightarrow> string \<Rightarrow> bool" where
  "someFree c s \<longleftrightarrow> (\<exists>w v. fview (systems c) s w = Some v \<and> 0 < v)"

lemma bestSystem_some:
  assumes ok: "sysOk (systems c)" and best: "bestSystem c = Some s"
  obtains d k where "top (queue (sysLookup (systems c) s)) = Some d" "qview (systems c) s d = Some k"
    "\<And>t d' k'. qview (systems c) t d' = Some k' \<Longrightarrow> someFree c t \<Longrightarrow> k \<le> k'" "someFree c s"
proof -
  let ?sts = "systems c"
  have dist: "distinct (map fst ?sts)" using ok by (simp add: sysOk_def)
  have lk: "sysLookup ?sts n = st" if "(n, st) \<in> set ?sts" for n st
    using that dist by (simp add: sysLookup_def)
  from best obtain k where k: "foldl bestStep None ?sts = Some (s, k)" by (auto simp: bestSystem_def)
  note fb = foldl_bestStep [of None ?sts, unfolded k option.case prod.case]
  then obtain st where st: "(s, st) \<in> set ?sts" "topKey (queue st) = Some k" "0 < maxFree (sfree st)" by blast
  have least: "k \<le> j" if "(m, u) \<in> set ?sts" "topKey (queue u) = Some j" "0 < maxFree (sfree u)" for m u j
    using fb that by fast
  have inv: "hinv (queue (sysLookup ?sts n))" for n using sysOkD(1) [OF ok] .
  obtain d where d: "top (queue st) = Some d" using st(2) hq.topKey_none [of "queue st"] by (cases "top (queue st)") auto
  have "halpha (queue st) d = Some k" using hq.top_some [OF inv [of s, unfolded lk [OF st(1)]] d] st(2) by auto
  moreover have "someFree c s"
    using fi.maxFree_pos [OF sysOkD(2) [OF ok, of s]] st(3) by (simp add: someFree_def lk [OF st(1)] fview_def)
  moreover have "k \<le> k'" if q: "qview ?sts t d' = Some k'" and fr: "someFree c t" for t d' k'
  proof -
    obtain u where u: "(t, u) \<in> set ?sts" using qview_known [OF q] map_of_SomeD by fastforce
    have "top (queue u) \<noteq> None" using q hq.top_none [of "queue u"] by (auto simp: qview_def lk [OF u])
    then obtain j d2 where j: "topKey (queue u) = Some j" "top (queue u) = Some d2" using hq.topKey_none [of "queue u"] by auto
    have "0 < maxFree (sfree u)"
      using fi.maxFree_pos [OF sysOkD(2) [OF ok, of t]] fr by (simp add: someFree_def lk [OF u] fview_def)
    then have "k \<le> j" using least [OF u j(1)] by simp
    also have "j \<le> k'"
    proof -
      have "halpha (queue u) d' = Some k'" using q by (simp add: qview_def lk [OF u])
      with hq.top_some [OF inv [of t, unfolded lk [OF u]] j(2)] j(1) have "(j, d2) \<le> (k', d')" by (metis option.inject)
      then show ?thesis by (auto simp: less_eq_prod_def)
    qed
    finally show ?thesis .
  qed
  ultimately show ?thesis using that [of d k] d by (auto simp: qview_def lk [OF st(1)])
qed

lemma bestSystem_none:
  assumes base: "baseOk stale c" and none: "bestSystem c = None" and q: "qview (systems c) (esystem e) d = Some k"
  shows "stuck stale c e"
proof -
  let ?sts = "systems c" and ?s = "esystem e"
  note ok = baseOkD(3) [OF base]
  from qview_known [OF q] obtain st where st: "map_of ?sts ?s = Some st" by auto
  then have lk: "sysLookup ?sts ?s = st" and mem: "(?s, st) \<in> set ?sts" by (simp_all add: sysLookup_def map_of_SomeD)
  have "top (queue st) \<noteq> None" using q hq.top_none [of "queue st"] by (auto simp: qview_def lk)
  then have "topKey (queue st) \<noteq> None" using hq.topKey_none [of "queue st"] by simp
  moreover have "foldl bestStep None ?sts = None" using none by (simp add: bestSystem_def)
  ultimately have "\<not> 0 < maxFree (sfree st)" using foldl_bestStep [of None ?sts] mem by auto
  then have no: "\<not> (\<exists>w v. fview ?sts ?s w = Some v \<and> 0 < v)"
    using fi.maxFree_pos [OF sysOkD(2) [OF ok, of ?s]] by (simp add: lk fview_def)
  have "\<not> canTake c e w" if "w \<notin> stale" for w
    using no free_exact [OF baseOkD(4) [OF base] _ that] offers_system unfolding canTake_def by blast
  then show ?thesis by (simp add: stuck_def)
qed

lemma setAside_frame:
  assumes "setAside stale c (s, j, k)" "j \<noteq> d" "eview (entries c') j = eview (entries c) j" "cfg c' = cfg c" "follows c' = follows c"
    "\<And>t. qview (systems c') t j = qview (systems c) t j" "sameWorkers (workers c) (workers c')"
    "\<And>w. w < length (workers c) \<Longrightarrow> j \<in> set (running (workers c' ! w)) \<longleftrightarrow> j \<in> set (running (workers c ! w))"
    "\<And>w. w < length (workers c) \<Longrightarrow> refreshVal (workers c' ! w) \<le> refreshVal (workers c ! w)"
  shows "setAside stale c' (s, j, k)"
proof -
  from assms(1) obtain e where e: "idle c j e" "eworker e = noWorker" "entryOk c j e"
    "\<And>t. qview (systems c) t j = None" "s = esystem e" "k = prio (cfg c) e" "stuck stale c e" by (auto simp: setAside_def)
  have "stuck stale c' e" by (rule stuck_anti [OF e(7) assms(7,9)])
  moreover have "idle c' j e" using e(1) assms(3,6,8) sameWorkersD(1) [OF assms(7)] by (simp add: idle_def)
  moreover have "entryOk c' j e" using e(2,3) sameWorkersD(1) [OF assms(7)] assms(5) by (simp add: entryOk_def)
  ultimately show ?thesis using e assms(4,6) by (auto simp: setAside_def)
qed


text \<open>Taking the head \<open>d\<close> of a queue puts it aside or assigns it.\<close>

lemma loopInv_aside:
  assumes inv: "loopInv stale c0 c (out, sks)" and e: "eview (entries c) d = Some e" "slotOk c d" "eworker e = noWorker"
    and X: "sysOk X" "fview X = fview (systems c)" "qview X = (qview (systems c))(esystem e := (qview (systems c) (esystem e))(d := None))"
    and st: "stuck stale c e" and new: "d \<notin> (fst \<circ> snd) ` set sks"
  shows "loopInv stale c0 (c\<lparr>systems := X\<rparr>) (out, sks @ [(esystem e, d, prio (cfg c) e)])"
proof -
  let ?c = "c\<lparr>systems := X\<rparr>"
  have base: "baseOk stale c" using inv by (simp add: loopInv_def)
  note small = baseOk_small [OF base]
  have qd: "qview X t d = None" for t using slotOkD(1) [OF e(2,1)] X(3) by simp
  have "setAside stale ?c (esystem e, d, prio (cfg c) e)"
    using slot_idle [OF e(2,1,3) small] slotOkD(3) [OF e(2,1)] e(3) st qd
    by (simp add: setAside_def idle_def entryOk_def stuck_def canTake_def)
  moreover have "setAside stale ?c sk" if "sk \<in> set sks" for sk
  proof -
    obtain s j k where sk: "sk = (s, j, k)" by (cases sk)
    have "j \<noteq> d" using new that sk by force
    moreover have "setAside stale c (s, j, k)" using inv that sk by (simp add: loopInv_def)
    ultimately show ?thesis using X(3) unfolding sk
      by (elim setAside_frame [where d = d]) (simp_all add: sameWorkers_refl)
  qed
  moreover have "slotOk ?c j" if "j \<noteq> d" "j \<notin> (fst \<circ> snd) ` set sks" for j
    by (rule slotOk_same_workers [OF _ small]) (use inv that X(3) in \<open>simp_all add: loopInv_def\<close>)
  moreover have "baseOk stale ?c" using base X(1,2) by (simp add: baseOk_def)
  moreover have "outcome c0 ?c out" using inv by (simp add: loopInv_def outcome_def)
  ultimately show ?thesis using inv new by (auto simp: loopInv_def)
qed

lemma loopInv_assign:
  assumes inv: "loopInv stale c0 c (out, sks)" and e: "eview (entries c) d = Some e" "slotOk c d" "eworker e = noWorker"
    and X: "sysOk X" "fview X = fview (systems c)" "qview X = (qview (systems c))(esystem e := (qview (systems c) (esystem e))(d := None))"
    and w: "canTake c e w" and new: "d \<notin> (fst \<circ> snd) ` set sks"
  shows "wp (assignTo d e w) (\<lambda>a c'. loopInv stale c0 c' (out @ [a], sks) \<and> qview (systems c') = qview X \<and> aDrv a = d \<and> aWorker a = w \<and>
    sameWorkers (workers c) (workers c') \<and> (\<forall>x. refreshVal (workers c' ! x) \<le> refreshVal (workers c ! x))) noThrow (c\<lparr>systems := X\<rparr>)"
proof -
  let ?c = "c\<lparr>systems := X\<rparr>"
  have base: "baseOk stale c" and base': "baseOk stale ?c" using inv X(1,2) by (simp_all add: loopInv_def baseOk_def)
  note small = baseOk_small [OF base]
  have wl: "w < length (workers c)" using w by (simp add: canTake_def)
  have d: "d < length (entries c)" using eview_Some [OF e(1)] by simp
  have qd: "qview (systems ?c) t d = None" for t using slotOkD(1) [OF e(2,1)] X(3) by simp
  have i: "idle ?c d e" "entryOk ?c d e" "canTake ?c e w" "followers e \<noteq> []"
    using slot_idle [OF e(2,1,3) small] slotOkD(3) [OF e(2,1)] qd w e(3) by (simp_all add: idle_def entryOk_def canTake_def)
  show ?thesis
  proof (rule wp_mono [OF assignTo_ok [OF base' i(1) e(3) i(2) qd i(3)]], goal_cases)
    case (1 a c')
    let ?aid = "(lastAssignId c + 1) mod 2 ^ 64"
    have ws: "workers c' = (workers c)[w := (workers c ! w)\<lparr>running := running (workers c ! w) @ [d]\<rparr>]"
      and ev: "eview (entries c') = (eview (entries c))(d \<mapsto> e\<lparr>eworker := w, assignId := ?aid\<rparr>)" using 1 d by simp_all
    have same: "sameWorkers (workers c) (workers c')" unfolding ws by (rule sameWorkers_update [OF wl])
    have less: "refreshVal (workers c' ! x) \<le> refreshVal (workers c ! x)" for x
      using wl by (simp add: ws nth_update_if refreshVal_push)
    have "outcome c0 c' (out @ [\<lparr>aDrv = d, aWorker = w, aAssignId = ?aid, aClients = followers e\<rparr>])"
      using 1 inv by (intro outcome_assign [OF _ base e(1,3) i(4) w refl _ _ _ ev ws]) (simp_all add: loopInv_def)
    then have "outcome c0 c' (out @ [a])" using 1 by simp
    moreover have "setAside stale c' sk" if "sk \<in> set sks" for sk
    proof -
      obtain s j k where sk: "sk = (s, j, k)" by (cases sk)
      have "j \<noteq> d" using new that sk by force
      have "setAside stale c (s, j, k)" using inv that sk by (simp add: loopInv_def)
      moreover note less
      moreover have "j \<in> set (running (workers c' ! x)) \<longleftrightarrow> j \<in> set (running (workers c ! x))" for x
        using \<open>j \<noteq> d\<close> wl by (simp add: ws nth_update_if)
      ultimately show ?thesis using \<open>j \<noteq> d\<close> X(3) 1 same ev unfolding sk
        by (elim setAside_frame [where d = d]) simp_all
    qed
    moreover have "slotOk c' j" if "j \<notin> (fst \<circ> snd) ` set sks" for j
    proof (cases "j = d")
      case False
      have "slotOk ?c j"
        by (rule slotOk_same_workers [OF _ small]) (use inv that False X(3) in \<open>simp_all add: loopInv_def\<close>)
      then show ?thesis using 1 False by simp
    qed (use 1 in simp)
    ultimately show ?case using 1 inv same less by (simp add: loopInv_def)
  qed simp
qed

text \<open>One turn of the loop takes the head \<open>d\<close> of the queue \<open>s\<close> and may assign it.\<close>

definition turn :: "string \<Rightarrow> core \<Rightarrow> assign list \<Rightarrow> core \<Rightarrow> assign list \<Rightarrow> bool" where
  "turn s c out c' out' \<longleftrightarrow>
     (\<exists>d e. eview (entries c) d = Some e \<and> eworker e = noWorker \<and> qview (systems c) s d = Some (prio (cfg c) e) \<and>
        top (queue (sysLookup (systems c) s)) = Some d \<and>
        (\<forall>t j. qview (systems c') t j = (if j = d then None else qview (systems c) t j)) \<and>
        (out' = out \<and> fview (systems c') = fview (systems c) \<or>
         (\<exists>a. out' = out @ [a] \<and> aDrv a = d \<and> canTake c e (aWorker a) \<and> sameWorkers (workers c) (workers c') \<and>
            (\<forall>x. refreshVal (workers c' ! x) \<le> refreshVal (workers c ! x)))))"

lemma turn_waiting:
  assumes "turn s c out c' out'"
  shows "\<exists>d \<in> waiting (systems c). waiting (systems c') = waiting (systems c) - {d}"
proof -
  from assms obtain d where "qview (systems c) s d \<noteq> None" "\<forall>t j. qview (systems c') t j = (if j = d then None else qview (systems c) t j)"
    unfolding turn_def by blast
  then show ?thesis by (intro bexI [of _ d]) (auto simp: waiting_def)
qed

lemma dispatchHead_ok:
  assumes inv: "loopInv stale c0 c acc" and best: "bestSystem c = Some s"
  shows "wp (dispatchHead s acc) (\<lambda>acc' c'. loopInv stale c0 c' acc' \<and> turn s c (fst acc) c' (fst acc')) noThrow c"
proof -
  obtain out sks where acc: "acc = (out, sks)" by (cases acc)
  have base: "baseOk stale c" using inv by (simp add: loopInv_def)
  from bestSystem_some [OF baseOkD(3) [OF base] best] obtain d k where
    d: "top (queue (sysLookup (systems c) s)) = Some d" "qview (systems c) s d = Some k" .
  have new: "d \<notin> (fst \<circ> snd) ` set sks" using inv d(2) unfolding acc by (fastforce simp: loopInv_def setAside_def)
  then have sl: "slotOk c d" using inv by (simp add: loopInv_def acc)
  then obtain e where e: "eview (entries c) d = Some e" using slotOk_None(1) [OF sl, of s] d(2) by fastforce
  have es: "eworker e = noWorker" "s = esystem e" "followers e \<noteq> []" "k = prio (cfg c) e"
    using slotOkD(1) [OF sl e, of s] slotOkD(3) [OF sl e] d(2) by (auto simp: entryOk_def split: if_splits)
  have dl: "d < length (entries c)" "entries c ! d = Some e" using eview_Some [OF e] by simp_all
  let ?post = "\<lambda>acc' c'. loopInv stale c0 c' acc' \<and> turn s c out c' (fst acc')"
  let ?after = "\<lambda>picked. wp (case picked of
        None \<Rightarrow> bnd (gets cfg) (\<lambda>cf. ret (out, sks @ [(s, d, prio cf e)]))
      | Some wid \<Rightarrow> bnd (assignTo d e wid) (\<lambda>asg. ret (out @ [asg], sks))) ?post noThrow"
  have "wp (onQueue s (herase d)) (\<lambda>_ c1. wp (pick e) ?after noThrow c1 \<and> entries c1 = entries c) noThrow c"
  proof (rule wp_onQueue_herase [OF baseOkD(3) [OF base]], goal_cases)
    case (1 X)
    have base': "baseOk stale (c\<lparr>systems := X\<rparr>)" using base 1 by (simp add: baseOk_def)
    have qx: "qview X t j = (if j = d then None else qview (systems c) t j)" for t j
      using slotOkD(1) [OF sl e] es 1(2) by simp
    have "wp (pick e) ?after noThrow (c\<lparr>systems := X\<rparr>)"
    proof (rule wp_mono [OF pick_ok [OF base']], goal_cases)
      case picked: (1 r c1)
      note X = 1(1) 1(3) 1(2) [unfolded es(2)]
      show ?case
      proof (cases r)
        case None
        then have "stuck stale c e" using picked by (simp add: stuck_def canTake_def)
        moreover have "turn s c out (c\<lparr>systems := X\<rparr>) out"
          unfolding turn_def by (intro exI [of _ d] exI [of _ e]) (use e es d qx 1(3) in simp)
        ultimately show ?thesis
          using loopInv_aside [OF inv [unfolded acc] e sl es(1) X _ new] picked None es(2) by (simp add: wp_simps)
      next
        case (Some w)
        then have can: "canTake c e w" using picked by (simp add: canTake_def)
        have "turn s c out c' (out @ [a])"
          if "qview (systems c') = qview X" "aDrv a = d" "aWorker a = w" "sameWorkers (workers c) (workers c')"
            "\<forall>x. refreshVal (workers c' ! x) \<le> refreshVal (workers c ! x)" for a c'
          unfolding turn_def by (intro exI [of _ d] exI [of _ e]) (use e es d qx can that in simp)
        with loopInv_assign [OF inv [unfolded acc] e sl es(1) X can new] show ?thesis
          using picked Some by (simp add: wp_simps) (erule wp_mono, auto)
      qed
    qed simp
    then show ?case by simp
  qed
  then show ?thesis
    using d(1) es dl unfolding acc by (simp add: dispatchHead_def wp_simps) (erule wp_mono, auto simp: wp_simps)
qed


lemma loopInv_disjoint:
  assumes "loopInv stale c0 c acc" "qview (systems c) s d \<noteq> None" "qview (systems c) t d \<noteq> None"
  shows "s = t"
proof -
  have "slotOk c d"
  proof (cases "d \<in> (fst \<circ> snd) ` set (snd acc)")
    case True
    then show ?thesis using assms by (fastforce simp: loopInv_def setAside_def)
  qed (use assms(1) in \<open>simp add: loopInv_def\<close>)
  then show ?thesis using assms(2,3) by (auto simp: slotOk_def split: option.splits if_splits)
qed

section \<open>The order of assignments\<close>

definition keyOf :: "core \<Rightarrow> assign \<Rightarrow> real" where
  "keyOf c0 a = (case eview (entries c0) (aDrv a) of None \<Rightarrow> 0 | Some e \<Rightarrow> prio (cfg c0) e)"

text \<open>The assignments are in the order of their keys, and a derivation that was more urgent than an assigned one and
  was left out could not have used its worker.\<close>

definition inOrder :: "core \<Rightarrow> assign list \<Rightarrow> bool" where
  "inOrder c0 out \<longleftrightarrow> sorted (map (keyOf c0) out) \<and>
     (\<forall>a \<in> set out. \<forall>d e. d \<notin> aDrv ` set out \<longrightarrow> eview (entries c0) d = Some e \<longrightarrow> eworker e = noWorker \<longrightarrow>
        prio (cfg c0) e < keyOf c0 a \<longrightarrow> offers (workers c0 ! aWorker a) e \<longrightarrow>
        aWorker a = avoid e \<and> (\<exists>x < length (workers c0). x \<noteq> aWorker a \<and> takesWork (workers c0 ! x) \<and> offers (workers c0 ! x) e))"

definition ahead :: "core \<Rightarrow> core \<Rightarrow> assign list \<Rightarrow> bool" where
  "ahead c0 c out \<longleftrightarrow>
     (\<forall>a \<in> set out. \<forall>t d k. qview (systems c) t d = Some k \<longrightarrow> someFree c t \<longrightarrow> keyOf c0 a \<le> k)"

lemma someFree_anti:
  assumes "baseOk {} c" "baseOk {} c'" "sameWorkers (workers c) (workers c')"
    and "\<And>x. refreshVal (workers c' ! x) \<le> refreshVal (workers c ! x)" and "someFree c' t"
  shows "someFree c t"
proof -
  from assms(5) obtain w v where "fview (systems c') t w = Some v" "0 < v" by (auto simp: someFree_def)
  note fp = free_pos [OF baseOkD(4) [OF assms(2)] this]
  have wl: "w < length (workers c)" "t \<in> set (wsystems (workers c ! w))"
    using fp assms(3) by (auto simp: sameWorkers_def)
  have "fview (systems c) t w = Some (refreshVal (workers c ! w))"
    using free_exact [OF baseOkD(4) [OF assms(1)] wl(1) _ wl(2)] by simp
  moreover have "0 < refreshVal (workers c ! w)" using fp(3) \<open>0 < v\<close> assms(4) [of w] by simp
  ultimately show ?thesis unfolding someFree_def by blast
qed

lemma not_passed_over:
  assumes inv: "loopInv {} c0 c (out, sks)" and w: "canTake c e w"
    and least: "\<And>t d k'. qview (systems c) t d = Some k' \<Longrightarrow> someFree c t \<Longrightarrow> k \<le> k'"
    and d: "d \<notin> aDrv ` set out" "eview (entries c0) d = Some e'" "eworker e' = noWorker" "prio (cfg c0) e' < k"
      "offers (workers c0 ! w) e'"
  shows "w = avoid e' \<and> (\<exists>x < length (workers c0). x \<noteq> w \<and> takesWork (workers c0 ! x) \<and> offers (workers c0 ! x) e')"
proof -
  have base: "baseOk {} c" and out: "outcome c0 c out" using inv by (simp_all add: loopInv_def)
  have same: "sameWorkers (workers c0) (workers c)" "cfg c = cfg c0" and ev: "eview (entries c) d = Some e'"
    using out d(1,2) unfolding outcome_def by auto
  have can: "canTake c e' w"
    using w d(5) sameWorkers_offers(2) [OF same(1), of w] sameWorkersD(1) [OF same(1)] by (simp add: canTake_def)
  have "stuck {} c e'"
  proof (cases "d \<in> (fst \<circ> snd) ` set sks")
    case True
    then obtain t j where "setAside {} c (t, d, j)" using inv by (auto simp: loopInv_def)
    then show ?thesis using ev by (auto simp: setAside_def idle_def)
  next
    case False
    then have "qview (systems c) (esystem e') d = Some (prio (cfg c) e')"
      using slotOkD(1) [OF _ ev, of "esystem e'"] inv d(3) by (simp add: loopInv_def)
    moreover have "someFree c (esystem e')"
      using free_exact [OF baseOkD(4) [OF base], of w "esystem e'"] can offers_system by (auto simp: someFree_def canTake_def)
    ultimately show ?thesis using least d(4) same(2) by fastforce
  qed
  then obtain x where "w = avoid e'" "x < length (workers c)" "x \<noteq> w" "takesWork (workers c ! x)" "offers (workers c ! x) e'"
    using can unfolding stuck_def by blast
  then show ?thesis using sameWorkers_offers [OF same(1), of x] sameWorkersD(1) [OF same(1)] by auto
qed

lemma turn_in_order:
  assumes inv: "loopInv {} c0 c (out, sks)" "loopInv {} c0 c' (out', sks')" and best: "bestSystem c = Some s"
    and turn: "turn s c out c' out'" and ord: "inOrder c0 out" "ahead c0 c out"
  shows "inOrder c0 out' \<and> ahead c0 c' out'"
proof -
  have base: "baseOk {} c" "baseOk {} c'" using inv by (simp_all add: loopInv_def)
  from turn obtain d e where d: "eview (entries c) d = Some e" "qview (systems c) s d = Some (prio (cfg c) e)"
    "top (queue (sysLookup (systems c) s)) = Some d"
    "\<And>t j. qview (systems c') t j = (if j = d then None else qview (systems c) t j)"
    and cases: "out' = out \<and> fview (systems c') = fview (systems c) \<or>
      (\<exists>a. out' = out @ [a] \<and> aDrv a = d \<and> canTake c e (aWorker a) \<and> sameWorkers (workers c) (workers c') \<and>
         (\<forall>x. refreshVal (workers c' ! x) \<le> refreshVal (workers c ! x)))"
    unfolding turn_def by blast
  from bestSystem_some [OF baseOkD(3) [OF base(1)] best] obtain d1 k1 where
    "top (queue (sysLookup (systems c) s)) = Some d1" "qview (systems c) s d1 = Some k1"
    "\<And>t d' k'. qview (systems c) t d' = Some k' \<Longrightarrow> someFree c t \<Longrightarrow> k1 \<le> k'" and free: "someFree c s" by metis
  then have least: "qview (systems c) t d' = Some k' \<Longrightarrow> someFree c t \<Longrightarrow> prio (cfg c) e \<le> k'" for t d' k'
    using d(2,3) by (metis option.inject)
  from cases show ?thesis
  proof (elim disjE conjE exE)
    assume "out' = out" "fview (systems c') = fview (systems c)"
    then show ?thesis using ord d(4) by (auto simp: ahead_def someFree_def split: if_splits)
  next
    fix a assume a: "out' = out @ [a]" "aDrv a = d" "canTake c e (aWorker a)" "sameWorkers (workers c) (workers c')"
      "\<forall>x. refreshVal (workers c' ! x) \<le> refreshVal (workers c ! x)"
    have anti: "someFree c' t \<Longrightarrow> someFree c t" for t using someFree_anti [OF base a(4)] a(5) by blast
    have "distinct (map aDrv out')" and out: "outcome c0 c out" using inv by (simp_all add: loopInv_def outcome_def)
    then have "d \<notin> aDrv ` set out" using a by auto
    then have "eview (entries c0) d = Some e" "cfg c = cfg c0" using out d(1) by (simp_all add: outcome_def)
    then have k: "keyOf c0 a = prio (cfg c) e" by (simp add: keyOf_def a(2))
    have "\<forall>b \<in> set out. keyOf c0 b \<le> keyOf c0 a" using ord(2) d(2) free unfolding ahead_def k by blast
    then have "sorted (map (keyOf c0) out')" using ord(1) by (auto simp: a(1) inOrder_def sorted_append)
    moreover have "ahead c0 c' out'"
      using ord(2) d(4) anti least unfolding ahead_def a(1) by (auto simp: k split: if_splits)
    moreover note not_passed_over [OF inv(1) a(3) least]
    ultimately show ?thesis using ord(1) k unfolding inOrder_def a(1) by auto
  qed
qed

text \<open>The loop ends within one turn per queued derivation, when nobody can take what is left.\<close>

lemma dispatchLoop_ok:
  assumes "loopInv stale c0 c acc" "card (waiting (systems c)) < fuel"
    and "stale = {} \<longrightarrow> inOrder c0 (fst acc) \<and> ahead c0 c (fst acc)"
  shows "wp (dispatchLoop fuel acc) (\<lambda>acc' c'. loopInv stale c0 c' acc' \<and> bestSystem c' = None \<and>
    (stale = {} \<longrightarrow> inOrder c0 (fst acc'))) noThrow c"
  using assms
proof (induction fuel arbitrary: c acc)
  case (Suc fuel)
  show ?case
  proof (cases "bestSystem c")
    case None
    then show ?thesis using Suc.prems by (simp add: wp_simps)
  next
    case (Some s)
    have "wp (dispatchHead s acc) (\<lambda>acc'. wp (dispatchLoop fuel acc')
        (\<lambda>acc' c'. loopInv stale c0 c' acc' \<and> bestSystem c' = None \<and> (stale = {} \<longrightarrow> inOrder c0 (fst acc'))) noThrow) noThrow c"
    proof (rule wp_mono [OF dispatchHead_ok [OF Suc.prems(1) Some]], goal_cases)
      case (1 acc' c')
      then have "card (waiting (systems c')) < card (waiting (systems c))"
        using card_Diff1_less [OF finite_waiting [of "systems c"]] turn_waiting [of s c "fst acc" c' "fst acc'"] by force
      moreover have "inOrder c0 (fst acc') \<and> ahead c0 c' (fst acc')" if "stale = {}"
        using turn_in_order [OF _ _ Some, of c0 "fst acc" "snd acc" c' "fst acc'" "snd acc'"] 1 Suc.prems(1,3) that by simp
      ultimately show ?case using 1 Suc.prems(2) by (intro Suc.IH) auto
    qed simp
    then show ?thesis using Some by (simp add: wp_simps)
  qed
qed simp

text \<open>Putting what was set aside back on its queues.\<close>

lemma restore_ok:
  assumes "loopInv stale c0 c (out, sks)" "\<And>d e. eview (entries c) d = Some e \<Longrightarrow> eworker e = noWorker \<Longrightarrow> stuck stale c e"
  shows "wp (forEach sks (\<lambda>(system, drv, key). onQueue system (hset drv key)))
    (\<lambda>_ c'. coreInv stale c' \<and> outcome c0 c' out \<and>
       (\<forall>d e. eview (entries c') d = Some e \<longrightarrow> eworker e = noWorker \<longrightarrow> stuck stale c' e)) noThrow c"
  using assms
proof (induction sks arbitrary: c)
  case Nil
  then show ?case by (auto simp: wp_simps loopInv_def intro: coreInvI)
next
  case (Cons sk sks)
  obtain s d k where sk: "sk = (s, d, k)" by (cases sk)
  from Cons.prems(1) obtain e where e: "idle c d e" "eworker e = noWorker" "entryOk c d e" "s = esystem e" "k = prio (cfg c) e"
    "\<And>t. qview (systems c) t d = None" by (auto simp: loopInv_def setAside_def sk)
  have base: "baseOk stale c" using Cons.prems(1) by (simp add: loopInv_def)
  have req: "wp (onQueue s (hset d k)) Q E c = wp (requeue d e) Q E c" for Q E
    by (simp add: requeue_def wp_simps e(4,5))
  show ?case unfolding forEach.simps wp_bnd sk prod.case req
  proof (rule wp_mono [OF requeue_ok [OF base e(1-3)]], goal_cases)
    case (1 _ c')
    then have same: "sameBut d c c'" and slot: "slotOk c' d" and base': "baseOk stale c'" and en: "entries c' = entries c" by auto
    note S = sameButD [OF same]
    have ids: "d \<notin> (fst \<circ> snd) ` set sks" using Cons.prems(1) by (simp add: loopInv_def sk)
    have st: "stuck stale c' x = stuck stale c x" for x using S(1) by (simp add: stuck_def canTake_def)
    have "setAside stale c' x" if "x \<in> set sks" for x
    proof -
      obtain t j l where x: "x = (t, j, l)" by (cases x)
      have "j \<noteq> d" using ids that x by force
      moreover have "setAside stale c (t, j, l)" using Cons.prems(1) that x by (simp add: loopInv_def)
      ultimately show ?thesis unfolding x using S en
        by (elim setAside_frame [where d = d]) (simp_all add: sameWorkers_refl)
    qed
    moreover have "slotOk c' j" if "j \<notin> (fst \<circ> snd) ` set sks" for j
      using that slot sameBut_slotOk [OF same _ _ baseOk_small [OF base]] Cons.prems(1)
      by (cases "j = d") (auto simp: loopInv_def sk)
    moreover have "outcome c0 c' out" using Cons.prems(1) S en by (simp add: loopInv_def outcome_def)
    ultimately have "loopInv stale c0 c' (out, sks)" using base' Cons.prems(1) by (simp add: loopInv_def)
    then show ?case using Cons.prems(2) en st by (intro Cons.IH) auto
  qed simp
qed

lemma dispatch_ok:
  assumes inv: "coreInv stale c"
  shows "wp dispatch (\<lambda>out c'. coreInv stale c' \<and> outcome c c' out \<and> (stale = {} \<longrightarrow> inOrder c out) \<and>
    (\<forall>d e. eview (entries c') d = Some e \<longrightarrow> eworker e = noWorker \<longrightarrow> stuck stale c' e)) noThrow c"
proof -
  have start: "loopInv stale c c ([], [])" by (rule loopInv_start [OF inv])
  have "queued c = card (waiting (systems c))"
    by (rule queued_card [OF coreInvD(3) [OF inv]]) (rule loopInv_disjoint [OF start])
  then have "card (waiting (systems c)) < Suc (queued c)" by simp
  moreover have "inOrder c [] \<and> ahead c c []" by (simp add: inOrder_def ahead_def)
  ultimately have loop: "wp (dispatchLoop (Suc (queued c)) ([], [])) (\<lambda>acc' c'. loopInv stale c c' acc' \<and> bestSystem c' = None \<and>
      (stale = {} \<longrightarrow> inOrder c (fst acc'))) noThrow c"
    by (intro dispatchLoop_ok [OF start]) simp_all
  have "wp (dispatchLoop (Suc (queued c)) ([], [])) (\<lambda>(out, sks). wp (bnd (forEach sks (\<lambda>(system, drv, key). onQueue system (hset drv key))) (\<lambda>_. ret out))
      (\<lambda>out c'. coreInv stale c' \<and> outcome c c' out \<and> (stale = {} \<longrightarrow> inOrder c out) \<and>
        (\<forall>d e. eview (entries c') d = Some e \<longrightarrow> eworker e = noWorker \<longrightarrow> stuck stale c' e)) noThrow) noThrow c"
  proof (rule wp_mono [OF loop], goal_cases)
    case (1 acc c')
    obtain out sks where acc: "acc = (out, sks)" by (cases acc)
    have li: "loopInv stale c c' (out, sks)" and none: "bestSystem c' = None" using 1 acc by auto
    have "stuck stale c' e" if e: "eview (entries c') d = Some e" "eworker e = noWorker" for d e
    proof (cases "d \<in> (fst \<circ> snd) ` set sks")
      case True
      then obtain s k where "(s, d, k) \<in> set sks" by auto
      then show ?thesis using li e by (fastforce simp: loopInv_def setAside_def idle_def)
    next
      case False
      then have "slotOk c' d" using li by (simp add: loopInv_def)
      from slotOkD(1) [OF this e(1), of "esystem e"] e(2) have "qview (systems c') (esystem e) d = Some (prio (cfg c') e)" by simp
      then show ?thesis using bestSystem_none [OF _ none] li by (auto simp: loopInv_def)
    qed
    from restore_ok [OF li this] show ?case unfolding acc using 1 acc by (simp add: wp_simps)
  qed simp
  then show ?thesis unfolding dispatch_def by (simp add: wp_simps case_prod_unfold)
qed

section \<open>Placeability\<close>

text \<open>Whether an entry can be placed depends on its system and features alone, which is what the
  memo table of \<open>placeabilityChanges\<close> is keyed by.\<close>

lemma placeableEnt_cong: "esystem a = esystem b \<Longrightarrow> efeatures a = efeatures b \<Longrightarrow> placeableEnt c a = placeableEnt c b"
  by (simp add: placeableEnt_def offers_def)

definition toldSlot :: "core \<Rightarrow> entry option \<Rightarrow> entry option" where
  "toldSlot c slot =
     (case slot of
        None \<Rightarrow> None
      | Some e \<Rightarrow> if eworker e \<noteq> noWorker \<or> followers e = [] then Some e
          else Some (e\<lparr>unplaceable := \<not> placeableEnt c e\<rparr>))"

lemma placeabilityLoop_memo:
  assumes "\<And>key a e. byKey key = Some a \<Longrightarrow> key = (esystem e, efeatures e) \<Longrightarrow> a = placeableEnt c e"
  shows "placeabilityLoop c idx slots byKey =
    (map (\<lambda>i. (idx + i) mod 2 ^ 32) (filter (\<lambda>i. toldSlot c (slots ! i) \<noteq> slots ! i) [0..<length slots]), map (toldSlot c) slots)"
  using assms
proof (induction slots arbitrary: idx byKey)
  case (Cons slot slots)
  have shift: "map (\<lambda>i. (idx + i) mod 2 ^ 32) (filter (\<lambda>i. toldSlot c ((slot # slots) ! i) \<noteq> (slot # slots) ! i) [0..<length (slot # slots)]) =
    (if toldSlot c slot \<noteq> slot then [idx mod 2 ^ 32] else []) @
    map (\<lambda>i. (idx + 1 + i) mod 2 ^ 32) (filter (\<lambda>i. toldSlot c (slots ! i) \<noteq> slots ! i) [0..<length slots])"
  proof -
    have "[0..<length (slot # slots)] = 0 # map Suc [0..<length slots]" by (simp add: map_Suc_upt upt_conv_Cons del: upt_Suc)
    then show ?thesis by (simp add: filter_map comp_def)
  qed
  show ?case
  proof (cases "\<exists>e. slot = Some e \<and> eworker e = noWorker \<and> followers e \<noteq> []")
    case False
    then have "toldSlot c slot = slot" by (auto simp: toldSlot_def split: option.split)
    then show ?thesis using False Cons.IH [of byKey "idx + 1", OF Cons.prems] shift
      by (cases slot) (auto simp del: One_nat_def)
  next
    case True
    then obtain e where e: "slot = Some e" "eworker e = noWorker" "followers e \<noteq> []" by blast
    let ?key = "(esystem e, efeatures e)"
    have ans: "(case byKey ?key of None \<Rightarrow> placeableEnt c e | Some a \<Rightarrow> a) = placeableEnt c e"
      using Cons.prems [of ?key _ e] by (auto split: option.split)
    have ok: "a = placeableEnt c x" if "(byKey(?key \<mapsto> placeableEnt c e)) key = Some a" "key = (esystem x, efeatures x)" for key a x
    proof (cases "key = ?key")
      case True
      then show ?thesis using that placeableEnt_cong [of e x c] by simp
    next
      case False
      then have "byKey key = Some a" using that(1) by simp
      then show ?thesis using Cons.prems [of key a x] that(2) by blast
    qed
    have rest: "placeabilityLoop c (idx + 1) slots (byKey(?key \<mapsto> placeableEnt c e)) =
        (map (\<lambda>i. (idx + 1 + i) mod 2 ^ 32) (filter (\<lambda>i. toldSlot c (slots ! i) \<noteq> slots ! i) [0..<length slots]), map (toldSlot c) slots)"
      by (rule Cons.IH) (rule ok)
    have tse: "toldSlot c (Some e) = Some (e\<lparr>unplaceable := \<not> placeableEnt c e\<rparr>)" using e by (simp add: toldSlot_def)
    have "e\<lparr>unplaceable := \<not> placeableEnt c e\<rparr> = e \<longleftrightarrow> unplaceable e = (\<not> placeableEnt c e)"
      by (cases e) auto
    then have told: "toldSlot c (Some e) = Some e \<longleftrightarrow> unplaceable e = (\<not> placeableEnt c e)" unfolding tse option.inject .
    show ?thesis
    proof (cases "unplaceable e = placeableEnt c e")
      case True
      then have "toldSlot c (Some e) \<noteq> Some e" using told by blast
      then show ?thesis using e ans True unfolding shift by (simp add: rest tse Let_def del: One_nat_def)
    next
      case False
      then have "toldSlot c (Some e) = Some e" using told by blast
      then show ?thesis using e ans False unfolding shift by (simp add: rest Let_def del: One_nat_def)
    qed
  qed
qed simp


lemma eview_map: "g None = None \<Longrightarrow> eview (map g es) d = g (eview es d)"
  by (simp add: eview_def)

lemma coreInv_mark:
  assumes inv: "coreInv stale c" and len: "length es = length (entries c)"
    and same: "\<And>d. eview es d = eview (entries c) d \<or>
      (\<exists>e b. eview (entries c) d = Some e \<and> eview es d = Some (e\<lparr>unplaceable := b\<rparr>))"
  shows "coreInv stale (c\<lparr>entries := es\<rparr>)"
proof (rule coreInvI)
  note D = idsOkD [OF coreInvD(1) [OF inv]]
  have none: "eview es d = None \<longleftrightarrow> eview (entries c) d = None" for d using same [of d] by auto
  have "(\<exists>e. eview es d = Some e \<and> pathKey (drvPath e) = k) \<longleftrightarrow>
      (\<exists>e. eview (entries c) d = Some e \<and> pathKey (drvPath e) = k)" for d k
    using same [of d] by (elim disjE) (simp, auto)
  then have "idsOk (drvIds c) (freeIds c) es" unfolding idsOk_def len none using D by simp
  then show "baseOk stale (c\<lparr>entries := es\<rparr>)" using coreInvD(6) [OF inv] by (simp add: baseOk_def)
  fix d
  note sl = coreInvD(5) [OF inv, of d] and small = baseOk_small [OF coreInvD(6) [OF inv]]
  from same [of d] show "slotOk (c\<lparr>entries := es\<rparr>) d"
  proof (elim disjE exE conjE)
    assume "eview es d = eview (entries c) d"
    then show ?thesis by (intro slotOk_same_workers [OF sl small]) simp_all
  next
    fix e b assume e: "eview (entries c) d = Some e" "eview es d = Some (e\<lparr>unplaceable := b\<rparr>)"
    have "prio (cfg c) (e\<lparr>unplaceable := b\<rparr>) = prio (cfg c) e" by (simp add: prio_def)
    then show ?thesis using slotOkD [OF sl e(1)] e(2) by (simp add: slotOk_def entryOk_def)
  qed
qed

lemma markUnplaceable_ok:
  assumes inv: "coreInv stale c" and d: "d < length (entries c)"
  shows "wp (markUnplaceable d b) (\<lambda>_ c'. coreInv stale c' \<and> workers c' = workers c \<and> follows c' = follows c \<and>
    eview (entries c') = (eview (entries c))(d := map_option (\<lambda>e. e\<lparr>unplaceable := b\<rparr>) (eview (entries c) d))) noThrow c"
proof (cases "entries c ! d")
  case None
  then have "eview (entries c) d = None" using d by (simp add: eview_def)
  then show ?thesis using None d inv by (auto simp: markUnplaceable_def wp_simps)
next
  case (Some e)
  then have "eview (entries c) d = Some e" using d by (simp add: eview_def)
  moreover from this have "coreInv stale (c\<lparr>entries := (entries c)[d := Some (e\<lparr>unplaceable := b\<rparr>)]\<rparr>)"
    using d by (intro coreInv_mark [OF inv]) auto
  ultimately show ?thesis using Some d by (simp add: markUnplaceable_def wp_simps)
qed

lemma placeabilityChanges_ok:
  assumes inv: "coreInv stale c"
  shows "wp placeabilityChanges (\<lambda>out c'. coreInv stale c' \<and> workers c' = workers c \<and> follows c' = follows c \<and>
    (\<forall>d. eview (entries c') d = toldSlot c (eview (entries c) d)) \<and>
    set out = {d. eview (entries c') d \<noteq> eview (entries c) d} \<and> distinct out) noThrow c"
proof -
  let ?es = "map (toldSlot c) (entries c)"
  let ?ch = "filter (\<lambda>i. toldSlot c (entries c ! i) \<noteq> entries c ! i) [0..<length (entries c)]"
  have small: "i mod 2 ^ 32 = i" if "i < length (entries c)" for i
    using that idsOkD(4) [OF coreInvD(1) [OF inv]] by (simp add: maxEntries_def)
  have "map (\<lambda>i. (0 + i) mod 2 ^ 32) ?ch = ?ch" by (rule map_idI) (use small in auto)
  then have run: "placeabilityLoop c 0 (entries c) Map.empty = (?ch, ?es)"
    using placeabilityLoop_memo [of Map.empty c 0 "entries c"] by simp
  have ev: "eview ?es d = toldSlot c (eview (entries c) d)" for d by (rule eview_map) (simp add: toldSlot_def)
  have "toldSlot c x = x \<or> (\<exists>e b. x = Some e \<and> toldSlot c x = Some (e\<lparr>unplaceable := b\<rparr>))" for x
    by (auto simp: toldSlot_def split: option.split)
  then have "coreInv stale (c\<lparr>entries := ?es\<rparr>)" by (intro coreInv_mark [OF inv]) (simp_all only: ev length_map)
  moreover have "set ?ch = {d. eview ?es d \<noteq> eview (entries c) d}"
    by (auto simp: ev) (auto simp: eview_def toldSlot_def split: if_splits)
  ultimately show ?thesis by (simp add: placeabilityChanges_def wp_simps run ev)
qed

end
