(* ===== verification/SchedReach.thy ===== *)
theory SchedReach
  imports SchedDispatch
begin

text \<open>
  The scheduler core as a state machine: \<open>coreStep\<close> has one rule per operation the dispatcher
  calls, with any arguments and any outcome, normal or exceptional, and \<open>coreReach\<close> are the
  states a fresh core gets to.  Every reachable state satisfies the invariant.
\<close>

section \<open>Steps and reachable states\<close>

text \<open>A step also says whether the worker tables are whole afterwards: the one operation that can
  stop half way is a Hello whose running builds do not fit the table, and it leaves the free
  slots of its worker unrefreshed.  A Want names a system, and the ids of workers and derivations are ones the core gave out;
  there are fewer worker addresses than 32-bit ids.\<close>

inductive coreStep :: "core \<Rightarrow> bool \<Rightarrow> core \<Rightarrow> bool" where
  step_want: "wiSystem info \<noteq> [] \<Longrightarrow> want cl info now c = (r, c') \<Longrightarrow> coreStep c True c'"
| step_cancel: "cancel cl path c = (r, c') \<Longrightarrow> coreStep c True c'"
| step_clientGone: "clientGone cl c = (r, c') \<Longrightarrow> coreStep c True c'"
| step_workerId: "Suc (length (workers c)) < noWorker \<Longrightarrow> workerId addr c = (r, c') \<Longrightarrow> coreStep c True c'"
| step_hello: "Suc (length (workers c)) < noWorker \<Longrightarrow> hello info c = (r, c') \<Longrightarrow>
    coreStep c (r \<noteq> Inl (NixError ''scheduler: derivation table full'')) c'"
| step_done: "w < length (workers c) \<Longrightarrow> coreDone w path outs c = (r, c') \<Longrightarrow> coreStep c True c'"
| step_giveBack: "w < length (workers c) \<Longrightarrow> giveBack w path c = (r, c') \<Longrightarrow> coreStep c True c'"
| step_setDraining: "w < length (workers c) \<Longrightarrow> setDraining w b c = (r, c') \<Longrightarrow> coreStep c True c'"
| step_workerGone: "w < length (workers c) \<Longrightarrow> workerGone w c = (r, c') \<Longrightarrow> coreStep c True c'"
| step_dispatch: "dispatch c = (r, c') \<Longrightarrow> coreStep c True c'"
| step_placeability: "placeabilityChanges c = (r, c') \<Longrightarrow> coreStep c True c'"
| step_mark: "d < length (entries c) \<Longrightarrow> markUnplaceable d u c = (r, c') \<Longrightarrow> coreStep c True c'"

inductive coreReach :: "config \<Rightarrow> bool \<Rightarrow> core \<Rightarrow> bool" for cf :: config where
  reach_start: "coreReach cf True (core0 cf)"
| reach_step: "coreReach cf clean c \<Longrightarrow> coreStep c ok c' \<Longrightarrow> coreReach cf (clean \<and> ok) c'"

text \<open>A weakest precondition says what every outcome of a run is like.\<close>

lemma wp_run: "wp m Q E s \<Longrightarrow> m s = (r, t) \<Longrightarrow> (\<exists>a. r = Inr a \<and> Q a t) \<or> (\<exists>e. r = Inl e \<and> E e t)"
  by (auto simp: wp_def split: sum.splits)

lemma coreStep_inv:
  assumes "coreStep c ok c'" and inv: "coreInv stale c"
  shows "coreInv (if ok then stale else UNIV) c'"
  using assms(1)
proof cases
  case (step_want info cl now r)
  from wp_run [OF want_ok [OF inv step_want(2)] step_want(3)] show ?thesis using inv step_want(1) by auto
next
  case (step_cancel cl path r)
  from wp_run [OF cancel_ok [OF inv] step_cancel(2)] show ?thesis using step_cancel(1) by auto
next
  case (step_clientGone cl r)
  from wp_run [OF clientGone_ok [OF inv] step_clientGone(2)] show ?thesis using step_clientGone(1) by auto
next
  case (step_workerId addr r)
  from wp_run [OF workerId_ok [OF inv step_workerId(2)] step_workerId(3)] show ?thesis using step_workerId(1) by auto
next
  case (step_hello info r)
  from wp_run [OF hello_ok [OF inv step_hello(2)] step_hello(3)] show ?thesis
    using inv step_hello(1) by (auto elim: coreInv_mono)
next
  case (step_done w path outs r)
  from wp_run [OF coreDone_ok [OF inv step_done(2)] step_done(3)] show ?thesis using step_done(1) by auto
next
  case (step_giveBack w path r)
  from wp_run [OF giveBack_ok [OF inv step_giveBack(2)] step_giveBack(3)] show ?thesis using step_giveBack(1) by auto
next
  case (step_setDraining w b r)
  from wp_run [OF setDraining_ok [OF inv step_setDraining(2)] step_setDraining(3)] show ?thesis using step_setDraining(1) by auto
next
  case (step_workerGone w r)
  from wp_run [OF workerGone_ok [OF inv step_workerGone(2)] step_workerGone(3)] show ?thesis using step_workerGone(1) by (auto elim: coreInv_mono)
next
  case (step_dispatch r)
  from wp_run [OF dispatch_ok [OF inv] step_dispatch(2)] show ?thesis using step_dispatch(1) by auto
next
  case (step_placeability r)
  from wp_run [OF placeabilityChanges_ok [OF inv] step_placeability(2)] show ?thesis using step_placeability(1) by auto
next
  case (step_mark d u r)
  from wp_run [OF markUnplaceable_ok [OF inv step_mark(2)] step_mark(3)] show ?thesis using step_mark(1) by auto
qed

lemma coreReach_inv: "coreReach cf clean c \<Longrightarrow> coreInv (if clean then {} else UNIV) c"
proof (induction rule: coreReach.induct)
  case (reach_step clean c ok c')
  from coreStep_inv [OF reach_step(2,3)] show ?case by (auto split: if_splits)
qed (simp add: coreInv0)


section \<open>A concrete run\<close>

text \<open>A builder with two slots says Hello, client 7 wants a derivation, dispatch assigns it.\<close>

definition demoHelloInfo :: helloInfo where
  "demoHelloInfo = \<lparr>hiAddr = ''w1'', hiSystems = [''x86_64-linux''], hiFeatures = [''kvm''], hiMaxJobs = 2, hiRunning = []\<rparr>"

definition demoWantInfo :: wantInfo where
  "demoWantInfo = \<lparr>wiDrvPath = ''/nix/store/aaa-x.drv'', wiInputs = [], wiSystem = ''x86_64-linux'', wiFeatures = [], wiCpHintMs = 5\<rparr>"

definition demoUp :: core where
  "demoUp = snd (hello demoHelloInfo (core0 config0))"

definition demoWaiting :: core where
  "demoWaiting = snd (want 7 demoWantInfo 1 demoUp)"

definition demoRunning :: core where
  "demoRunning = snd (dispatch demoWaiting)"

lemmas monad_defs = bnd_def ret_def gets_def upd_def vat_def vput_def zoom_def throw_def vresize_def

lemmas hello_defs = hello_def workerId_def workerAt_def putWorker_def helloUp_def onFree_def onQueue_def
  fpush_def fset_def fcheck_def refreshFree_def refreshVal_def takesWork_def core0_def sys_def sysState0_def
  findex0_def iheap0_def worker0_def maxSlots_def bucket_def

lemmas want_defs = want_def drvId_def wantAt_def slotAt_def putSlot_def wantEntry_def wantBase_def entry0_def
  requeue_def hset_def siftUp_def siftUpLoop.simps place_def hsize_def npos_def noWorker_def prio_def config0_def
  pathKey_def baseName_def addFollow_def maxEntries_def

lemmas dispatch_defs = dispatch_def queued_def bestSystem_def bestStep_def topKey_def top_def maxFree_def
  countl_zero_def dispatchHead_def herase_def hcontains_def pick_def emptiestFor_def emptiest_def pickFrom_def
  freeOf_def assignTo_def fget_def score_def

lemmas demo_defs = demoHelloInfo_def demoWantInfo_def demoUp_def demoWaiting_def demoRunning_def

definition demoEntry :: entry where
  "demoEntry = \<lparr>drvPath = ''/nix/store/aaa-x.drv'', inputs = [], esystem = ''x86_64-linux'', efeatures = [],
     followers = [7], eworker = noWorker, assignId = 0, enqMs = 1, cpHint = 5, unplaceable = False, avoid = noWorker\<rparr>"

definition demoWorker :: worker where
  "demoWorker = \<lparr>waddr = ''w1'', wsystems = [''x86_64-linux''], wfeatures = [''kvm''], maxJobs = 2, up = True,
     draining = False, running = []\<rparr>"

text \<open>Each step is evaluated once.\<close>

lemma demoUp_eval: "(case hello demoHelloInfo (core0 config0) of (r, c) \<Rightarrow> (r, entries c, workers c)) = (Inr (0, []), [], [demoWorker])"
  by (simp add: demo_defs demoWorker_def monad_defs hello_defs Let_def del: sys_lookup)

lemma demoWaiting_eval: "(case want 7 demoWantInfo 1 demoUp of (r, c) \<Rightarrow> (r, entries c, workers c, bestSystem c, top (queue (sys c ''x86_64-linux'')))) =
    (Inr (0, None), [Some demoEntry], [demoWorker], Some ''x86_64-linux'', Some 0)"
  by (simp add: demo_defs demoWorker_def demoEntry_def monad_defs hello_defs want_defs
      bestSystem_def bestStep_def topKey_def top_def maxFree_def countl_zero_def upt_rec Let_def del: sys_lookup)

lemma demoRunning_eval: "(case dispatch demoWaiting of (r, c) \<Rightarrow> (r, entries c, workers c)) =
    (Inr [\<lparr>aDrv = 0, aWorker = 0, aAssignId = 1, aClients = [7]\<rparr>], [Some (demoEntry\<lparr>eworker := 0, assignId := 1\<rparr>)],
     [demoWorker\<lparr>running := [0]\<rparr>])"
  by (simp add: demo_defs demoWorker_def demoEntry_def monad_defs hello_defs want_defs dispatch_defs Let_def upt_rec del: sys_lookup)

lemma demoUp_run: "hello demoHelloInfo (core0 config0) = (Inr (0, []), demoUp)"
  using demoUp_eval by (simp add: demoUp_def split: prod.splits)

lemma demoWaiting_run: "want 7 demoWantInfo 1 demoUp = (Inr (0, None), demoWaiting)"
  using demoWaiting_eval by (simp add: demoWaiting_def split: prod.splits)

lemma demoRunning_run: "dispatch demoWaiting = (Inr [\<lparr>aDrv = 0, aWorker = 0, aAssignId = 1, aClients = [7]\<rparr>], demoRunning)"
  using demoRunning_eval by (simp add: demoRunning_def split: prod.splits)

lemma demo_vals:
  "workers demoUp = [demoWorker]" "workers demoWaiting = [demoWorker]" "workers demoRunning = [demoWorker\<lparr>running := [0]\<rparr>]"
  "entries demoWaiting = [Some demoEntry]" "entries demoRunning = [Some (demoEntry\<lparr>eworker := 0, assignId := 1\<rparr>)]"
  "bestSystem demoWaiting = Some ''x86_64-linux''" "top (queue (sys demoWaiting ''x86_64-linux'')) = Some 0"
  using demoUp_eval demoWaiting_eval demoRunning_eval
  by (simp_all add: demoUp_run demoWaiting_run demoRunning_run)

lemmas demo_simps = demo_vals demoEntry_def demoWorker_def

lemma demoUp_reach: "coreReach config0 True demoUp"
proof -
  have room: "Suc (length (workers (core0 config0))) < noWorker" by (simp add: core0_def noWorker_def)
  from coreReach.reach_step [OF coreReach.reach_start coreStep.step_hello [OF room demoUp_run]] show ?thesis by simp
qed

lemma demoWaiting_reach: "coreReach config0 True demoWaiting"
proof -
  have sys: "wiSystem demoWantInfo \<noteq> []" by (simp add: demoWantInfo_def)
  from coreReach.reach_step [OF demoUp_reach coreStep.step_want [OF sys demoWaiting_run]] show ?thesis by simp
qed

lemma demoRunning_reach: "coreReach config0 True demoRunning"
  using coreReach.reach_step [OF demoWaiting_reach coreStep.step_dispatch [OF demoRunning_run]] by simp

section \<open>Correctness of the scheduler\<close>

lemma coreReach_slot:
  assumes "coreReach cf clean c"
  shows "slotOk c d"
  using coreReach_inv [OF assms] by (simp add: coreInv_def)

text \<open>C1: In every reachable state a derivation runs on at most one worker, the one its entry
  names: it is in that worker's list once, in nobody else's, the worker is up, and no queue
  has it.  A derivation no worker has is in the queue of its system, under its priority, and
  in no other, and some client waits for it.\<close>

theorem sched_one_place:
  assumes "coreReach cf clean c" and "eview (entries c) d = Some e"
  shows "if eworker e = noWorker
    then followers e \<noteq> [] \<and> (\<forall>w < length (workers c). d \<notin> set (running (workers c ! w))) \<and>
      (\<forall>s. qview (systems c) s d = (if s = esystem e then Some (prio (cfg c) e) else None))
    else eworker e < length (workers c) \<and> up (workers c ! eworker e) \<and> count_list (running (workers c ! eworker e)) d = 1 \<and>
      (\<forall>w < length (workers c). w \<noteq> eworker e \<longrightarrow> d \<notin> set (running (workers c ! w))) \<and>
      (\<forall>s. qview (systems c) s d = None)"
proof -
  note sl = coreReach_slot [OF assms(1), of d] and W = coreInvD(2) [OF coreReach_inv [OF assms(1)]]
  have w: "eworker e = noWorker \<Longrightarrow> \<not> eworker e < length (workers c)" using W by (auto simp: workersOk_def)
  have one: "count_list xs d = 1" if "d \<in> set xs" "distinct xs" for xs :: "nat list"
    using that by (induction xs) auto
  from sl w W assms(2) show ?thesis by (auto simp: slotOk_def entryOk_def workersOk_def intro!: one [simplified])
qed

theorem sched_one_place_witness:
  "\<exists>e. coreReach config0 True demoRunning \<and> eview (entries demoRunning) 0 = Some e \<and> eworker e = 0 \<and>
     count_list (running (workers demoRunning ! 0)) 0 = 1"
proof -
  have "\<exists>e. eview (entries demoRunning) 0 = Some e \<and> eworker e = 0"
    by (simp add: demo_simps eview_def)
  then show ?thesis using sched_one_place [OF demoRunning_reach, of 0] demoRunning_reach
    by (auto simp: noWorker_def split: if_splits)
qed

text \<open>C39: No operation reads or writes a vector out of range in a reachable state, nor fails
  in any way but two: a Want or a Hello when the table of derivations is full, and a Hello
  without an address.\<close>

theorem sched_errors:
  assumes reach: "coreReach cf clean c" and w: "w < length (workers c)" and room: "Suc (length (workers c)) < noWorker"
    and sys: "wiSystem info \<noteq> []"
    and x: "Inl x \<in> {map_sum id (\<lambda>_. ()) (fst (want cl info now c)), map_sum id (\<lambda>_. ()) (fst (cancel cl path c)),
      map_sum id (\<lambda>_. ()) (fst (clientGone cl c)), map_sum id (\<lambda>_. ()) (fst (hello hi c)),
      map_sum id (\<lambda>_. ()) (fst (coreDone w path outs c)), map_sum id (\<lambda>_. ()) (fst (giveBack w path c)),
      map_sum id (\<lambda>_. ()) (fst (setDraining w b c)), map_sum id (\<lambda>_. ()) (fst (workerGone w c)),
      map_sum id (\<lambda>_. ()) (fst (dispatch c)), map_sum id (\<lambda>_. ()) (fst (placeabilityChanges c))}"
  shows "x = NixError ''scheduler: derivation table full'' \<or> x = NixError ''scheduler: Hello without addr'' \<and> hiAddr hi = []"
proof -
  define stale where "stale = (if clean then {} else UNIV :: nat set)"
  have inv: "coreInv stale c" using coreReach_inv [OF reach] by (simp add: stale_def)
  have no: "Inl x \<noteq> map_sum id (\<lambda>_. ()) (fst (m c))" if "wp m Q noThrow c" for m :: "(core, 'a) prog" and Q
    using wp_noThrowD [OF that] by auto
  have fails: "\<exists>c'. E x c'" if "wp m Q E c" "Inl x = map_sum id (\<lambda>_. ()) (fst (m c))" for m :: "(core, 'a) prog" and Q E
    using that wp_run [OF that(1), of "fst (m c)" "snd (m c)"] by (auto simp: map_sum_def split: sum.splits)
  from x show ?thesis
    using fails [OF want_ok [OF inv sys]] fails [OF hello_ok [OF inv room]] no [OF cancel_ok [OF inv]]
      no [OF clientGone_ok [OF inv]] no [OF coreDone_ok [OF inv w]] no [OF giveBack_ok [OF inv w]]
      no [OF setDraining_ok [OF inv w]] no [OF workerGone_ok [OF inv w]] no [OF dispatch_ok [OF inv]]
      no [OF placeabilityChanges_ok [OF inv]] by auto
qed

theorem sched_errors_witness:
  "coreReach config0 True demoUp \<and>
   fst (hello (demoHelloInfo\<lparr>hiAddr := []\<rparr>) demoUp) = Inl (NixError ''scheduler: Hello without addr'')"
proof -
  have hyps: "0 < length (workers demoUp)" "Suc (length (workers demoUp)) < noWorker" "wiSystem demoWantInfo \<noteq> []"
    by (simp_all add: demo_vals noWorker_def demoWantInfo_def)
  obtain x where x: "fst (hello (demoHelloInfo\<lparr>hiAddr := []\<rparr>) demoUp) = Inl x"
    "x \<noteq> NixError ''scheduler: derivation table full''"
    by (simp add: hello_def monad_defs)
  with sched_errors [OF demoUp_reach hyps, of x 0 0 "[]" "demoHelloInfo\<lparr>hiAddr := []\<rparr>"] demoUp_reach show ?thesis by simp
qed

text \<open>C2: Dispatching a reachable state always ends and returns a list of assignments that is
  sound: each names a derivation that was waiting and its clients, and a worker that is up,
  not draining and offers the system and every feature it asks for; no worker gets more builds
  than its job slots unless it already ran more; no derivation is assigned twice; the
  assignment ids are the next 64-bit numbers in order; every other entry is left alone.\<close>

theorem dispatch_sound:
  assumes "coreReach cf clean c"
  shows "\<exists>out c'. dispatch c = (Inr out, c') \<and> distinct (map aDrv out) \<and>
    (\<forall>a \<in> set out. \<exists>e. eview (entries c) (aDrv a) = Some e \<and> eworker e = noWorker \<and> aClients a = followers e \<and>
      followers e \<noteq> [] \<and> aWorker a < length (workers c) \<and> takesWork (workers c ! aWorker a) \<and>
      offers (workers c ! aWorker a) e \<and>
      eview (entries c') (aDrv a) = Some (e\<lparr>eworker := aWorker a, assignId := aAssignId a\<rparr>)) \<and>
    (\<forall>w < length (workers c). int (length (running (workers c' ! w))) \<le>
      max (int (length (running (workers c ! w)))) (maxJobs (workers c ! w))) \<and>
    map aAssignId out = map (\<lambda>i. (lastAssignId c + Suc i) mod 2 ^ 64) [0..<length out] \<and>
    (\<forall>d. d \<notin> aDrv ` set out \<longrightarrow> eview (entries c') d = eview (entries c) d)"
proof -
  from wp_noThrowD [OF dispatch_ok [OF coreReach_inv [OF assms]]] obtain out c' where
    "dispatch c = (Inr out, c')" "outcome c c' out" by auto
  then show ?thesis unfolding outcome_def by (intro exI [of _ out] exI [of _ c']) blast
qed

theorem dispatch_sound_witness:
  "fst (dispatch demoWaiting) = Inr [\<lparr>aDrv = 0, aWorker = 0, aAssignId = 1, aClients = [7]\<rparr>] \<and>
   takesWork (workers demoWaiting ! 0) \<and> (\<exists>e. eview (entries demoWaiting) 0 = Some e \<and> offers (workers demoWaiting ! 0) e)"
  using dispatch_sound [OF demoWaiting_reach] demoRunning_run by auto

text \<open>C3: Dispatch is work conserving, as long as no Hello has failed half way: after it, a derivation
  that a worker with a free slot could build is assigned, unless the worker is the one that gave it
  back and another worker that takes work offers it.  A Hello that fails because the table of
  derivations is full leaves its worker up with no free slots in the index, so after one the
  scheduler may pass that worker over; such states are left out.\<close>

theorem dispatch_work_conserving:
  assumes "coreReach cf True c" and "dispatch c = (Inr out, c')" and "eview (entries c') d = Some e"
    and "w < length (workers c')" and "offers (workers c' ! w) e" and "takesWork (workers c' ! w)"
    and "int (length (running (workers c' ! w))) < maxJobs (workers c' ! w)"
    and "w \<noteq> avoid e \<or> (\<forall>x < length (workers c'). x \<noteq> w \<longrightarrow> \<not> (takesWork (workers c' ! x) \<and> offers (workers c' ! x) e))"
  shows "eworker e \<noteq> noWorker"
proof
  assume "eworker e = noWorker"
  with wp_noThrowD [OF dispatch_ok [OF coreReach_inv [OF assms(1)]]] assms(2,3) have "stuck {} c' e" by auto
  moreover have "canTake c' e w" using assms(4-7) by (simp add: canTake_def refreshVal_def)
  ultimately show False using assms(8) by (auto simp: stuck_def)
qed

theorem dispatch_work_conserving_witness:
  "\<exists>e. eview (entries demoRunning) 0 = Some e \<and> offers (workers demoRunning ! 0) e \<and> eworker e \<noteq> noWorker"
proof -
  have "\<exists>e. eview (entries demoRunning) 0 = Some e \<and> offers (workers demoRunning ! 0) e \<and> avoid e \<noteq> 0"
    "takesWork (workers demoRunning ! 0)"
    "int (length (running (workers demoRunning ! 0))) < maxJobs (workers demoRunning ! 0)"
    by (simp_all add: demo_simps eview_def offers_def takesWork_def noWorker_def)
  then show ?thesis
    using dispatch_work_conserving [OF demoWaiting_reach demoRunning_run, of 0 _ 0] by (auto simp: demo_vals)
qed

text \<open>C34: Dispatch serves the most urgent derivation first, across systems, as long as no Hello has failed half
  way.  It makes its assignments in the order of their keys, the smallest first.  And it prefers
  no derivation to a more urgent one: when a worker was given a derivation, every waiting
  derivation with a smaller key that was not assigned is one this worker does not offer, or one it gave back
  itself and another worker that takes work offers.\<close>

theorem dispatch_most_urgent:
  assumes "coreReach cf True c" and "dispatch c = (Inr out, c')"
  shows "sorted (map (\<lambda>a. prio (cfg c) (the (eview (entries c) (aDrv a)))) out) \<and>
    (\<forall>a \<in> set out. \<exists>ea. eview (entries c) (aDrv a) = Some ea \<and>
      (\<forall>d e. d \<notin> aDrv ` set out \<longrightarrow> eview (entries c) d = Some e \<longrightarrow> eworker e = noWorker \<longrightarrow>
        prio (cfg c) e < prio (cfg c) ea \<longrightarrow> offers (workers c ! aWorker a) e \<longrightarrow>
        aWorker a = avoid e \<and>
        (\<exists>x < length (workers c). x \<noteq> aWorker a \<and> takesWork (workers c ! x) \<and> offers (workers c ! x) e)))"
proof -
  have post: "outcome c c' out" "inOrder c out"
    using wp_run [OF dispatch_ok [OF coreReach_inv [OF assms(1)]] assms(2)] by simp_all
  have known: "\<exists>ea. eview (entries c) (aDrv a) = Some ea \<and> keyOf c a = prio (cfg c) ea" if "a \<in> set out" for a
    using post(1) that by (fastforce simp: outcome_def keyOf_def)
  then have eq: "map (keyOf c) out = map (\<lambda>a. prio (cfg c) (the (eview (entries c) (aDrv a)))) out" by fastforce
  have "sorted (map (keyOf c) out)" using post(2) by (simp add: inOrder_def)
  then have "sorted (map (\<lambda>a. prio (cfg c) (the (eview (entries c) (aDrv a)))) out)" unfolding eq .
  moreover have "\<exists>ea. eview (entries c) (aDrv a) = Some ea \<and>
      (\<forall>d e. d \<notin> aDrv ` set out \<longrightarrow> eview (entries c) d = Some e \<longrightarrow> eworker e = noWorker \<longrightarrow>
        prio (cfg c) e < prio (cfg c) ea \<longrightarrow> offers (workers c ! aWorker a) e \<longrightarrow>
        aWorker a = avoid e \<and>
        (\<exists>x < length (workers c). x \<noteq> aWorker a \<and> takesWork (workers c ! x) \<and> offers (workers c ! x) e))" if "a \<in> set out" for a
    using known [OF that] post(2) that unfolding inOrder_def by metis
  ultimately show ?thesis by blast
qed

text \<open>The waiting derivation and a more urgent one that came later.\<close>

definition demoTwo :: core where
  "demoTwo = snd (want 8 (demoWantInfo\<lparr>wiDrvPath := ''/nix/store/bbb-y.drv'', wiCpHintMs := 9\<rparr>) 1 demoWaiting)"

lemmas dispatchLoop_numeral = dispatchLoop.simps(2) [of "pred_numeral k", folded numeral_eq_Suc] for k

lemma demoTwo_eval:
  "fst (want 8 (demoWantInfo\<lparr>wiDrvPath := ''/nix/store/bbb-y.drv'', wiCpHintMs := 9\<rparr>) 1 demoWaiting) = Inr (1, None)"
  "fst (dispatch demoTwo) = Inr [\<lparr>aDrv = 1, aWorker = 0, aAssignId = 1, aClients = [8]\<rparr>, \<lparr>aDrv = 0, aWorker = 0, aAssignId = 2, aClients = [7]\<rparr>]"
  by (simp_all add: demoTwo_def demo_defs monad_defs hello_defs want_defs dispatch_defs siftDown_def siftDownLoop.simps
      dispatchLoop_numeral upt_rec Let_def del: sys_lookup)

theorem dispatch_most_urgent_witness:
  "\<exists>c'. dispatch demoTwo = (Inr [\<lparr>aDrv = 1, aWorker = 0, aAssignId = 1, aClients = [8]\<rparr>,
      \<lparr>aDrv = 0, aWorker = 0, aAssignId = 2, aClients = [7]\<rparr>], c') \<and>
    prio (cfg demoTwo) (the (eview (entries demoTwo) 1)) \<le> prio (cfg demoTwo) (the (eview (entries demoTwo) 0))"
proof -
  let ?info = "demoWantInfo\<lparr>wiDrvPath := ''/nix/store/bbb-y.drv'', wiCpHintMs := 9\<rparr>"
  have "want 8 ?info 1 demoWaiting = (Inr (1, None), demoTwo)"
    using demoTwo_eval(1) by (simp add: demoTwo_def prod_eq_iff)
  then have reach: "coreReach config0 True demoTwo"
    using coreReach.reach_step [OF demoWaiting_reach coreStep.step_want [of ?info]] by (simp add: demoWantInfo_def)
  obtain c' where "dispatch demoTwo = (Inr [\<lparr>aDrv = 1, aWorker = 0, aAssignId = 1, aClients = [8]\<rparr>,
      \<lparr>aDrv = 0, aWorker = 0, aAssignId = 2, aClients = [7]\<rparr>], c')"
    using demoTwo_eval(2) by (cases "dispatch demoTwo") auto
  with dispatch_most_urgent [OF reach this] show ?thesis by auto
qed

text \<open>C5: A worker that goes away takes no wanted work with it: every derivation with a client
  survives, with its clients; one the worker had waits again in the queue of its system;
  one nobody waits for is forgotten; entries of other workers do not change.\<close>

theorem workerGone_loses_nothing:
  assumes "coreReach cf clean c" and "w < length (workers c)"
  shows "\<exists>c'. workerGone w c = (Inr (), c') \<and> \<not> up (workers c' ! w) \<and> running (workers c' ! w) = [] \<and>
    (\<forall>d e. eview (entries c) d = Some e \<longrightarrow>
      (if eworker e \<noteq> w then eview (entries c') d = Some e
       else if followers e = [] then eview (entries c') d = None
       else eview (entries c') d = Some (e\<lparr>eworker := noWorker\<rparr>) \<and> qview (systems c') (esystem e) d = Some (prio (cfg c') e)))"
proof -
  from wp_noThrowD [OF workerGone_ok [OF coreReach_inv [OF assms(1)] assms(2)]] obtain c' where
    run: "workerGone w c = (Inr (), c')" and inv: "coreInv ((if clean then {} else UNIV) - {w}) c'"
    and ws: "workers c' = (workers c)[w := (workers c ! w)\<lparr>up := False, running := []\<rparr>]"
    and es: "\<forall>j. eview (entries c') j = afterGone w (eview (entries c) j)" by auto
  have q: "qview (systems c') (esystem e) d = Some (prio (cfg c') e)"
    if "eview (entries c') d = Some (e\<lparr>eworker := noWorker\<rparr>)" for d e
    using coreInvD(5) [OF inv, of d] that by (simp add: slotOk_def prio_def)
  have keep: "if eworker e \<noteq> w then eview (entries c') d = Some e
       else if followers e = [] then eview (entries c') d = None
       else eview (entries c') d = Some (e\<lparr>eworker := noWorker\<rparr>) \<and> qview (systems c') (esystem e) d = Some (prio (cfg c') e)"
    if e: "eview (entries c) d = Some e" for d e
    using spec [OF es, of d] q [of d e] unfolding e afterGone_def option.case by presburger
  have down: "\<not> up (workers c' ! w)" "running (workers c' ! w) = []" using ws assms(2) by simp_all
  show ?thesis by (intro exI [of _ c'] conjI allI impI run down keep)
qed

theorem workerGone_loses_nothing_witness:
  "\<exists>c' e. workerGone 0 demoRunning = (Inr (), c') \<and> eview (entries demoRunning) 0 = Some e \<and> eworker e = 0 \<and>
     eview (entries c') 0 = Some (e\<lparr>eworker := noWorker\<rparr>)"
proof -
  have "\<exists>e. eview (entries demoRunning) 0 = Some e \<and> eworker e = 0 \<and> followers e = [7]"
    by (simp add: demo_simps eview_def)
  with workerGone_loses_nothing [OF demoRunning_reach, of 0] show ?thesis by (auto simp: demo_vals)
qed

text \<open>C4: A Hello that returns has put the worker in place and lost nothing: the worker is up,
  not draining and offers what it said; every build it reports as running is assigned to it, and no other;
  every derivation with clients is still there with the same clients; and the list it returns
  names every wanted derivation the worker now has, so that its clients are told.\<close>

theorem hello_takes_over:
  assumes "coreReach cf clean c" and "Suc (length (workers c)) < noWorker" and "hello info c = (Inr (w, sups), c')"
  shows "w < length (workers c') \<and> waddr (workers c' ! w) = hiAddr info \<and> up (workers c' ! w) \<and> \<not> draining (workers c' ! w) \<and>
    wsystems (workers c' ! w) = hiSystems info \<and> wfeatures (workers c' ! w) = hiFeatures info \<and>
    maxJobs (workers c' ! w) = int (min (hiMaxJobs info) 63) \<and>
    (\<forall>(path, aid) \<in> set (hiRunning info). assignedTo w c' path) \<and>
    (\<forall>d e. eview (entries c') d = Some e \<longrightarrow> eworker e = w \<longrightarrow> pathKey (drvPath e) \<in> pathKey ` fst ` set (hiRunning info)) \<and>
    (\<forall>d e. eview (entries c) d = Some e \<longrightarrow> followers e \<noteq> [] \<longrightarrow>
      (\<exists>e'. eview (entries c') d = Some e' \<and> followers e' = followers e)) \<and>
    (\<forall>d e. eview (entries c') d = Some e \<longrightarrow> followers e \<noteq> [] \<longrightarrow> eworker e = w \<longrightarrow> d \<in> fst ` set sups)"
  using wp_run [OF hello_ok [OF coreReach_inv [OF assms(1)] assms(2)] assms(3)]
  by (auto simp: helloPost_def)

definition demoReport :: helloInfo where
  "demoReport = demoHelloInfo\<lparr>hiAddr := ''w2'', hiRunning := [(''/nix/store/aaa-x.drv'', 4)]\<rparr>"

theorem hello_takes_over_witness:
  "\<exists>c'. hello demoReport demoWaiting = (Inr (1, [(0, noWorker)]), c') \<and> assignedTo 1 c' ''/nix/store/aaa-x.drv''"
proof -
  have run: "fst (hello demoReport demoWaiting) = Inr (1, [(0, noWorker)])"
    by (simp add: demoReport_def demo_defs monad_defs hello_defs want_defs dispatch_defs helloRunning.simps helloAt_def Let_def del: sys_lookup)
  obtain c' where c': "hello demoReport demoWaiting = (Inr (1, [(0, noWorker)]), c')"
    using run by (cases "hello demoReport demoWaiting") auto
  have "Suc (length (workers demoWaiting)) < noWorker" by (simp add: demo_vals noWorker_def)
  from hello_takes_over [OF demoWaiting_reach this c'] c' show ?thesis by (simp add: demoReport_def)
qed

text \<open>C8: A client that disconnects is forgotten everywhere: no entry lists it any more; a derivation
  it alone waited for is dropped from the table if no worker has it, and is otherwise handed
  back for revocation, with its worker, exactly once per derivation; every other entry only
  loses that client.\<close>

theorem clientGone_forgets:
  assumes "coreReach cf clean c"
  shows "\<exists>revokes c'. clientGone cl c = (Inr revokes, c') \<and> follows c' cl = None \<and>
    (\<forall>d e. eview (entries c') d = Some e \<longrightarrow> cl \<notin> set (followers e)) \<and>
    (\<forall>d e. eview (entries c) d = Some e \<longrightarrow>
      eview (entries c') d = (if removeAll cl (followers e) = [] \<and> eworker e = noWorker then None
        else Some (e\<lparr>followers := removeAll cl (followers e)\<rparr>))) \<and>
    set revokes = {(d, w). \<exists>e. eview (entries c) d = Some e \<and> set (followers e) = {cl} \<and> eworker e = w \<and> w \<noteq> noWorker}"
proof -
  from wp_noThrowD [OF clientGone_ok [OF coreReach_inv [OF assms], of cl]] obtain r c' where
    run: "clientGone cl c = (Inr r, c')" and fl: "follows c' = (follows c)(cl := None)"
    and es: "\<And>j. eview (entries c') j = afterCancel cl (eview (entries c) j)"
    and r: "set r = {(j, w). toRevoke cl (eview (entries c) j) = Some w}" by auto
  have gone: "cl \<notin> set (followers e)" if "eview (entries c') d = Some e" for d e
    using that unfolding es by (rule afterCancel_gone)
  have each: "eview (entries c') d = (if removeAll cl (followers e) = [] \<and> eworker e = noWorker then None
        else Some (e\<lparr>followers := removeAll cl (followers e)\<rparr>))" if "eview (entries c) d = Some e" for d e
    unfolding es that by (simp add: afterCancel_def)
  have only: "cl \<in> set fs \<and> removeAll cl fs = [] \<longleftrightarrow> set fs = {cl}" for fs
    using set_removeAll [of cl fs] by (auto simp del: set_removeAll simp flip: set_empty)
  have rev: "set r = {(d, w). \<exists>e. eview (entries c) d = Some e \<and> set (followers e) = {cl} \<and> eworker e = w \<and> w \<noteq> noWorker}"
    unfolding r toRevoke_def by (auto simp: only [symmetric] split: option.splits if_splits)
  show ?thesis by (intro exI [of _ r] exI [of _ c'] conjI allI impI run gone each rev) (simp_all add: fl)
qed

theorem clientGone_forgets_witness:
  "\<exists>r c'. clientGone 7 demoRunning = (Inr r, c') \<and> set r = {(0, 0)}"
proof -
  from clientGone_forgets [OF demoRunning_reach, of 7] obtain r c' where
    "clientGone 7 demoRunning = (Inr r, c')"
    "set r = {(d, w). \<exists>e. eview (entries demoRunning) d = Some e \<and> set (followers e) = {7} \<and> eworker e = w \<and> w \<noteq> noWorker}"
    by blast
  moreover have "{(d, w). \<exists>e. eview (entries demoRunning) d = Some e \<and> set (followers e) = {7} \<and> eworker e = w \<and> w \<noteq> noWorker} = {(0, 0)}"
    by (auto simp: demo_simps eview_def noWorker_def split: if_splits)
  ultimately show ?thesis by auto
qed

text \<open>C9: Only the worker that has a derivation can finish it or hand it back.  Done from its worker
  drops the entry; a hand-back from its worker queues it again away from that worker, or
  drops it if nobody waits; from any other worker, or for an unknown path, neither changes
  any entry.\<close>

theorem done_and_giveBack_by_holder:
  assumes "coreReach cf clean c" and "w < length (workers c)"
  shows "\<exists>c1 c2. coreDone w path outs c = (Inr (), c1) \<and> giveBack w path c = (Inr (), c2) \<and>
    (if assignedTo w c path
     then \<exists>d e. findDrv c path = Some d \<and> eview (entries c) d = Some e \<and> eview (entries c1) = (eview (entries c))(d := None) \<and>
       eview (entries c2) = (eview (entries c))(d := if followers e = [] then None else Some (e\<lparr>eworker := noWorker, avoid := w\<rparr>))
     else eview (entries c1) = eview (entries c) \<and> eview (entries c2) = eview (entries c))"
proof -
  note inv = coreReach_inv [OF assms(1)]
  from wp_noThrowD [OF coreDone_ok [OF inv assms(2)]] obtain c1 where
    1: "coreDone w path outs c = (Inr (), c1)" "eview (entries c1) = afterDone c w path" by auto
  from wp_noThrowD [OF giveBack_ok [OF inv assms(2)]] obtain c2 where
    2: "giveBack w path c = (Inr (), c2)" "eview (entries c2) = afterGiveBack c w path" by auto
  show ?thesis
    by (rule exI [of _ c1], rule exI [of _ c2])
      (auto simp: 1 2 assignedTo_def afterDone_def afterGiveBack_def split: option.splits)
qed

theorem done_and_giveBack_by_holder_witness:
  "\<exists>c1 c2. coreDone 0 ''aaa-x.drv'' [] demoRunning = (Inr (), c1) \<and> giveBack 0 ''aaa-x.drv'' demoRunning = (Inr (), c2)"
proof -
  have "0 < length (workers demoRunning)" by (simp add: demo_vals)
  from done_and_giveBack_by_holder [OF demoRunning_reach this] show ?thesis by blast
qed

text \<open>C10: The report of who became placeable or unplaceable, computed with one lookup per distinct pair
  of system and features, agrees with asking for every waiting derivation: afterwards each
  one's flag says whether a worker that is up offers all it needs, exactly the derivations
  whose flag changed are returned, each once, and nothing else of any entry changes.\<close>

theorem placeabilityChanges_exact:
  assumes "coreReach cf clean c"
  shows "\<exists>out c'. placeabilityChanges c = (Inr out, c') \<and> distinct out \<and>
    (\<forall>d. d \<in> set out \<longleftrightarrow> (\<exists>e. eview (entries c) d = Some e \<and> eworker e = noWorker \<and> followers e \<noteq> [] \<and>
        unplaceable e = placeableEnt c e)) \<and>
    (\<forall>d e. eview (entries c) d = Some e \<longrightarrow> eview (entries c') d =
      Some (if eworker e = noWorker then e\<lparr>unplaceable := \<not> placeableEnt c e\<rparr> else e))"
proof -
  from wp_noThrowD [OF placeabilityChanges_ok [OF coreReach_inv [OF assms]]] obtain out c' where
    run: "placeabilityChanges c = (Inr out, c')" and es: "\<And>d. eview (entries c') d = toldSlot c (eview (entries c) d)"
    and out: "set out = {d. eview (entries c') d \<noteq> eview (entries c) d}" "distinct out" by auto
  have fol: "followers e \<noteq> []" if "eview (entries c) d = Some e" "eworker e = noWorker" for d e
    using coreReach_slot [OF assms, of d] that by (simp add: slotOk_def entryOk_def)
  have flag: "e\<lparr>unplaceable := b\<rparr> = e \<longleftrightarrow> unplaceable e = b" for e b by (cases e) auto
  have chg: "d \<in> set out \<longleftrightarrow> (\<exists>e. eview (entries c) d = Some e \<and> eworker e = noWorker \<and> followers e \<noteq> [] \<and>
        unplaceable e = placeableEnt c e)" for d
    unfolding out es toldSlot_def by (auto simp: flag split: option.splits)
  have each: "eview (entries c') d = Some (if eworker e = noWorker then e\<lparr>unplaceable := \<not> placeableEnt c e\<rparr> else e)"
    if "eview (entries c) d = Some e" for d e
    unfolding es that toldSlot_def using fol [OF that] by auto
  show ?thesis by (intro exI [of _ out] exI [of _ c'] conjI allI impI run out(2) chg each)
qed

theorem placeabilityChanges_exact_witness:
  "\<exists>out c'. placeabilityChanges demoRunning = (Inr out, c') \<and> set out = {}"
proof -
  from placeabilityChanges_exact [OF demoRunning_reach] obtain out c' where
    run: "placeabilityChanges demoRunning = (Inr out, c')" and out: "\<And>d. d \<in> set out \<longleftrightarrow>
      (\<exists>e. eview (entries demoRunning) d = Some e \<and> eworker e = noWorker \<and> followers e \<noteq> [] \<and> unplaceable e = placeableEnt demoRunning e)"
    by blast
  have "d \<notin> set out" for d using out [of d] by (auto simp: demo_simps eview_def noWorker_def split: if_splits)
  then have "set out = {}" by (metis ex_in_conv)
  with run show ?thesis by blast
qed

text \<open>C33: A Want either finds the table full and changes nothing, or leaves the client following the
  one entry of that path, found again by any path with the same hash part, and returns the
  worker and assignment id exactly when a worker has it.\<close>

theorem want_follows:
  assumes "coreReach cf clean c" and "wiSystem info \<noteq> []"
  shows "want cl info now c = (Inl (NixError ''scheduler: derivation table full''), c) \<and> length (entries c) = maxEntries \<and> freeIds c = [] \<or>
    (\<exists>d asg c' e. want cl info now c = (Inr (d, asg), c') \<and> findDrv c' (wiDrvPath info) = Some d \<and>
      eview (entries c') d = Some e \<and> cl \<in> set (followers e) \<and>
      asg = (if eworker e = noWorker then None else Some (eworker e, assignId e)) \<and>
      (\<forall>j. j \<noteq> d \<longrightarrow> eview (entries c') j = eview (entries c) j))"
proof -
  obtain r c' where r: "want cl info now c = (r, c')" by fastforce
  note post = wp_run [OF want_ok [OF coreReach_inv [OF assms(1)] assms(2)] r]
  show ?thesis
  proof (cases r)
    case (Inl x)
    then show ?thesis using post r by auto
  next
    case (Inr res)
    then obtain d asg e where res: "res = (d, asg)" and inv: "coreInv (if clean then {} else UNIV) c'"
      and e: "eview (entries c') = (eview (entries c))(d \<mapsto> e)" "pathKey (drvPath e) = pathKey (wiDrvPath info)"
        "cl \<in> set (followers e)" "asg = (if eworker e = noWorker then None else Some (eworker e, assignId e))"
      using post by (cases res) auto
    have "findDrv c' (wiDrvPath info) = Some d"
      using e(1,2) coreInvD(1) [OF inv] by (simp add: findDrv_def idsOk_def)
    with r Inr res e show ?thesis by simp
  qed
qed

theorem want_follows_witness:
  "\<exists>e. eview (entries demoWaiting) 0 = Some e \<and> 7 \<in> set (followers e) \<and> findDrv demoWaiting ''/nix/store/aaa-x.drv'' = Some 0"
proof -
  have sys: "wiSystem demoWantInfo \<noteq> []" and p: "wiDrvPath demoWantInfo = ''/nix/store/aaa-x.drv''" by (simp_all add: demoWantInfo_def)
  from want_follows [OF demoUp_reach sys, of 7 1] show ?thesis by (auto simp: demoWaiting_run p)
qed

end
