(* ===== verification/SchedStats.thy ===== *)
theory SchedStats
  imports SchedReach
begin

text \<open>
  The counters of the scheduler core (\<open>Core::stats\<close> and \<open>Core::featureKey\<close> of
  \<^verbatim>\<open>src/daemon/scheduler.hh\<close>), and that they count what they say.  The result, a
  \<open>std::map\<close>, is an association list; \<open>statOf\<close> reads it.
\<close>

section \<open>Counters\<close>

type_synonym statsKey = "string \<times> string"

record stats =
  sQueued :: nat
  sUnplaceable :: nat
  sRunning :: nat
  sSlots :: nat
  sFree :: nat

definition stats0 :: stats where
  "stats0 = \<lparr>sQueued = 0, sUnplaceable = 0, sRunning = 0, sSlots = 0, sFree = 0\<rparr>"

definition statOf :: "(statsKey \<times> stats) list \<Rightarrow> statsKey \<Rightarrow> stats" where
  "statOf out key = (case map_of out key of None \<Rightarrow> stats0 | Some sst \<Rightarrow> sst)"

text \<open>\<open>out[key]\<close>, changed by \<open>f\<close>.\<close>

definition statAt :: "statsKey \<Rightarrow> (stats \<Rightarrow> stats) \<Rightarrow> (statsKey \<times> stats) list \<Rightarrow> (statsKey \<times> stats) list" where
  "statAt key f out = AList.update key (f (statOf out key)) out"

definition featureKey :: "string list \<Rightarrow> string" where
  "featureKey feats = foldl (\<lambda>key feat. key @ (if key = [] then [] else '','') @ feat) [] (sort feats)"

definition statWorker :: "(statsKey \<times> stats) list \<Rightarrow> worker \<Rightarrow> (statsKey \<times> stats) list" where
  "statWorker out wkr =
     (case wsystems wkr of
        [] \<Rightarrow> out
      | system # _ \<Rightarrow>
          statAt (system, featureKey (wfeatures wkr))
            (\<lambda>sst. let sst = sst\<lparr>sRunning := sRunning sst + length (running wkr)\<rparr> in
               if \<not> takesWork wkr then sst
               else sst\<lparr>sSlots := sSlots sst + nat (maxJobs wkr),
                        sFree := sFree sst + nat (max 0 (maxJobs wkr - int (length (running wkr))))\<rparr>) out)"

text \<open>\<open>memo\<close> remembers whether a key is placeable.\<close>

definition statEntry :: "core \<Rightarrow> (statsKey \<times> stats) list \<times> (statsKey \<rightharpoonup> bool) \<Rightarrow> entry option
    \<Rightarrow> (statsKey \<times> stats) list \<times> (statsKey \<rightharpoonup> bool)" where
  "statEntry c acc slot =
     (case slot of
        None \<Rightarrow> acc
      | Some ent \<Rightarrow>
          if followers ent = [] \<or> eworker ent \<noteq> noWorker then acc
          else
            (let key = (esystem ent, featureKey (efeatures ent));
                 ok = (case snd acc key of None \<Rightarrow> placeableEnt c ent | Some b \<Rightarrow> b)
             in (statAt key (\<lambda>sst. sst\<lparr>sQueued := sQueued sst + 1,
                     sUnplaceable := sUnplaceable sst + (if ok then 0 else 1)\<rparr>) (fst acc),
                 (snd acc)(key \<mapsto> ok))))"

definition coreStats :: "core \<Rightarrow> (statsKey \<times> stats) list" where
  "coreStats c =
     (let out = foldl (\<lambda>out (name, state). statAt (name, []) (\<lambda>sst. sst) out) [] (systems c);
          out = foldl statWorker out (workers c)
      in fst (foldl (statEntry c) (out, Map.empty) (entries c)))"

section \<open>What the counters count\<close>

definition isWaiting :: "entry option \<Rightarrow> bool" where
  "isWaiting slot = (case slot of None \<Rightarrow> False | Some e \<Rightarrow> followers e \<noteq> [] \<and> eworker e = noWorker)"

definition entryKey :: "entry \<Rightarrow> statsKey" where
  "entryKey e = (esystem e, featureKey (efeatures e))"

lemma statOf_statAt [simp]: "statOf (statAt k f out) key = (if key = k then f (statOf out k) else statOf out key)"
  by (simp add: statOf_def statAt_def map_of_update)

lemma sum_statAt:
  assumes "distinct (map fst out)" "g stats0 = 0"
  shows "sum_list (map (\<lambda>(k, s). g s) (statAt key f out)) + g (statOf out key) =
    sum_list (map (\<lambda>(k, s). g s) out) + (g (f (statOf out key)) :: nat)"
  using assms(1)
proof (induction out)
  case Nil
  then show ?case by (simp add: statAt_def statOf_def assms(2))
next
  case (Cons p out)
  obtain k s where p: "p = (k, s)" by fastforce
  have "map_of out key = None" if "k = key" using Cons.prems that by (simp add: p map_of_eq_None_iff)
  then show ?case using Cons p by (auto simp: statAt_def statOf_def)
qed

lemma distinct_statAt: "distinct (map fst out) \<Longrightarrow> distinct (map fst (statAt k f out))"
  by (simp add: statAt_def distinct_update)

text \<open>The joined features name the set of them, as long as no feature is empty or has a comma.\<close>

definition plainFeature :: "string \<Rightarrow> bool" where
  "plainFeature feat \<longleftrightarrow> feat \<noteq> [] \<and> CHR '','' \<notin> set feat"

lemma join_foldl:
  "key \<noteq> [] \<Longrightarrow> foldl (\<lambda>key feat. key @ (if key = [] then [] else '','') @ feat) key feats =
    key @ concat (map (Cons CHR '','') feats)"
  by (induction feats arbitrary: key) simp_all

lemma join_eq:
  assumes "CHR '','' \<notin> set x" "CHR '','' \<notin> set y" "list_all plainFeature xs" "list_all plainFeature ys"
    and "x @ concat (map (Cons CHR '','') xs) = y @ concat (map (Cons CHR '','') ys)"
  shows "x = y \<and> xs = ys"
  using assms
proof (induction xs arbitrary: x y ys)
  case Nil
  then show ?case by (cases ys) (auto simp: append_eq_append_conv2 in_set_conv_decomp)
next
  case (Cons a xs)
  show ?case
  proof (cases ys)
    case Nil
    with Cons.prems show ?thesis by (auto simp: in_set_conv_decomp)
  next
    case (Cons b zs)
    have tw: "takeWhile (\<lambda>ch. ch \<noteq> CHR '','') (u @ CHR '','' # v) = u"
      "dropWhile (\<lambda>ch. ch \<noteq> CHR '','') (u @ CHR '','' # v) = CHR '','' # v" if "CHR '','' \<notin> set u" for u v
      using that by (auto simp: takeWhile_append dropWhile_append)
    from Cons Cons.prems(5) have eq: "x @ CHR '','' # (a @ concat (map (Cons CHR '','') xs)) = y @ CHR '','' # (b @ concat (map (Cons CHR '','') zs))" by simp
    have "x = y" using tw(1) [OF Cons.prems(1)] tw(1) [OF Cons.prems(2)] eq by metis
    moreover have "a = b \<and> xs = zs"
      using eq \<open>x = y\<close> Cons.prems(3,4) Cons by (intro Cons.IH) (auto simp: plainFeature_def)
    ultimately show ?thesis using Cons by simp
  qed
qed

lemma featureKey_inj:
  assumes "list_all plainFeature fs" "list_all plainFeature gs" "featureKey fs = featureKey gs"
  shows "set fs = set gs"
proof -
  have key: "featureKey hs = (case sort hs of [] \<Rightarrow> [] | h # rest \<Rightarrow> h @ concat (map (Cons CHR '','') rest))"
    if "list_all plainFeature hs" for hs
  proof (cases "sort hs")
    case (Cons h rest)
    then have "h \<in> set hs" by (metis list.set_intros(1) set_sort)
    with that have "h \<noteq> []" by (auto simp: list_all_iff plainFeature_def)
    then show ?thesis by (simp add: featureKey_def Cons join_foldl)
  qed (simp add: featureKey_def)
  have plain: "list_all plainFeature (sort hs)" if "list_all plainFeature hs" for hs
    using that by (simp add: list_all_iff)
  have "sort fs = sort gs"
    using assms(3) plain [OF assms(1)] plain [OF assms(2)] unfolding key [OF assms(1)] key [OF assms(2)]
    by (auto simp: plainFeature_def split: list.splits dest: join_eq)
  then show ?thesis by (metis set_sort)
qed

definition plainSlot :: "entry option \<Rightarrow> bool" where
  "plainSlot slot \<longleftrightarrow> (case slot of None \<Rightarrow> True | Some e \<Rightarrow> list_all plainFeature (efeatures e))"

lemma placeable_by_key:
  assumes "plainSlot (Some a)" "plainSlot (Some b)" "entryKey a = entryKey b"
  shows "placeableEnt c a = placeableEnt c b"
proof -
  have "set (efeatures a) = set (efeatures b)"
    by (rule featureKey_inj) (use assms in \<open>simp_all add: plainSlot_def entryKey_def\<close>)
  moreover have "esystem a = esystem b" using assms(3) by (simp add: entryKey_def)
  ultimately show ?thesis by (simp add: placeableEnt_def offers_def list_all_iff)
qed

text \<open>How many of the slots wait under a key, and how many of those nobody could build.\<close>

definition waitingFor :: "statsKey \<Rightarrow> entry option list \<Rightarrow> nat" where
  "waitingFor key slots = length (filter (\<lambda>slot. isWaiting slot \<and> entryKey (the slot) = key) slots)"

definition hopelessFor :: "core \<Rightarrow> statsKey \<Rightarrow> entry option list \<Rightarrow> nat" where
  "hopelessFor c key slots =
     length (filter (\<lambda>slot. isWaiting slot \<and> entryKey (the slot) = key \<and> \<not> placeableEnt c (the slot)) slots)"

definition memoOk :: "core \<Rightarrow> (statsKey \<rightharpoonup> bool) \<Rightarrow> bool" where
  "memoOk c memo \<longleftrightarrow> (\<forall>key b e. memo key = Some b \<longrightarrow> plainSlot (Some e) \<longrightarrow> entryKey e = key \<longrightarrow> b = placeableEnt c e)"

lemma statEntry_step:
  assumes "memoOk c (snd acc)" "plainSlot slot"
  shows "memoOk c (snd (statEntry c acc slot))"
    "statOf (fst (statEntry c acc slot)) key = (statOf (fst acc) key)
       \<lparr>sQueued := sQueued (statOf (fst acc) key) + waitingFor key [slot],
        sUnplaceable := sUnplaceable (statOf (fst acc) key) + hopelessFor c key [slot]\<rparr>"
proof -
  have ok: "(case snd acc (entryKey e) of None \<Rightarrow> placeableEnt c e | Some b \<Rightarrow> b) = placeableEnt c e" if "slot = Some e" for e
  proof (cases "snd acc (entryKey e)")
    case (Some b)
    with assms that have "b = placeableEnt c e" unfolding memoOk_def by blast
    with Some show ?thesis by simp
  qed simp
  show "memoOk c (snd (statEntry c acc slot))"
  proof (cases "slot \<noteq> None \<and> isWaiting slot")
    case True
    then obtain e where e: "slot = Some e" "isWaiting (Some e)" by auto
    have "snd (statEntry c acc slot) = (snd acc)(entryKey e \<mapsto> placeableEnt c e)"
      using e ok [OF e(1)] by (simp add: statEntry_def Let_def isWaiting_def entryKey_def)
    moreover have "placeableEnt c e = placeableEnt c e'" if "plainSlot (Some e')" "entryKey e' = entryKey e" for e'
      using placeable_by_key [of e e'] assms(2) that e(1) by simp
    ultimately show ?thesis using assms(1) unfolding memoOk_def by (metis fun_upd_apply option.inject)
  next
    case False
    then have "statEntry c acc slot = acc" by (auto simp: statEntry_def isWaiting_def split: option.splits)
    with assms(1) show ?thesis by simp
  qed
  show "statOf (fst (statEntry c acc slot)) key = (statOf (fst acc) key)
       \<lparr>sQueued := sQueued (statOf (fst acc) key) + waitingFor key [slot],
        sUnplaceable := sUnplaceable (statOf (fst acc) key) + hopelessFor c key [slot]\<rparr>"
    using ok by (auto simp: statEntry_def Let_def entryKey_def [symmetric] waitingFor_def hopelessFor_def isWaiting_def split: option.split)
qed

lemma statEntries:
  assumes "memoOk c (snd acc)" "list_all plainSlot slots"
  shows "statOf (fst (foldl (statEntry c) acc slots)) key = (statOf (fst acc) key)
       \<lparr>sQueued := sQueued (statOf (fst acc) key) + waitingFor key slots,
        sUnplaceable := sUnplaceable (statOf (fst acc) key) + hopelessFor c key slots\<rparr>"
  using assms
proof (induction slots arbitrary: acc)
  case Nil
  then show ?case by (simp add: waitingFor_def hopelessFor_def)
next
  case (Cons slot slots)
  have plain: "plainSlot slot" "list_all plainSlot slots" using Cons.prems(2) by simp_all
  have split: "waitingFor key (slot # slots) = waitingFor key [slot] + waitingFor key slots"
    "hopelessFor c key (slot # slots) = hopelessFor c key [slot] + hopelessFor c key slots"
    by (simp_all add: waitingFor_def hopelessFor_def)
  show ?case
    unfolding split foldl.simps Cons.IH [OF statEntry_step(1) [OF Cons.prems(1) plain(1)] plain(2)]
      statEntry_step(2) [OF Cons.prems(1) plain(1)]
    by simp
qed

lemma statWorkers_queued:
  "sQueued (statOf (foldl statWorker out ws) key) = sQueued (statOf out key)"
  "sUnplaceable (statOf (foldl statWorker out ws) key) = sUnplaceable (statOf out key)"
  by (induction ws arbitrary: out) (simp_all add: statWorker_def Let_def split: list.split)

lemma statSystems [simp]: "statOf (foldl (\<lambda>out (name, state). statAt (name, []) (\<lambda>sst. sst) out) out sts) key = statOf out key"
  by (induction sts arbitrary: out) (auto simp: split: prod.split)

lemma coreStats_exact:
  assumes "list_all plainSlot (entries c)"
  shows "sQueued (statOf (coreStats c) key) = waitingFor key (entries c)"
    "sUnplaceable (statOf (coreStats c) key) = hopelessFor c key (entries c)"
proof -
  have memo: "memoOk c Map.empty" by (simp add: memoOk_def)
  show "sQueued (statOf (coreStats c) key) = waitingFor key (entries c)"
    "sUnplaceable (statOf (coreStats c) key) = hopelessFor c key (entries c)"
    unfolding coreStats_def Let_def
    using statEntries [OF _ assms, of c "(_, Map.empty)"] memo
    by (simp_all add: statWorkers_queued) (simp_all add: statOf_def stats0_def)
qed

text \<open>Adding up the queued derivations over all keys gives the number of waiting entries.\<close>

definition totalQueued :: "(statsKey \<times> stats) list \<Rightarrow> nat" where
  "totalQueued out = sum_list (map (\<lambda>(k, s). sQueued s) out)"

lemma totalQueued_statAt:
  assumes "distinct (map fst out)"
  shows "totalQueued (statAt key f out) + sQueued (statOf out key) = totalQueued out + sQueued (f (statOf out key))"
  unfolding totalQueued_def by (rule sum_statAt [OF assms]) (simp add: stats0_def)

lemma totalQueued_bump:
  assumes "distinct (map fst out)" and "\<And>sst. sQueued (f sst) = sQueued sst + n"
  shows "totalQueued (statAt key f out) = totalQueued out + n"
  using totalQueued_statAt [OF assms(1), of key f] assms(2) by simp

lemma totalQueued_entries:
  assumes "distinct (map fst (fst acc))"
  shows "totalQueued (fst (foldl (statEntry c) acc slots)) = totalQueued (fst acc) + length (filter isWaiting slots)"
  using assms
proof (induction slots arbitrary: acc)
  case (Cons slot slots)
  have "distinct (map fst (fst (statEntry c acc slot)))"
    using Cons.prems by (auto simp: statEntry_def Let_def distinct_statAt split: option.split)
  moreover have "totalQueued (fst (statEntry c acc slot)) = totalQueued (fst acc) + (if isWaiting slot then 1 else 0)"
    by (auto simp: statEntry_def Let_def isWaiting_def totalQueued_bump [OF Cons.prems, where n = 1] split: option.split)
  ultimately show ?case using Cons.IH by simp
qed simp

lemma statWorkers_total:
  assumes "distinct (map fst out)"
  shows "distinct (map fst (foldl statWorker out ws)) \<and> totalQueued (foldl statWorker out ws) = totalQueued out"
  using assms
proof (induction ws arbitrary: out)
  case (Cons wkr ws)
  have "totalQueued (statWorker out wkr) = totalQueued out"
    by (auto simp: statWorker_def Let_def totalQueued_bump [OF Cons.prems, where n = 0] split: list.split)
  moreover have "distinct (map fst (statWorker out wkr))"
    using Cons.prems by (simp add: statWorker_def distinct_statAt split: list.split)
  ultimately show ?case using Cons.IH by simp
qed simp

lemma statSystems_total:
  assumes "distinct (map fst out)"
  shows "distinct (map fst (foldl (\<lambda>out (name, state). statAt (name, []) (\<lambda>sst. sst) out) out sts)) \<and>
    totalQueued (foldl (\<lambda>out (name, state). statAt (name, []) (\<lambda>sst. sst) out) out sts) = totalQueued out"
  using assms
proof (induction sts arbitrary: out)
  case (Cons st sts)
  obtain name state where st: "st = (name, state)" by fastforce
  show ?case using Cons.IH [OF distinct_statAt [OF Cons.prems]] totalQueued_statAt [OF Cons.prems, of "(name, [])" "\<lambda>sst. sst"]
    by (simp add: st)
qed simp

lemma totalQueued_waiting: "totalQueued (coreStats c) = length (filter isWaiting (entries c))"
proof -
  let ?o1 = "foldl (\<lambda>out (name, state). statAt (name, []) (\<lambda>sst. sst) out) [] (systems c)"
  have 1: "distinct (map fst ?o1)" "totalQueued ?o1 = 0"
    using statSystems_total [of "[]" "systems c"] by (simp_all add: totalQueued_def)
  have 2: "distinct (map fst (foldl statWorker ?o1 (workers c)))" "totalQueued (foldl statWorker ?o1 (workers c)) = 0"
    using statWorkers_total [OF 1(1)] 1(2) by simp_all
  show ?thesis
    unfolding coreStats_def Let_def
    using totalQueued_entries [of "(foldl statWorker ?o1 (workers c), Map.empty)" c "entries c"] 2 by simp
qed

lemma slotOk_queued:
  assumes "slotOk c d" "qview (systems c) s d \<noteq> None"
  obtains e where "eview (entries c) d = Some e" "eworker e = noWorker" "followers e \<noteq> []" "s = esystem e"
proof (cases "eview (entries c) d")
  case None
  with assms show ?thesis by (simp add: slotOk_def)
next
  case (Some e)
  then have "qview (systems c) s d = (if eworker e = noWorker \<and> s = esystem e then Some (prio (cfg c) e) else None)"
    "eworker e = noWorker \<longrightarrow> followers e \<noteq> []"
    using assms(1) by (simp_all add: slotOk_def entryOk_def)
  with assms(2) Some that show ?thesis by (auto split: if_splits)
qed

lemma queued_waiting:
  assumes "coreReach cf clean c"
  shows "queued c = length (filter isWaiting (entries c))"
proof -
  note sl = coreReach_slot [OF assms]
  have "d \<in> waiting (systems c) \<longleftrightarrow> d < length (entries c) \<and> isWaiting (entries c ! d)" for d
  proof
    assume "d \<in> waiting (systems c)"
    then obtain s where "qview (systems c) s d \<noteq> None" by (auto simp: waiting_def)
    then show "d < length (entries c) \<and> isWaiting (entries c ! d)"
      by (rule slotOk_queued [OF sl]) (auto simp: isWaiting_def eview_def split: if_splits)
  next
    assume "d < length (entries c) \<and> isWaiting (entries c ! d)"
    with sl [of d] show "d \<in> waiting (systems c)"
      by (auto simp: slotOk_def isWaiting_def eview_def waiting_def split: option.splits)
  qed
  then have "waiting (systems c) = {d. d < length (entries c) \<and> isWaiting (entries c ! d)}" by blast
  moreover have "queued c = card (waiting (systems c))"
  proof (rule queued_card [OF coreInvD(3) [OF coreReach_inv [OF assms]]])
    fix s t d assume "qview (systems c) s d \<noteq> None" "qview (systems c) t d \<noteq> None"
    then show "s = t" by (metis slotOk_queued [OF sl] option.inject)
  qed
  ultimately show ?thesis by (simp add: length_filter_conv_card)
qed

text \<open>C35: The counters count what they say.  The queued derivations add up to the sizes of the
  queues; and as long as no required feature is empty or has a comma, the counts under each
  system and set of features are exactly the derivations that wait under it and those of
  them no worker that takes work could build, although each answer is computed only once.\<close>

theorem stats_exact:
  assumes "coreReach cf clean c" and "list_all plainSlot (entries c)"
  shows "sum_list (map (\<lambda>(key, sst). sQueued sst) (coreStats c)) = queued c \<and>
    (\<forall>key. sQueued (statOf (coreStats c) key) = waitingFor key (entries c) \<and>
      sUnplaceable (statOf (coreStats c) key) = hopelessFor c key (entries c))"
  using coreStats_exact [OF assms(2)] queued_waiting [OF assms(1)] totalQueued_waiting [of c] by (simp add: totalQueued_def)

theorem stats_exact_witness:
  "queued demoWaiting = 1 \<and> sQueued (statOf (coreStats demoWaiting) (''x86_64-linux'', [])) = 1"
proof -
  have plain: "list_all plainSlot (entries demoWaiting)" by (simp add: demo_simps plainSlot_def)
  show ?thesis using stats_exact [OF demoWaiting_reach plain] queued_waiting [OF demoWaiting_reach]
    by (simp add: demo_simps waitingFor_def isWaiting_def entryKey_def featureKey_def)
qed

text \<open>With a comma inside a feature two sets of features share a key, and the second derivation is
  counted with the answer of the first.\<close>

definition commaCore :: core where
  "commaCore = (core0 config0)\<lparr>workers := [demoWorker\<lparr>wfeatures := [''a'', ''b'']\<rparr>],
     entries := [Some (demoEntry\<lparr>efeatures := [''a'', ''b'']\<rparr>), Some (demoEntry\<lparr>efeatures := [''a,b'']\<rparr>)]\<rparr>"

theorem stats_comma:
  "hopelessFor commaCore (''x86_64-linux'', ''a,b'') (entries commaCore) = 1"
  "sUnplaceable (statOf (coreStats commaCore) (''x86_64-linux'', ''a,b'')) = 0"
  by (simp_all add: commaCore_def hopelessFor_def isWaiting_def entryKey_def featureKey_def placeableEnt_def offers_def
      takesWork_def demoWorker_def demoEntry_def coreStats_def statEntry_def statWorker_def core0_def Let_def statOf_def
      statAt_def stats0_def less_eq_char_simp)

end
