(* ===== verification/Dispatcher.thy ===== *)
theory Dispatcher
  imports SchedStats
begin

text \<open>
  The dispatcher (class \<open>Dispatcher\<close> of \<^verbatim>\<open>src/daemon/dispatcher.cc\<close> and
  \<^verbatim>\<open>src/daemon/dispatcher.hh\<close>): it puts the scheduler core behind one mutex, knows the
  sessions of clients and workers, and turns what the core decides into messages.

  The state \<open>disp\<close> has the members of the class.  A client is its id, a worker session (an
  object \<open>Dispatcher::Worker\<close>) is a number, and \<open>sessId\<close> is its member \<open>id\<close>.  The closures
  \<open>send\<close> are modelled by what they do: a message is appended to \<open>outbox\<close>, and the send of a
  worker session fails when its stream is broken, which \<open>broken\<close> says and the environment
  decides.  Closures given to \<open>afterUnlock\<close> are values of \<open>deferredCall\<close>; \<open>withLock\<close> runs them
  when the lock is released, also when the body throws.  The clock is read once per
  operation and given as \<open>now\<close>, in milliseconds; \<open>Config\<close> is the record \<open>dconf\<close>, with the
  lookup in the shared cache, \<open>present\<close>, a parameter that may fail.  Counters of the metrics
  and log lines are not modelled; the gauges of \<open>exportStats\<close> are.
\<close>

section \<open>Messages\<close>

datatype schedMsg =
    EmptyMsg
  | AssignedMsg string string nat string     \<comment> \<open>derivation, worker address, assignment id, worker system\<close>
  | CachedMsg string
  | UnplaceableMsg string string             \<comment> \<open>derivation, reason\<close>
  | PlaceableMsg string
  | RestartingMsg

datatype schedCmd = ExpectCmd string nat | RevokeCmd string | RestartingCmd

record wantMsg =
  wmDrvPath :: string
  wmOutKeys :: "string list"
  wmBuildMode :: nat
  wmSystem :: string
  wmFeatures :: "string list"
  wmInputs :: "string list"
  wmCpHintMs :: nat

datatype clientMsg = WantMsg wantMsg | CancelMsg string | OtherClientMsg

record helloMsg =
  hmAddr :: string
  hmSystems :: "string list"
  hmFeatures :: "string list"
  hmMaxJobs :: nat
  hmRunning :: "(string \<times> nat) list"

datatype outcomeMsg = BUILT | FAILED | CANCELLED | NO_SHOW | GIVEN_BACK

datatype reasonMsg =
  REASON_UNSPECIFIED | DRAINING | PUBLISH_UNAVAILABLE | INPUT_UNAVAILABLE | UNREACHABLE | TRANSIENT_FAILURE

record doneMsg =
  dmDrvPath :: string
  dmAssignId :: nat
  dmOutcome :: outcomeMsg
  dmOutputs :: "(string \<times> nat) list"
  dmReason :: reasonMsg

datatype workerMsg = HelloMsg helloMsg | DoneMsg doneMsg | LoadMsg bool | OtherWorkerMsg

section \<open>State\<close>

type_synonym session_id = nat

record dconf =
  defaultSystem :: string
  present :: "(string list \<Rightarrow> string list option) option"   \<comment> \<open>\<open>None\<close> inside: it threw\<close>
  lookupThreads :: nat

record member =
  mAddr :: string
  mDraining :: bool

record orphanRec =
  oDrv :: drv_id
  oAssignId :: nat
  oDueMs :: real

datatype deferredCall = WakeWatcher nat | AbortSession session_id

datatype outgoing = ToClient client_id schedMsg | ToWorker session_id schedCmd | AbortClient client_id | Ran deferredCall

record disp =
  dcore :: core
  clients :: "client_id list"
  gone :: "client_id set"
  dworkers :: "(worker_id \<times> session_id) list"
  sessId :: "session_id \<rightharpoonup> worker_id"
  lettingGo :: bool
  orphans :: "orphanRec list"
  statsAtMs :: "real option"
  statsPending :: bool
  statGauges :: "(statsKey \<times> stats) list"
  nextClient :: nat
  watchers :: "nat list"
  nextWatcher :: nat
  published :: "string \<Rightarrow> member list"
  deferred :: "deferredCall list"
  lookupQueue :: "(client_id \<times> clientMsg list) list"
  broken :: "session_id set"
  outbox :: "outgoing list"

definition disp0 :: "config \<Rightarrow> disp" where
  "disp0 cf = \<lparr>dcore = core0 cf, clients = [], gone = {}, dworkers = [], sessId = Map.empty, lettingGo = False,
     orphans = [], statsAtMs = None, statsPending = False, statGauges = [], nextClient = 1, watchers = [],
     nextWatcher = 1, published = (\<lambda>_. []), deferred = [], lookupQueue = [], broken = {}, outbox = []\<rparr>"

definition maxSystemLen :: nat where
  "maxSystemLen = 64"

definition statsEveryMs :: real where
  "statsEveryMs = 1000"

definition orphanGraceMs :: real where
  "orphanGraceMs = 10000"

section \<open>Locking and sending\<close>

definition onCore :: "(core, 'a) prog \<Rightarrow> (disp, 'a) prog" where
  "onCore m = zoom dcore (\<lambda>c d. d\<lparr>dcore := c\<rparr>) m"

text \<open>\<open>Lock\<close>: its destructor runs what was deferred, whether the body returned or threw.\<close>

definition withLock :: "(disp, 'a) prog \<Rightarrow> (disp, 'a) prog" where
  "withLock m d = (case m d of (r, d') \<Rightarrow> (r, d'\<lparr>deferred := [], outbox := outbox d' @ map Ran (deferred d')\<rparr>))"

definition afterUnlock :: "deferredCall \<Rightarrow> (disp, unit) prog" where
  "afterUnlock call = upd (\<lambda>d. d\<lparr>deferred := deferred d @ [call]\<rparr>)"

definition sendClient :: "client_id \<Rightarrow> schedMsg \<Rightarrow> (disp, unit) prog" where
  "sendClient cid msg = upd (\<lambda>d. d\<lparr>outbox := outbox d @ [ToClient cid msg]\<rparr>)"

definition sendWorker :: "session_id \<Rightarrow> schedCmd \<Rightarrow> (disp, bool) prog" where
  "sendWorker sid cmd =
     bnd (gets broken) (\<lambda>br.
     if sid \<in> br then ret False
     else bnd (upd (\<lambda>d. d\<lparr>outbox := outbox d @ [ToWorker sid cmd]\<rparr>)) (\<lambda>_. ret True))"

section \<open>Membership\<close>

definition watchMembership :: "(disp, nat) prog" where
  "watchMembership = withLock (
     bnd (gets nextWatcher) (\<lambda>watcher.
     bnd (upd (\<lambda>d. d\<lparr>watchers := watchers d @ [watcher], nextWatcher := nextWatcher d + 1\<rparr>)) (\<lambda>_. ret watcher)))"

definition unwatchMembership :: "nat \<Rightarrow> (disp, unit) prog" where
  "unwatchMembership watcher = withLock (upd (\<lambda>d. d\<lparr>watchers := removeAll watcher (watchers d)\<rparr>))"

definition wakeWatchersLocked :: "(disp, unit) prog" where
  "wakeWatchersLocked = bnd (gets watchers) (\<lambda>ws. forEach ws (\<lambda>watcher. afterUnlock (WakeWatcher watcher)))"

text \<open>The next \<open>Membership\<close>: a worker that is up is listed under each of its systems.\<close>

definition addMembers :: "(string \<Rightarrow> member list) \<Rightarrow> worker \<Rightarrow> string \<Rightarrow> member list" where
  "addMembers nxt wkr =
     (if \<not> up wkr then nxt
      else foldl (\<lambda>m system. m(system := m system @ [\<lparr>mAddr = waddr wkr, mDraining = \<not> takesWork wkr\<rparr>])) nxt (wsystems wkr))"

definition membershipOf :: "core \<Rightarrow> string \<Rightarrow> member list" where
  "membershipOf c = foldl addMembers (\<lambda>_. []) (workers c)"

definition membershipChangedLocked :: "(disp, unit) prog" where
  "membershipChangedLocked =
     bnd (upd (\<lambda>d. d\<lparr>published := membershipOf (dcore d)\<rparr>)) (\<lambda>_. wakeWatchersLocked)"

section \<open>Cache lookups\<close>

definition systemFor :: "dconf \<Rightarrow> string \<Rightarrow> string" where
  "systemFor cf system = (if system = [] \<or> system = ''builtin'' then defaultSystem cf else system)"

definition wantsLookup :: "wantMsg \<Rightarrow> bool" where
  "wantsLookup w \<longleftrightarrow> wmBuildMode w = 0 \<and> wmOutKeys w \<noteq> [] \<and> wmDrvPath w \<noteq> []"

definition lookupKeys :: "clientMsg list \<Rightarrow> string list" where
  "lookupKeys msgs = concat (map (\<lambda>msg. case msg of WantMsg w \<Rightarrow> if wantsLookup w then wmOutKeys w else [] | _ \<Rightarrow> []) msgs)"

definition lookupMsgs :: "dconf \<Rightarrow> clientMsg list \<Rightarrow> bool list" where
  "lookupMsgs cf msgs =
     (case present cf of
        None \<Rightarrow> replicate (length msgs) False
      | Some pres \<Rightarrow>
          if lookupKeys msgs = [] then replicate (length msgs) False
          else
            (case pres (lookupKeys msgs) of
               None \<Rightarrow> replicate (length msgs) False
             | Some have \<Rightarrow>
                 map (\<lambda>msg. case msg of WantMsg w \<Rightarrow> wantsLookup w \<and> list_all (\<lambda>key. key \<in> set have) (wmOutKeys w) | _ \<Rightarrow> False) msgs))"

section \<open>Messages to followers\<close>

definition assignedMsg :: "drv_id \<Rightarrow> (disp, schedMsg) prog" where
  "assignedMsg drv =
     bnd (onCore (slotAt drv)) (\<lambda>slot.
     case slot of
       None \<Rightarrow> ret EmptyMsg
     | Some ent \<Rightarrow>
         if eworker ent = noWorker then ret EmptyMsg
         else bnd (onCore (workerAt (eworker ent))) (\<lambda>wkr.
           ret (AssignedMsg (drvPath ent) (waddr wkr) (assignId ent)
             (case wsystems wkr of [] \<Rightarrow> [] | name # _ \<Rightarrow> name))))"

definition joinFeats :: "string list \<Rightarrow> string" where
  "joinFeats feats = concat (case feats of [] \<Rightarrow> [] | f # fs \<Rightarrow> f # map (\<lambda>g. '','' @ g) fs)"

definition unplaceableMsg :: "core \<Rightarrow> entry \<Rightarrow> schedMsg" where
  "unplaceableMsg c ent = UnplaceableMsg (drvPath ent)
     (''no connected, non-draining worker for system '' @ [CHR 0x27] @ esystem ent @ [CHR 0x27] @ '' offers features {'' @
      joinFeats (efeatures ent) @ ''}, the workers offer {'' @ joinFeats (offeredFeatures c (esystem ent)) @ ''}'')"

definition sendToFollowers :: "drv_id \<Rightarrow> schedMsg \<Rightarrow> (disp, unit) prog" where
  "sendToFollowers drv msg =
     bnd (onCore (slotAt drv)) (\<lambda>slot.
     case slot of
       None \<Rightarrow> ret ()
     | Some ent \<Rightarrow> forEach (followers ent) (\<lambda>cid.
         bnd (gets clients) (\<lambda>cs. if cid \<in> set cs then sendClient cid msg else ret ())))"

definition placeabilityChangedLocked :: "(disp, unit) prog" where
  "placeabilityChangedLocked =
     bnd (onCore placeabilityChanges) (\<lambda>changed.
     forEach changed (\<lambda>drv.
       bnd (onCore (slotAt drv)) (\<lambda>slot.
       case slot of
         None \<Rightarrow> ret ()
       | Some ent \<Rightarrow>
           bnd (gets dcore) (\<lambda>c.
           sendToFollowers drv (if unplaceable ent then unplaceableMsg c ent else PlaceableMsg (drvPath ent))))))"

definition revokeOn :: "worker_id \<Rightarrow> string \<Rightarrow> (disp, unit) prog" where
  "revokeOn wid path =
     bnd (gets dworkers) (\<lambda>ws.
     case map_of ws wid of
       None \<Rightarrow> ret ()
     | Some sid \<Rightarrow> bnd (sendWorker sid (RevokeCmd path)) (\<lambda>_. ret ()))"

definition supersede :: "drv_id \<Rightarrow> worker_id \<Rightarrow> (disp, unit) prog" where
  "supersede drv loser =
     bnd (onCore (slotAt drv)) (\<lambda>slot.
     case slot of
       None \<Rightarrow> ret ()
     | Some ent \<Rightarrow>
         bnd (assignedMsg drv) (\<lambda>msg.
         bnd (sendToFollowers drv msg) (\<lambda>_.
         if loser = noWorker then ret () else revokeOn loser (drvPath ent))))"

section \<open>Dispatching and gauges\<close>

definition exportStats :: "bool \<Rightarrow> real \<Rightarrow> (disp, unit) prog" where
  "exportStats force now =
     bnd (gets statsAtMs) (\<lambda>last.
     if \<not> force \<and> (case last of None \<Rightarrow> False | Some t \<Rightarrow> now - t < statsEveryMs)
     then upd (\<lambda>d. d\<lparr>statsPending := True\<rparr>)
     else upd (\<lambda>d. d\<lparr>statsAtMs := Some now, statsPending := False, statGauges := coreStats (dcore d)\<rparr>))"

text \<open>One assignment: the worker is told first, then the clients.  When the worker cannot be told
  it is taken for gone.\<close>

definition deliverAssign :: "assign \<Rightarrow> (disp, unit) prog" where
  "deliverAssign asg =
     bnd (onCore (slotAt (aDrv asg))) (\<lambda>slot.
     case slot of
       None \<Rightarrow> ret ()
     | Some ent \<Rightarrow>
         bnd (onCore (workerAt (aWorker asg))) (\<lambda>wkr.
         bnd (gets dworkers) (\<lambda>ws.
         bnd (case map_of ws (aWorker asg) of
                None \<Rightarrow> ret False
              | Some sid \<Rightarrow> sendWorker sid (ExpectCmd (drvPath ent) (aAssignId asg))) (\<lambda>delivered.
         if \<not> delivered then
           bnd (onCore (workerGone (aWorker asg))) (\<lambda>_.
           bnd membershipChangedLocked (\<lambda>_.
           bnd (upd (\<lambda>d. d\<lparr>dworkers := AList.delete (aWorker asg) (dworkers d)\<rparr>)) (\<lambda>_.
           placeabilityChangedLocked)))
         else bnd (assignedMsg (aDrv asg)) (\<lambda>msg. sendToFollowers (aDrv asg) msg)))))"

definition dispatchLocked :: "real \<Rightarrow> (disp, unit) prog" where
  "dispatchLocked now =
     bnd (onCore dispatch) (\<lambda>out.
     bnd (forEach out deliverAssign) (\<lambda>_.
     exportStats False now))"

text \<open>\<open>std::erase_if\<close> asks each orphan once, in order.\<close>

fun revokeDue :: "real \<Rightarrow> orphanRec list \<Rightarrow> (disp, orphanRec list) prog" where
  "revokeDue now [] = ret []"
| "revokeDue now (orp # rest) =
     (if oDueMs orp > now then bnd (revokeDue now rest) (\<lambda>kept. ret (orp # kept))
      else
        bnd (onCore (slotAt (oDrv orp))) (\<lambda>slot.
        bnd (case slot of
               None \<Rightarrow> ret ()
             | Some ent \<Rightarrow>
                 if assignId ent = oAssignId orp \<and> eworker ent \<noteq> noWorker \<and> followers ent = []
                 then revokeOn (eworker ent) (drvPath ent) else ret ()) (\<lambda>_.
        revokeDue now rest)))"

definition revokeOrphans :: "real \<Rightarrow> (disp, unit) prog" where
  "revokeOrphans now =
     bnd (gets orphans) (\<lambda>os.
     bnd (revokeDue now os) (\<lambda>kept. upd (\<lambda>d. d\<lparr>orphans := kept\<rparr>)))"

text \<open>One round of \<open>statsLoop\<close>.\<close>

definition statsRound :: "real \<Rightarrow> (disp, unit) prog" where
  "statsRound now = withLock (
     bnd (revokeOrphans now) (\<lambda>_.
     bnd (gets statsPending) (\<lambda>pending.
     if pending then exportStats True now else ret ())))"

section \<open>Clients\<close>

definition connectClient :: "(disp, client_id) prog" where
  "connectClient =
     bnd (gets nextClient) (\<lambda>cid.
     bnd (upd (\<lambda>d. d\<lparr>nextClient := nextClient d + 1\<rparr>)) (\<lambda>_.
     withLock (bnd (upd (\<lambda>d. d\<lparr>clients := clients d @ [cid]\<rparr>)) (\<lambda>_. ret cid))))"

definition serving :: "(disp, unit) prog" where
  "serving = withLock (upd (\<lambda>d. d\<lparr>lettingGo := False\<rparr>))"

definition restarting :: "(disp, unit) prog" where
  "restarting = withLock (
     bnd (upd (\<lambda>d. d\<lparr>lettingGo := True\<rparr>)) (\<lambda>_.
     bnd wakeWatchersLocked (\<lambda>_.
     bnd (gets clients) (\<lambda>cs.
     bnd (forEach cs (\<lambda>cid. sendClient cid RestartingMsg)) (\<lambda>_.
     bnd (gets dworkers) (\<lambda>ws.
     forEach ws (\<lambda>(wid, sid). bnd (sendWorker sid RestartingCmd) (\<lambda>_. ret ()))))))))"

definition onWant :: "dconf \<Rightarrow> real \<Rightarrow> client_id \<Rightarrow> wantMsg \<Rightarrow> bool \<Rightarrow> (disp, unit) prog" where
  "onWant cf now cid w cached =
     (if wmDrvPath w = [] then ret ()
      else
        bnd (gets lettingGo) (\<lambda>letting.
        if letting then sendClient cid RestartingMsg
        else if cached then sendClient cid (CachedMsg (wmDrvPath w))
        else if length (wmSystem w) > maxSystemLen then
          sendClient cid (UnplaceableMsg (wmDrvPath w) (''bad system '' @ [CHR 0x27] @ wmSystem w @ [CHR 0x27]))
        else
          let system = systemFor cf (wmSystem w) in
          bnd (gets (\<lambda>d. admitsSystem (dcore d) system)) (\<lambda>admits.
          if \<not> admits then
            sendClient cid (UnplaceableMsg (wmDrvPath w)
              (''too many systems no worker offers, not keeping '' @ [CHR 0x27] @ system @ [CHR 0x27]))
          else
            bnd (onCore (want cid \<lparr>wiDrvPath = wmDrvPath w, wiInputs = wmInputs w, wiSystem = system,
                wiFeatures = wmFeatures w, wiCpHintMs = real (wmCpHintMs w)\<rparr> now)) (\<lambda>(drv, assigned).
            if assigned \<noteq> None then bnd (assignedMsg drv) (\<lambda>msg. sendClient cid msg)
            else
              bnd (dispatchLocked now) (\<lambda>_.
              bnd (onCore (slotAt drv)) (\<lambda>slot.
              case slot of
                None \<Rightarrow> ret ()
              | Some ent \<Rightarrow>
                  if eworker ent \<noteq> noWorker then ret ()
                  else bnd (onCore (placeable drv)) (\<lambda>pl.
                    if pl then ret ()
                    else
                      bnd (onCore (markUnplaceable drv True)) (\<lambda>_.
                      bnd (gets dcore) (\<lambda>c.
                      bnd (sendClient cid (unplaceableMsg c ent)) (\<lambda>_.
                      exportStats False now))))))))))"

definition onCancel :: "client_id \<Rightarrow> string \<Rightarrow> (disp, unit) prog" where
  "onCancel cid path =
     bnd (onCore (cancel cid path)) (\<lambda>wid.
     case wid of None \<Rightarrow> ret () | Some w \<Rightarrow> revokeOn w path)"

definition onClientMsg :: "dconf \<Rightarrow> real \<Rightarrow> client_id \<Rightarrow> clientMsg \<times> bool \<Rightarrow> (disp, unit) prog" where
  "onClientMsg cf now cid m =
     (case fst m of
        WantMsg w \<Rightarrow> onWant cf now cid w (snd m)
      | CancelMsg path \<Rightarrow> onCancel cid path
      | OtherClientMsg \<Rightarrow> ret ())"

definition chunk :: nat where
  "chunk = 256"

text \<open>The lock is taken once per chunk, and a client that went away meanwhile ends the loop.\<close>

function applyChunks :: "dconf \<Rightarrow> real \<Rightarrow> client_id \<Rightarrow> (clientMsg \<times> bool) list \<Rightarrow> (disp, unit) prog" where
  "applyChunks cf now cid ms =
     (if ms = [] then ret ()
      else
        bnd (withLock (
          bnd (gets gone) (\<lambda>gs.
          if cid \<in> gs then ret True
          else bnd (forEach (take chunk ms) (onClientMsg cf now cid)) (\<lambda>_. ret False)))) (\<lambda>stop.
        if stop then ret () else applyChunks cf now cid (drop chunk ms)))"
  by pat_completeness auto
termination
  by (relation "measure (\<lambda>(cf, now, cid, ms). length ms)") (auto simp: chunk_def)

definition applyClientMsgs :: "dconf \<Rightarrow> real \<Rightarrow> client_id \<Rightarrow> clientMsg list \<Rightarrow> bool list \<Rightarrow> (disp, unit) prog" where
  "applyClientMsgs cf now cid msgs cached = applyChunks cf now cid (zip msgs cached)"

definition clientMsgs :: "dconf \<Rightarrow> real \<Rightarrow> client_id \<Rightarrow> clientMsg list \<Rightarrow> (disp, unit) prog" where
  "clientMsgs cf now cid msgs =
     (let needs = present cf \<noteq> None \<and> list_ex (\<lambda>msg. case msg of WantMsg w \<Rightarrow> wantsLookup w | _ \<Rightarrow> False) msgs in
      if needs \<and> 0 < lookupThreads cf then upd (\<lambda>d. d\<lparr>lookupQueue := lookupQueue d @ [(cid, msgs)]\<rparr>)
      else applyClientMsgs cf now cid msgs (lookupMsgs cf msgs))"

text \<open>One job of \<open>lookupLoop\<close>.  An exception ends only that client.\<close>

definition lookupRound :: "dconf \<Rightarrow> real \<Rightarrow> (disp, unit) prog" where
  "lookupRound cf now =
     bnd (gets lookupQueue) (\<lambda>q.
     case q of
       [] \<Rightarrow> ret ()
     | (cid, msgs) # rest \<Rightarrow>
         bnd (upd (\<lambda>d. d\<lparr>lookupQueue := rest\<rparr>)) (\<lambda>_ d.
         case applyClientMsgs cf now cid msgs (lookupMsgs cf msgs) d of
           (Inr _, d') \<Rightarrow> (Inr (), d')
         | (Inl e, d') \<Rightarrow>
             withLock (bnd (gets gone) (\<lambda>gs.
               if cid \<in> gs then ret () else upd (\<lambda>d. d\<lparr>outbox := outbox d @ [AbortClient cid]\<rparr>))) d'))"

definition dClientGone :: "real \<Rightarrow> client_id \<Rightarrow> (disp, unit) prog" where
  "dClientGone now cid = withLock (
     bnd (upd (\<lambda>d. d\<lparr>clients := removeAll cid (clients d), gone := insert cid (gone d)\<rparr>)) (\<lambda>_.
     bnd (onCore (clientGone cid)) (\<lambda>revokes.
     bnd (forEach revokes (\<lambda>(drv, wid).
       bnd (onCore (slotAt drv)) (\<lambda>slot.
       case slot of
         None \<Rightarrow> ret ()
       | Some ent \<Rightarrow> upd (\<lambda>d. d\<lparr>orphans := orphans d @
           [\<lparr>oDrv = drv, oAssignId = assignId ent, oDueMs = now + orphanGraceMs\<rparr>]\<rparr>)))) (\<lambda>_.
     exportStats False now))))"

section \<open>Workers\<close>

fun helloSystems :: "dconf \<Rightarrow> string list \<Rightarrow> (disp, string list) prog" where
  "helloSystems cf [] = ret []"
| "helloSystems cf (name # rest) =
     (if length name > maxSystemLen
      then throw (NixError (''WorkerSession: bad system '' @ [CHR 0x27] @ name @ [CHR 0x27]))
      else bnd (helloSystems cf rest) (\<lambda>systems. ret (systemFor cf name # systems)))"

definition onHello :: "dconf \<Rightarrow> session_id \<Rightarrow> helloMsg \<Rightarrow> (disp, unit) prog" where
  "onHello cf sid hel =
     (if hmSystems hel = [] then throw (NixError (''worker '' @ hmAddr hel @ '' offers no system''))
      else
        bnd (helloSystems cf (hmSystems hel)) (\<lambda>systems.
        bnd (onCore (workerId (hmAddr hel))) (\<lambda>wid.
        bnd (gets dworkers) (\<lambda>ws.
        bnd (case map_of ws wid of
               None \<Rightarrow> ret ()
             | Some old \<Rightarrow>
                 if old = sid then ret ()
                 else bnd (upd (\<lambda>d. d\<lparr>sessId := (sessId d)(old := None)\<rparr>)) (\<lambda>_. afterUnlock (AbortSession old))) (\<lambda>_.
        bnd (onCore (hello \<lparr>hiAddr = hmAddr hel, hiSystems = systems, hiFeatures = hmFeatures hel,
            hiMaxJobs = hmMaxJobs hel, hiRunning = hmRunning hel\<rparr>)) (\<lambda>(wid, superseded).
        bnd (upd (\<lambda>d. d\<lparr>dworkers := AList.update wid sid (dworkers d), sessId := (sessId d)(sid \<mapsto> wid)\<rparr>)) (\<lambda>_.
        bnd membershipChangedLocked (\<lambda>_.
        bnd (forEach superseded (\<lambda>(drv, loser). supersede drv loser)) (\<lambda>_.
        placeabilityChangedLocked)))))))))"

definition onDone :: "worker_id \<Rightarrow> doneMsg \<Rightarrow> (disp, unit) prog" where
  "onDone wid dn =
     (if dmOutcome dn = GIVEN_BACK \<or> dmOutcome dn = NO_SHOW then
        bnd (onCore (giveBack wid (dmDrvPath dn))) (\<lambda>_. placeabilityChangedLocked)
      else onCore (coreDone wid (dmDrvPath dn) (if dmOutcome dn = BUILT then dmOutputs dn else [])))"

definition workerMsgLocked :: "dconf \<Rightarrow> session_id \<Rightarrow> workerMsg \<Rightarrow> (disp, unit) prog" where
  "workerMsgLocked cf sid msg =
     (case msg of
        HelloMsg hel \<Rightarrow> onHello cf sid hel
      | _ \<Rightarrow>
          bnd (gets (\<lambda>d. sessId d sid)) (\<lambda>wid.
          case wid of
            None \<Rightarrow> throw (NixError ''WorkerSession: first message must be Hello'')
          | Some w \<Rightarrow>
              (case msg of
                 DoneMsg dn \<Rightarrow> onDone w dn
               | LoadMsg drains \<Rightarrow>
                   bnd (onCore (setDraining w drains)) (\<lambda>_.
                   bnd membershipChangedLocked (\<lambda>_. placeabilityChangedLocked))
               | _ \<Rightarrow> ret ())))"

definition workerMsgs :: "dconf \<Rightarrow> real \<Rightarrow> session_id \<Rightarrow> workerMsg list \<Rightarrow> (disp, unit) prog" where
  "workerMsgs cf now sid msgs =
     (if msgs = [] then ret ()
      else withLock (
        bnd (gets (\<lambda>d. sessId d sid)) (\<lambda>wid.
        if wid = None \<and> (case hd msgs of HelloMsg _ \<Rightarrow> False | _ \<Rightarrow> True)
        then throw (NixError ''WorkerSession: first message must be Hello'')
        else
          bnd (forEach msgs (workerMsgLocked cf sid)) (\<lambda>_.
          bnd (dispatchLocked now) (\<lambda>_.
          exportStats False now)))))"

definition dWorkerGone :: "real \<Rightarrow> session_id \<Rightarrow> (disp, unit) prog" where
  "dWorkerGone now sid = withLock (
     bnd (gets (\<lambda>d. sessId d sid)) (\<lambda>wid.
     case wid of
       None \<Rightarrow> ret ()
     | Some w \<Rightarrow>
         bnd (onCore (workerGone w)) (\<lambda>_.
         bnd (upd (\<lambda>d. d\<lparr>dworkers := AList.delete w (dworkers d)\<rparr>)) (\<lambda>_.
         bnd membershipChangedLocked (\<lambda>_.
         bnd (dispatchLocked now) (\<lambda>_.
         bnd placeabilityChangedLocked (\<lambda>_.
         bnd (exportStats False now) (\<lambda>_.
         upd (\<lambda>d. d\<lparr>sessId := (sessId d)(sid := None)\<rparr>)))))))))"

end
