(* ===== verification/DispatcherInv.thy ===== *)
theory DispatcherInv
  imports Dispatcher "HOL-Library.Sublist"
begin

text \<open>
  The dispatcher around the scheduler core (theory \<open>Dispatcher\<close>): whatever clients and workers send, in whatever order, with
  streams that break and operations that throw, the core stays within the states its own theorems are about, every session
  that is registered names a worker the core knows, and the membership that other daemons see is the one of the core.
\<close>

section \<open>Programs that keep a property\<close>

text \<open>\<open>keepsP P m\<close>: \<open>m\<close> started with \<open>P\<close> ends with \<open>P\<close>, whether it returns or throws.\<close>

definition keepsP :: "('s \<Rightarrow> bool) \<Rightarrow> ('s, 'a) prog \<Rightarrow> bool" where
  "keepsP P m \<longleftrightarrow> (\<forall>s. P s \<longrightarrow> P (snd (m s)))"

named_theorems keep_intros \<open>programs that keep a property\<close>

lemma keepsPD: "keepsP P m \<Longrightarrow> P s \<Longrightarrow> m s = (r, t) \<Longrightarrow> P t"
  by (metis keepsP_def snd_conv)

lemma keep_basic [keep_intros]: "keepsP P (ret a)" "keepsP P (throw e)" "keepsP P (gets f)" "keepsP P (vat xs i)"
  by (simp_all add: keepsP_def ret_def throw_def gets_def vat_def)

lemma keep_bnd [keep_intros]: "keepsP P m \<Longrightarrow> (\<And>a. keepsP P (f a)) \<Longrightarrow> keepsP P (bnd m f)"
  by (auto simp: keepsP_def bnd_def split: prod.split sum.split)

lemma keep_upd [keep_intros]: "(\<And>s. P s \<Longrightarrow> P (f s)) \<Longrightarrow> keepsP P (upd f)"
  by (simp add: keepsP_def upd_def)

lemma keep_if [keep_intros]: "(b \<Longrightarrow> keepsP P m) \<Longrightarrow> (\<not> b \<Longrightarrow> keepsP P n) \<Longrightarrow> keepsP P (if b then m else n)"
  by simp

lemma keep_option [keep_intros]:
  "(x = None \<Longrightarrow> keepsP P m) \<Longrightarrow> (\<And>a. x = Some a \<Longrightarrow> keepsP P (f a)) \<Longrightarrow> keepsP P (case x of None \<Rightarrow> m | Some a \<Rightarrow> f a)"
  by (cases x) simp_all

lemma keep_prod [keep_intros]: "(\<And>a b. x = (a, b) \<Longrightarrow> keepsP P (f a b)) \<Longrightarrow> keepsP P (case x of (a, b) \<Rightarrow> f a b)"
  by (cases x) simp

lemma keep_Let [keep_intros]: "keepsP P (f a) \<Longrightarrow> keepsP P (Let a f)"
  by simp

lemma keep_forEach [keep_intros]: "(\<And>x. x \<in> set xs \<Longrightarrow> keepsP P (body x)) \<Longrightarrow> keepsP P (forEach xs body)"
  by (induction xs) (auto intro: keep_intros)

lemma keep_zoom: "(\<And>s t. P s \<Longrightarrow> P (put t s)) \<Longrightarrow> keepsP P (zoom get put m)"
  by (simp add: keepsP_def zoom_def split: prod.split)

section \<open>The workers as others see them\<close>

definition wview :: "worker \<Rightarrow> string \<times> bool \<times> bool \<times> string list" where
  "wview w = (waddr w, up w, takesWork w, wsystems w)"

definition views :: "core \<Rightarrow> (string \<times> bool \<times> bool \<times> string list) list" where
  "views c = map wview (workers c)"

definition addrs :: "core \<Rightarrow> string list" where
  "addrs c = map waddr (workers c)"

lemma views_addrs: "addrs c = map fst (views c)"
  by (simp add: addrs_def views_def wview_def)

lemma views_length: "length (workers c) = length (views c)" and addrs_length: "length (workers c) = length (addrs c)"
  by (simp_all add: views_def addrs_def)

lemma membershipOf_views: "membershipOf c = foldl (\<lambda>nxt (a, u, t, ss).
    if \<not> u then nxt else foldl (\<lambda>m system. m(system := m system @ [\<lparr>mAddr = a, mDraining = \<not> t\<rparr>])) nxt ss) (\<lambda>_. []) (views c)"
  by (simp add: membershipOf_def views_def foldl_map addMembers_def [abs_def] wview_def)

text \<open>Operations that leave the view of the workers alone.\<close>

lemma sees_upd: "(\<And>c. workers (f c) = workers c) \<Longrightarrow> keepsP (\<lambda>c. views c = v) (upd f)"
  by (rule keep_upd) (simp add: views_def)

lemma sees_onQueue [keep_intros]: "keepsP (\<lambda>c. views c = v) (onQueue name m)" and sees_onFree [keep_intros]: "keepsP (\<lambda>c. views c = v) (onFree name m')"
  unfolding onQueue_def onFree_def by (rule keep_zoom, simp add: views_def)+

lemma sees_at [keep_intros]: "keepsP P (slotAt drv)" "keepsP P (workerAt wid)"
  unfolding slotAt_def workerAt_def by (intro keep_intros)+

lemma sees_putSlot [keep_intros]: "keepsP (\<lambda>c. views c = v) (putSlot drv slot)"
  unfolding putSlot_def by (rule sees_upd) simp

lemma sees_modWorker:
  assumes "\<And>w. wview (g w) = wview w" and "\<And>a b. keepsP (\<lambda>c. views c = v) (k a b)"
  shows "keepsP (\<lambda>c. views c = v) (bnd (workerAt wid) (\<lambda>wkr. bnd (putWorker wid (g wkr)) (k wkr)))"
proof -
  have "views (c\<lparr>workers := (workers c)[wid := g (workers c ! wid)]\<rparr>) = views c" if "wid < length (workers c)" for c
    using that assms(1) by (simp add: views_def map_update list_update_same_conv)
  then show ?thesis
    using assms(2) by (auto simp: keepsP_def bnd_def workerAt_def gets_def vat_def putWorker_def upd_def)
qed

lemma wview_running [simp]: "wview (w\<lparr>running := r\<rparr>) = wview w"
  by (simp add: wview_def takesWork_def)

lemma sees_refreshFree [keep_intros]: "keepsP (\<lambda>c. views c = v) (refreshFree wid)"
  unfolding refreshFree_def by (intro keep_intros)

lemma sees_requeue [keep_intros]: "keepsP (\<lambda>c. views c = v) (requeue drv ent)"
  unfolding requeue_def by (intro keep_intros)

lemma sees_retire [keep_intros]: "keepsP (\<lambda>c. views c = v) (retire drv)"
  unfolding retire_def by (intro keep_intros sees_upd) (simp_all add: views_def)

lemma sees_drvId [keep_intros]: "keepsP (\<lambda>c. views c = v) (drvId path)"
  unfolding drvId_def by (intro keep_intros sees_upd) (simp_all add: views_def)

lemma sees_want [keep_intros]: "keepsP (\<lambda>c. views c = v) (want cl info now)"
  unfolding want_def wantAt_def by (intro keep_intros sees_upd) (simp_all add: views_def)

lemma sees_cancelId [keep_intros]: "keepsP (\<lambda>c. views c = v) (cancelId cl drv)"
  unfolding cancelId_def by (intro keep_intros)

lemma sees_cancel [keep_intros]: "keepsP (\<lambda>c. views c = v) (cancel cl path)"
  unfolding cancel_def by (intro keep_intros)

lemma sees_cancelAll [keep_intros]: "keepsP (\<lambda>c. views c = v) (cancelAll cl drvs revokes)"
  by (induction drvs arbitrary: revokes) (auto intro!: keep_intros)

lemma sees_clientGone [keep_intros]: "keepsP (\<lambda>c. views c = v) (clientGone cl)"
  unfolding clientGone_def by (intro keep_intros) (simp add: views_def)

lemma sees_dropRunning [keep_intros]: "keepsP (\<lambda>c. views c = v) (dropRunning wid drv)"
  unfolding dropRunning_def by (rule sees_modWorker) (auto intro: keep_intros)

lemma sees_coreDone [keep_intros]: "keepsP (\<lambda>c. views c = v) (coreDone wid path outs)"
  unfolding coreDone_def
  by (intro keep_intros) (simp add: views_def rememberBuilder_def Let_def split: option.split)

lemma sees_giveBack [keep_intros]: "keepsP (\<lambda>c. views c = v) (giveBack wid path)"
  unfolding giveBack_def by (intro keep_intros)

lemma sees_pick [keep_intros]: "keepsP P (pick ent)"
  unfolding pick_def by (intro keep_intros)

lemma sees_assignTo [keep_intros]: "keepsP (\<lambda>c. views c = v) (assignTo drv ent wid)"
  unfolding assignTo_def by (intro keep_intros sees_modWorker) (simp_all add: views_def)

lemma sees_dispatchHead [keep_intros]: "keepsP (\<lambda>c. views c = v) (dispatchHead system acc)"
  unfolding dispatchHead_def by (intro keep_intros)

lemma sees_dispatchLoop [keep_intros]: "keepsP (\<lambda>c. views c = v) (dispatchLoop fuel acc)"
  by (induction fuel arbitrary: acc) (auto intro!: keep_intros)

lemma sees_dispatch [keep_intros]: "keepsP (\<lambda>c. views c = v) dispatch"
  unfolding dispatch_def by (intro keep_intros)

lemma sees_placeability [keep_intros]: "keepsP (\<lambda>c. views c = v) placeabilityChanges"
  unfolding placeabilityChanges_def by (intro keep_intros) (simp add: views_def)

lemma sees_mark [keep_intros]: "keepsP (\<lambda>c. views c = v) (markUnplaceable drv u)"
  unfolding markUnplaceable_def by (intro keep_intros)

lemma sees_placeable [keep_intros]: "keepsP P (placeable drv)"
  unfolding placeable_def by (intro keep_intros)

lemma sees_helloAt [keep_intros]: "keepsP (\<lambda>c. views c = v) (helloAt wid path aid drv)"
  unfolding helloAt_def by (intro keep_intros sees_modWorker) simp_all

lemma sees_helloRunning [keep_intros]: "keepsP (\<lambda>c. views c = v) (helloRunning wid rs sups)"
  by (induction wid rs sups rule: helloRunning.induct) (auto intro!: keep_intros)

section \<open>Operations that change what is seen\<close>

text \<open>They keep the addresses, and a Hello adds at most its own.\<close>

lemma views_keep_addrs: "(\<And>v. keepsP (\<lambda>c. views c = v) m) \<Longrightarrow> keepsP (\<lambda>c. addrs c = a) m"
  by (auto simp: keepsP_def views_addrs)

lemma addrs_putWorker: "w < length (workers c) \<Longrightarrow> waddr x = addrs c ! w \<Longrightarrow> addrs (c\<lparr>workers := (workers c)[w := x]\<rparr>) = addrs c"
  by (simp add: addrs_def map_update list_update_same_conv)

lemma addrs_cong: "workers c' = workers c \<Longrightarrow> addrs c' = addrs c"
  by (simp add: addrs_def)

lemma keep_addrs_setWorker:
  assumes "\<And>w. waddr (g w) = waddr w" and "\<And>a b. keepsP (\<lambda>c. addrs c = v) (k a b)"
  shows "keepsP (\<lambda>c. addrs c = v) (bnd (workerAt wid) (\<lambda>wkr. bnd (putWorker wid (g wkr)) (k wkr)))"
proof -
  have "addrs (c\<lparr>workers := (workers c)[wid := g (workers c ! wid)]\<rparr>) = addrs c" if "wid < length (workers c)" for c
    using that assms(1) by (intro addrs_putWorker) (simp_all add: addrs_def)
  then show ?thesis
    using assms(2) by (auto simp: keepsP_def bnd_def workerAt_def gets_def vat_def putWorker_def upd_def)
qed

lemma addrs_setDraining: "keepsP (\<lambda>c. addrs c = a) (setDraining wid b)"
  unfolding setDraining_def by (rule keep_addrs_setWorker) (auto intro: views_keep_addrs sees_refreshFree)

lemma keepsP_run: "keepsP P m \<Longrightarrow> P s \<Longrightarrow> P (snd (m s))"
  by (simp add: keepsP_def)

lemma addrs_forget: "keepsP (\<lambda>c. addrs c = a) (requeueOrphan wid drv)"
  unfolding requeueOrphan_def by (intro views_keep_addrs keep_intros)

text \<open>A worker that was read is written back with its address.\<close>

lemma addrs_putBack:
  assumes "waddr x = a ! wid"
  shows "keepsP (\<lambda>c. addrs c = a) (putWorker wid x)"
  unfolding putWorker_def
proof (rule keep_upd)
  fix c assume "addrs c = a"
  then show "addrs (c\<lparr>workers := (workers c)[wid := x]\<rparr>) = a"
    using assms addrs_putWorker [of wid c x] by (cases "wid < length (workers c)") (auto simp: list_update_beyond)
qed

lemma addrs_readWorker:
  assumes "\<And>wkr. waddr wkr = a ! wid \<Longrightarrow> keepsP (\<lambda>c. addrs c = a) (k wkr)"
  shows "keepsP (\<lambda>c. addrs c = a) (bnd (workerAt wid) k)"
  using assms by (auto simp: keepsP_def bnd_def workerAt_def gets_def vat_def addrs_def)

lemma addrs_workerGone: "keepsP (\<lambda>c. addrs c = a) (workerGone wid)"
  unfolding workerGone_def
  by (intro addrs_readWorker keep_bnd addrs_putBack keep_upd keep_forEach addrs_forget views_keep_addrs [OF sees_refreshFree])
     (simp_all add: addrs_def)

lemma addrs_helloUp: "keepsP (\<lambda>c. addrs c = a) (helloUp wid info)"
  unfolding helloUp_def
  by (intro addrs_readWorker keep_bnd addrs_putBack keep_upd keep_forEach views_keep_addrs [OF sees_onFree])
     (simp_all add: addrs_def)

lemma addrs_workerId: "set (addrs (snd (workerId addr c))) \<subseteq> insert addr (set (addrs c)) \<and> prefix (addrs c) (addrs (snd (workerId addr c)))
    \<and> membershipOf (snd (workerId addr c)) = membershipOf c"
  by (auto simp: workerId_def bnd_def gets_def ret_def upd_def addrs_def Let_def membershipOf_def addMembers_def worker0_def split: option.split)

lemma addrs_hello: "set (addrs (snd (hello info c))) \<subseteq> insert (hiAddr info) (set (addrs c)) \<and> prefix (addrs c) (addrs (snd (hello info c)))"
proof (cases "hiAddr info = []")
  case False
  let ?rest = "\<lambda>wid. bnd (workerAt wid) (\<lambda>wkr.
        bnd (if up wkr then workerGone wid else ret ()) (\<lambda>_.
        bnd (helloUp wid info) (\<lambda>_.
        bnd (helloRunning wid (hiRunning info) []) (\<lambda>superseded.
        bnd (refreshFree wid) (\<lambda>_.
        ret (wid, superseded))))))"
  have k: "keepsP (\<lambda>c. addrs c = a) (?rest wid)" for a wid
    by (intro keep_intros addrs_workerGone addrs_helloUp views_keep_addrs [OF sees_helloRunning] views_keep_addrs [OF sees_refreshFree])
  obtain r c1 where 1: "workerId (hiAddr info) c = (r, c1)" by fastforce
  have "addrs (snd (hello info c)) = addrs c1"
  proof (cases r)
    case (Inr wid)
    then have "snd (hello info c) = snd (?rest wid c1)" using False 1 by (simp add: hello_def bnd_def [of "workerId _"])
    then show ?thesis using keepsP_run [OF k, of c1 "addrs c1" wid] by simp
  qed (use False 1 in \<open>simp add: hello_def bnd_def [of "workerId _"]\<close>)
  then show ?thesis using addrs_workerId [of "hiAddr info" c] 1 by simp
qed (auto simp: hello_def throw_def)

section \<open>Core operations are core steps\<close>

definition coreOp :: "(core, 'a) prog \<Rightarrow> bool" where
  "coreOp m \<longleftrightarrow> (\<forall>c. coreStep c True (snd (m c)) \<or> snd (m c) = c)"

lemma coreOpI: "(\<And>c. coreStep c True (snd (m c)) \<or> snd (m c) = c) \<Longrightarrow> coreOp m"
  by (simp add: coreOp_def)

lemma workerAt_beyond: "\<not> w < length (workers c) \<Longrightarrow> snd (bnd (workerAt w) k c) = c"
  by (simp add: workerAt_def bnd_def gets_def vat_def)

lemma slotAt_beyond: "\<not> drv < length (entries c) \<Longrightarrow> snd (bnd (slotAt drv) k c) = c"
  by (simp add: slotAt_def bnd_def gets_def vat_def)

lemma coreOp_client: "wiSystem info \<noteq> [] \<Longrightarrow> coreOp (want cl info now)" "coreOp (cancel cl path)" "coreOp (clientGone cl)"
  by (rule coreOpI, rule disjI1, erule coreStep.step_want [OF _ surjective_pairing])
     (rule coreOpI, rule disjI1, rule coreStep.step_cancel coreStep.step_clientGone, rule surjective_pairing)+

lemma coreOp_dispatch: "coreOp dispatch" "coreOp placeabilityChanges"
  by (rule coreOpI, rule disjI1, rule coreStep.step_dispatch coreStep.step_placeability, rule surjective_pairing)+

lemma coreOpW:
  assumes "m = bnd (workerAt w) k" "\<And>c. w < length (workers c) \<Longrightarrow> coreStep c True (snd (m c))"
  shows "coreOp m"
  using assms(2) workerAt_beyond [of w _ k] unfolding assms(1) by (auto intro!: coreOpI)

lemma coreOp_worker: "coreOp (coreDone w path outs)" "coreOp (setDraining w b)" "coreOp (workerGone w)"
  by (rule coreOpW [OF coreDone_def], erule coreStep.step_done [OF _ surjective_pairing])
     (rule coreOpW [OF setDraining_def], erule coreStep.step_setDraining [OF _ surjective_pairing],
      rule coreOpW [OF workerGone_def], erule coreStep.step_workerGone [OF _ surjective_pairing])

lemma coreOp_mark: "coreOp (markUnplaceable drv u)"
proof (rule coreOpI)
  fix c
  show "coreStep c True (snd (markUnplaceable drv u c)) \<or> snd (markUnplaceable drv u c) = c"
    using coreStep.step_mark [OF _ surjective_pairing, of drv c u] slotAt_beyond [of drv c] by (auto simp: markUnplaceable_def)
qed

lemma coreOp_giveBack: "coreOp (giveBack w path)"
proof (rule coreOpI)
  fix c
  show "coreStep c True (snd (giveBack w path c)) \<or> snd (giveBack w path c) = c"
  proof (cases "w < length (workers c)")
    case False
    then have "snd (giveBack w path c) = c"
      by (simp add: giveBack_def dropRunning_def workerAt_def bnd_def gets_def vat_def ret_def split: option.split)
    then show ?thesis by simp
  next
    case True
    then show ?thesis using coreStep.step_giveBack [OF True surjective_pairing] by blast
  qed
qed

lemma coreOp_read: "(\<And>c. snd (m c) = c) \<Longrightarrow> coreOp m"
  by (simp add: coreOp_def)

section \<open>The invariant\<close>

text \<open>\<open>A\<close> are the addresses workers may have, fewer than there are worker ids.  \<open>b\<close> says that no Hello has stopped half
  way.  \<open>dinv\<close> holds between operations; \<open>dinv0\<close> also where the membership is about to be published.\<close>

definition dinv0 :: "string set \<Rightarrow> config \<Rightarrow> bool \<Rightarrow> disp \<Rightarrow> bool" where
  "dinv0 A cf b d \<longleftrightarrow> (\<exists>b'. coreReach cf b' (dcore d) \<and> (b \<longrightarrow> b')) \<and> set (addrs (dcore d)) \<subseteq> A
     \<and> (\<forall>sid w. sessId d sid = Some w \<longrightarrow> w < length (workers (dcore d)))
     \<and> fst ` set (dworkers d) \<subseteq> {..<length (workers (dcore d))}"

definition dinv :: "string set \<Rightarrow> config \<Rightarrow> bool \<Rightarrow> disp \<Rightarrow> bool" where
  "dinv A cf b d \<longleftrightarrow> dinv0 A cf b d \<and> (b \<longrightarrow> published d = membershipOf (dcore d))"

definition fewAddrs :: "string set \<Rightarrow> bool" where
  "fewAddrs A \<longleftrightarrow> finite A \<and> Suc (card A) < noWorker"

lemma dinv_weaken: "dinv A cf b d \<Longrightarrow> dinv A cf False d"
  by (auto simp: dinv_def dinv0_def)

lemma dinv0_room:
  assumes "dinv0 A cf b d" "fewAddrs A"
  shows "Suc (length (workers (dcore d))) < noWorker"
proof -
  obtain b' where "coreReach cf b' (dcore d)" using assms(1) by (auto simp: dinv0_def)
  from workersOkD(7) [OF coreInvD(2) [OF coreReach_inv [OF this]]] have "distinct (addrs (dcore d))"
    by (auto simp: addrs_def distinct_conv_nth) (metis option.inject)
  then have "length (workers (dcore d)) = card (set (addrs (dcore d)))" by (simp add: distinct_card addrs_length)
  also have "\<dots> \<le> card A" using assms by (intro card_mono) (simp_all add: dinv0_def fewAddrs_def)
  finally show ?thesis using assms(2) by (simp add: fewAddrs_def)
qed

lemma dinv_room: "dinv A cf b d \<Longrightarrow> fewAddrs A \<Longrightarrow> Suc (length (workers (dcore d))) < noWorker"
  using dinv0_room unfolding dinv_def by blast

lemma reach_coreOp:
  assumes "coreOp m" "coreReach cf b c"
  shows "coreReach cf b (snd (m c))"
  using assms(1) [unfolded coreOp_def, THEN spec, of c] coreReach.reach_step [OF assms(2), of True] assms(2) by auto

lemma snd_onCore: "snd (onCore m d) = d\<lparr>dcore := snd (m (dcore d))\<rparr>"
  by (simp add: onCore_def zoom_def split: prod.split)

lemma fst_onCore: "fst (onCore m d) = fst (m (dcore d))"
  by (simp add: onCore_def zoom_def split: prod.split)

lemma keep_onCore0:
  assumes "coreOp m" "\<And>a. keepsP (\<lambda>c. addrs c = a) m"
  shows "keepsP (dinv0 A cf b) (onCore m)"
  unfolding keepsP_def
proof (intro allI impI)
  fix d assume d: "dinv0 A cf b d"
  have "addrs (snd (m (dcore d))) = addrs (dcore d)" using assms(2) by (simp add: keepsP_def)
  moreover from this have "length (workers (snd (m (dcore d)))) = length (workers (dcore d))" by (simp add: addrs_length)
  ultimately show "dinv0 A cf b (snd (onCore m d))"
    using d reach_coreOp [OF assms(1)] by (auto simp: dinv0_def snd_onCore)
qed

lemma keep_onCore:
  assumes "coreOp m" "\<And>v. keepsP (\<lambda>c. views c = v) m"
  shows "keepsP (dinv A cf b) (onCore m)"
  unfolding keepsP_def
proof (intro allI impI)
  fix d assume d: "dinv A cf b d"
  have "dinv0 A cf b (snd (onCore m d))"
    using keepsP_run [OF keep_onCore0 [OF assms(1) views_keep_addrs [OF assms(2)]]] d by (simp add: dinv_def)
  moreover have "views (snd (m (dcore d))) = views (dcore d)" using assms(2) by (simp add: keepsP_def)
  ultimately show "dinv A cf b (snd (onCore m d))" using d by (simp add: dinv_def snd_onCore membershipOf_views)
qed

text \<open>Updates of the other members.\<close>

lemma keep_upd_dinv:
  assumes "\<And>d. dcore (f d) = dcore d" "\<And>d. published (f d) = published d" "\<And>d. sessId (f d) \<subseteq>\<^sub>m sessId d" "\<And>d. set (dworkers (f d)) \<subseteq> set (dworkers d)"
  shows "keepsP (dinv A cf b) (upd f)"
proof (rule keep_upd)
  fix d assume d: "dinv A cf b d"
  have "sessId d sid = Some w" if "sessId (f d) sid = Some w" for sid w
    using assms(3) [of d] that unfolding map_le_def by (metis domI)
  then have "\<forall>sid w. sessId (f d) sid = Some w \<longrightarrow> w < length (workers (dcore d))" using d unfolding dinv_def dinv0_def by blast
  moreover have "fst ` set (dworkers (f d)) \<subseteq> {..<length (workers (dcore d))}"
    using subset_trans [OF image_mono [OF assms(4)]] d unfolding dinv_def dinv0_def by blast
  ultimately show "dinv A cf b (f d)" using d unfolding dinv_def dinv0_def assms(1,2) by (elim conjE, intro conjI)
qed

section \<open>Messages and followers\<close>

lemma keep_reads: "keepsP (dinv A cf b) (onCore (slotAt drv))" "keepsP (dinv A cf b) (onCore (workerAt w))" "keepsP (dinv A cf b) (onCore (placeable drv))"
  by (rule keep_onCore; intro keep_intros coreOp_read; simp add: slotAt_def workerAt_def placeable_def bnd_def gets_def vat_def)+

lemma keep_sends: "keepsP (dinv A cf b) (sendClient cid msg)" "keepsP (dinv A cf b) (sendWorker sid cmd)" "keepsP (dinv A cf b) (afterUnlock call)"
  unfolding sendClient_def sendWorker_def afterUnlock_def by (intro keep_intros keep_upd_dinv; simp)+

lemma keep_withLock: "keepsP (dinv A cf b) m \<Longrightarrow> keepsP (dinv A cf b) (withLock m)"
proof -
  have "dinv A cf b (d\<lparr>deferred := x, outbox := y\<rparr>) = dinv A cf b d" for d x y by (simp add: dinv_def dinv0_def)
  then show "keepsP (dinv A cf b) m \<Longrightarrow> keepsP (dinv A cf b) (withLock m)"
    by (simp add: keepsP_def withLock_def split: prod.split) (metis snd_conv)
qed

lemma keep_wake: "keepsP (dinv A cf b) wakeWatchersLocked"
  unfolding wakeWatchersLocked_def by (intro keep_intros keep_sends)

lemma keep_exportStats: "keepsP (dinv A cf b) (exportStats force now)"
  unfolding exportStats_def by (intro keep_intros keep_upd_dinv; simp)

lemma keep_assignedMsg: "keepsP (dinv A cf b) (assignedMsg drv)"
  unfolding assignedMsg_def by (intro keep_intros keep_reads)

lemma keep_sendToFollowers: "keepsP (dinv A cf b) (sendToFollowers drv msg)"
  unfolding sendToFollowers_def by (intro keep_intros keep_reads keep_sends)

lemma keep_placeability: "keepsP (dinv A cf b) placeabilityChangedLocked"
  unfolding placeabilityChangedLocked_def
  by (intro keep_intros keep_reads keep_sendToFollowers keep_onCore coreOp_dispatch)

lemma keep_revokeOn: "keepsP (dinv A cf b) (revokeOn wid path)"
  unfolding revokeOn_def by (intro keep_intros keep_sends)

lemma keep_supersede: "keepsP (dinv A cf b) (supersede drv loser)"
  unfolding supersede_def by (intro keep_intros keep_reads keep_assignedMsg keep_sendToFollowers keep_revokeOn)

section \<open>Publishing a changed membership\<close>

text \<open>\<open>publishes k\<close>: \<open>k\<close> may start before the membership is published.  \<open>touches m\<close>: \<open>m\<close> changes the workers when it
  returns and nothing when it throws.\<close>

definition publishes :: "string set \<Rightarrow> config \<Rightarrow> bool \<Rightarrow> (disp, 'a) prog \<Rightarrow> bool" where
  "publishes A cf b k \<longleftrightarrow> (\<forall>d. dinv0 A cf b d \<longrightarrow> dinv A cf b (snd (k d)))"

definition touches :: "string set \<Rightarrow> config \<Rightarrow> bool \<Rightarrow> (disp, 'a) prog \<Rightarrow> bool" where
  "touches A cf b m \<longleftrightarrow> (\<forall>d. dinv A cf b d \<longrightarrow> (case m d of (Inl _, d') \<Rightarrow> dinv A cf b d' | (Inr _, d') \<Rightarrow> dinv0 A cf b d'))"

lemma keep_touches: "touches A cf b m \<Longrightarrow> (\<And>a. publishes A cf b (k a)) \<Longrightarrow> keepsP (dinv A cf b) (bnd m k)"
  by (fastforce simp: keepsP_def touches_def publishes_def bnd_def split: prod.split sum.split prod.splits sum.splits)

lemma publishes_now:
  assumes "\<And>a. keepsP (dinv A cf b) (k a)"
  shows "publishes A cf b (bnd membershipChangedLocked k)"
proof -
  have "keepsP (dinv A cf b) (bnd wakeWatchersLocked k)" using assms keep_wake by (intro keep_intros)
  moreover have "snd (bnd membershipChangedLocked k d) = snd (bnd wakeWatchersLocked k (d\<lparr>published := membershipOf (dcore d)\<rparr>))" for d
    by (simp add: membershipChangedLocked_def bnd_def upd_def)
  moreover have "dinv A cf b (d\<lparr>published := membershipOf (dcore d)\<rparr>)" if "dinv0 A cf b d" for d
    using that by (simp add: dinv_def dinv0_def)
  ultimately show ?thesis by (simp add: publishes_def keepsP_def)
qed

lemma publishes_upd:
  assumes "\<And>d. dinv0 A cf b d \<Longrightarrow> dinv0 A cf b (f d)" "publishes A cf b (k ())"
  shows "publishes A cf b (bnd (upd f) k)"
  using assms by (simp add: publishes_def bnd_def upd_def)

lemma touches_workers:
  assumes "coreOp m" "\<And>a. keepsP (\<lambda>c. addrs c = a) m"
    and "\<And>stale c. coreInv stale c \<Longrightarrow> (\<exists>Q. wp m Q noThrow c) \<or> snd (m c) = c"
  shows "touches A cf b (onCore m)"
  unfolding touches_def
proof (intro allI impI)
  fix d assume d: "dinv A cf b d"
  have 0: "dinv0 A cf b (snd (onCore m d))" using keepsP_run [OF keep_onCore0 [OF assms(1,2)]] d by (simp add: dinv_def)
  obtain b' where "coreReach cf b' (dcore d)" using d by (auto simp: dinv_def dinv0_def)
  from assms(3) [OF coreReach_inv [OF this]] consider Q where "wp m Q noThrow (dcore d)" | "snd (m (dcore d)) = dcore d" by blast
  then show "case onCore m d of (Inl _, d') \<Rightarrow> dinv A cf b d' | (Inr _, d') \<Rightarrow> dinv0 A cf b d'"
  proof cases
    case 1
    from wp_noThrowD [OF this] obtain r c where "m (dcore d) = (Inr r, c)" by blast
    then show ?thesis using 0 by (simp add: onCore_def zoom_def)
  next
    case 2
    then have "snd (onCore m d) = d" by (simp add: snd_onCore)
    then show ?thesis using d 0 by (auto split: prod.split sum.split)
  qed
qed

lemma touches_workerGone: "touches A cf b (onCore (workerGone w))"
proof (rule touches_workers [OF coreOp_worker(3) addrs_workerGone])
  fix stale c assume "coreInv stale c"
  then show "(\<exists>Q. wp (workerGone w) Q noThrow c) \<or> snd (workerGone w c) = c"
    using workerGone_ok [of stale c w] workerAt_beyond [of w c] by (cases "w < length (workers c)") (auto simp: workerGone_def)
qed

lemma touches_setDraining: "touches A cf b (onCore (setDraining w drains))"
proof (rule touches_workers [OF coreOp_worker(2) addrs_setDraining])
  fix stale c assume "coreInv stale c"
  then show "(\<exists>Q. wp (setDraining w drains) Q noThrow c) \<or> snd (setDraining w drains c) = c"
    using setDraining_ok [of stale c w] workerAt_beyond [of w c] by (cases "w < length (workers c)") (auto simp: setDraining_def)
qed

section \<open>Dispatching, orphans and clients\<close>

lemma keep_forget: "keepsP (dinv A cf b) (upd (\<lambda>d. d\<lparr>dworkers := AList.delete w (dworkers d)\<rparr>))"
  by (rule keep_upd_dinv) (auto simp: AList.delete_eq)

lemma keep_deliverAssign: "keepsP (dinv A cf b) (deliverAssign asg)"
  unfolding deliverAssign_def
  by (intro keep_intros keep_reads keep_sends keep_assignedMsg keep_sendToFollowers keep_touches [OF touches_workerGone]
      publishes_now keep_forget keep_placeability)

lemma keep_dispatchLocked: "keepsP (dinv A cf b) (dispatchLocked now)"
  unfolding dispatchLocked_def by (intro keep_intros keep_onCore coreOp_dispatch keep_deliverAssign keep_exportStats)

lemma keep_revokeDue: "keepsP (dinv A cf b) (revokeDue now os)"
  by (induction os) (auto intro!: keep_intros keep_reads keep_revokeOn)

lemma keep_statsRound: "keepsP (dinv A cf b) (statsRound now)"
  unfolding statsRound_def revokeOrphans_def
  by (intro keep_withLock keep_intros keep_revokeDue keep_exportStats keep_upd_dinv) simp_all

lemma keep_connectClient: "keepsP (dinv A cf b) connectClient"
  unfolding connectClient_def by (intro keep_withLock keep_intros keep_upd_dinv) simp_all

lemma keep_serving: "keepsP (dinv A cf b) serving" "keepsP (dinv A cf b) restarting"
  unfolding serving_def restarting_def by (intro keep_withLock keep_intros keep_wake keep_sends keep_upd_dinv; simp)+

lemma keep_onWant:
  assumes "defaultSystem dc \<noteq> []"
  shows "keepsP (dinv A cf b) (onWant dc now cid w cached)"
proof -
  have "systemFor dc s \<noteq> []" for s using assms by (simp add: systemFor_def)
  then show ?thesis unfolding onWant_def
    by (intro keep_intros keep_sends keep_reads keep_onCore coreOp_client coreOp_mark keep_assignedMsg keep_dispatchLocked keep_exportStats) simp
qed

lemma keep_onClientMsg: "defaultSystem dc \<noteq> [] \<Longrightarrow> keepsP (dinv A cf b) (onClientMsg dc now cid m)"
  unfolding onClientMsg_def Dispatcher.onCancel_def
  by (cases "fst m") (auto intro!: keep_intros keep_onWant keep_onCore coreOp_client keep_revokeOn)

lemma keep_applyChunks: "defaultSystem dc \<noteq> [] \<Longrightarrow> keepsP (dinv A cf b) (applyChunks dc now cid ms)"
proof (induction ms rule: length_induct)
  case (1 ms)
  show ?case
  proof (cases "ms = []")
    case False
    then have "length (drop chunk ms) < length ms" by (simp add: chunk_def)
    then have "keepsP (dinv A cf b) (applyChunks dc now cid (drop chunk ms))" using 1 by blast
    then show ?thesis
      unfolding applyChunks.simps [of dc now cid ms] if_not_P [OF False]
      by (intro keep_intros keep_withLock keep_onClientMsg 1(2))
  qed (simp add: keep_intros)
qed

lemma keep_clientMsgs: "defaultSystem dc \<noteq> [] \<Longrightarrow> keepsP (dinv A cf b) (clientMsgs dc now cid msgs)"
  unfolding clientMsgs_def applyClientMsgs_def Let_def by (intro keep_intros keep_applyChunks keep_upd_dinv) simp_all

lemma keep_lookupRound:
  assumes "defaultSystem dc \<noteq> []"
  shows "keepsP (dinv A cf b) (lookupRound dc now)"
proof -
  have a: "keepsP (dinv A cf b) (applyClientMsgs dc now cid msgs cached)" for cid msgs cached
    unfolding applyClientMsgs_def by (rule keep_applyChunks [OF assms])
  have w: "keepsP (dinv A cf b) (withLock (bnd (gets gone) (\<lambda>gs.
      if cid \<in> gs then ret () else upd (\<lambda>d. d\<lparr>outbox := outbox d @ [AbortClient cid]\<rparr>))))" for cid
    by (intro keep_withLock keep_intros keep_upd_dinv) simp_all
  have "keepsP (dinv A cf b) (\<lambda>d. case applyClientMsgs dc now cid msgs cached d of (Inr _, d') \<Rightarrow> (Inr (), d')
      | (Inl e, d') \<Rightarrow> withLock (bnd (gets gone) (\<lambda>gs.
          if cid \<in> gs then ret () else upd (\<lambda>d. d\<lparr>outbox := outbox d @ [AbortClient cid]\<rparr>))) d')" for cid msgs cached
    using keepsP_run [OF a, of _ cid msgs cached] keepsP_run [OF w, of _ cid]
    unfolding keepsP_def by (fastforce split: prod.splits sum.splits)
  then show ?thesis unfolding lookupRound_def
    by (auto intro!: keep_intros split: list.split) (simp add: dinv_def dinv0_def)
qed

lemma keep_dClientGone: "keepsP (dinv A cf b) (dClientGone now cid)"
  unfolding dClientGone_def
  by (intro keep_withLock keep_intros keep_onCore coreOp_client keep_reads keep_exportStats keep_upd_dinv) simp_all

section \<open>Workers\<close>

definition tableFull :: exn where
  "tableFull = NixError ''scheduler: derivation table full''"

text \<open>An operation after which only a Hello that stopped half way can leave a stale membership.\<close>

definition fine :: "string set \<Rightarrow> config \<Rightarrow> (disp, 'a) prog \<Rightarrow> bool" where
  "fine A cf m \<longleftrightarrow> (\<forall>b d. dinv A cf b d \<longrightarrow> dinv A cf (b \<and> fst (m d) \<noteq> Inl tableFull) (snd (m d)))"

lemma dinv_mono: "dinv A cf b d \<Longrightarrow> b' \<longrightarrow> b \<Longrightarrow> dinv A cf b' d"
  by (auto simp: dinv_def dinv0_def)

lemma fine_keeps: "(\<And>b. keepsP (dinv A cf b) m) \<Longrightarrow> fine A cf m"
  unfolding fine_def keepsP_def by (blast intro: dinv_mono)

lemma fine_bnd: "fine A cf m \<Longrightarrow> (\<And>a. fine A cf (f a)) \<Longrightarrow> fine A cf (bnd m f)"
  unfolding fine_def bnd_def by (fastforce split: prod.split sum.split prod.splits)

lemma fine_forEach: "(\<And>x. x \<in> set xs \<Longrightarrow> fine A cf (body x)) \<Longrightarrow> fine A cf (forEach xs body)"
  by (induction xs) (auto intro: fine_bnd fine_keeps keep_intros)

lemma fine_withLock: "fine A cf m \<Longrightarrow> fine A cf (withLock m)"
proof -
  have "dinv A cf b (d\<lparr>deferred := x, outbox := y\<rparr>) = dinv A cf b d" for b d x y by (simp add: dinv_def dinv0_def)
  then show "fine A cf m \<Longrightarrow> fine A cf (withLock m)"
    by (simp add: fine_def withLock_def split: prod.split) (metis fst_conv snd_conv)
qed

lemma prefix_addrs_len: "prefix (addrs c) (addrs c') \<Longrightarrow> length (workers c) \<le> length (workers c')"
  by (simp add: addrs_length prefix_length_le)

lemma dinv0_grow:
  assumes d: "dinv0 A cf b d" and "coreReach cf b'' c'" "b2 \<longrightarrow> b''" "set (addrs c') \<subseteq> A" and l: "length (workers (dcore d)) \<le> length (workers c')"
  shows "dinv0 A cf b2 (d\<lparr>dcore := c'\<rparr>)"
proof -
  have "w < length (workers c')" if "sessId d sid = Some w" for sid w
    using d that l unfolding dinv0_def by (meson order_less_le_trans)
  moreover have "fst ` set (dworkers d) \<subseteq> {..<length (workers c')}"
    using d l unfolding dinv0_def by (auto dest!: subsetD)
  ultimately show ?thesis using assms(2-4) by (auto simp: dinv0_def)
qed

lemma keep_helloSystems: "keepsP P (helloSystems dc names)"
  by (induction names) (auto intro!: keep_intros)

lemma keep_workerId:
  assumes few: "fewAddrs A" and addr: "addr \<in> A"
  shows "keepsP (dinv A cf b) (onCore (workerId addr))"
  unfolding keepsP_def
proof (intro allI impI)
  fix d assume d: "dinv A cf b d"
  let ?c = "snd (workerId addr (dcore d))"
  have room: "Suc (length (workers (dcore d))) < noWorker" by (rule dinv_room [OF d few])
  obtain b' where b': "coreReach cf b' (dcore d)" "b \<longrightarrow> b'" using d by (auto simp: dinv_def dinv0_def)
  have "coreReach cf b' ?c"
    using coreReach.reach_step [OF b'(1) coreStep.step_workerId [OF room surjective_pairing]] by simp
  moreover have ws: "set (addrs ?c) \<subseteq> insert addr (set (addrs (dcore d)))" "prefix (addrs (dcore d)) (addrs ?c)"
    "membershipOf ?c = membershipOf (dcore d)" using addrs_workerId [of addr "dcore d"] by simp_all
  moreover have "set (addrs ?c) \<subseteq> A" using ws(1) addr d by (auto simp: dinv_def dinv0_def)
  ultimately have "dinv0 A cf b (d\<lparr>dcore := ?c\<rparr>)"
    using d b'(2) prefix_addrs_len [OF ws(2)] by (intro dinv0_grow [of A cf b d]) (auto simp: dinv_def)
  then show "dinv A cf b (snd (onCore (workerId addr) d))"
    using d ws(3) by (simp add: dinv_def snd_onCore)
qed

text \<open>A Hello that returns has a worker; one that throws has changed nothing, or the table is full.\<close>

lemma onCore_hello:
  assumes few: "fewAddrs A" and addr: "hiAddr info \<in> A" and d: "dinv A cf b d" and run: "onCore (hello info) d = (r, d')"
  shows "case r of Inr (w, sups) \<Rightarrow> dinv0 A cf b d' \<and> w < length (workers (dcore d'))
    | Inl e \<Rightarrow> dinv A cf (b \<and> e \<noteq> tableFull) d'"
proof -
  obtain c' where h: "hello info (dcore d) = (r, c')" and d': "d' = d\<lparr>dcore := c'\<rparr>"
    using run by (cases "hello info (dcore d)") (simp add: onCore_def zoom_def)
  have room: "Suc (length (workers (dcore d))) < noWorker" by (rule dinv_room [OF d few])
  obtain b' where b': "coreReach cf b' (dcore d)" "b \<longrightarrow> b'" using d by (auto simp: dinv_def dinv0_def)
  have reach: "coreReach cf (b' \<and> r \<noteq> Inl tableFull) c'"
    using coreReach.reach_step [OF b'(1) coreStep.step_hello [OF room h]] by (simp add: tableFull_def)
  have a: "set (addrs c') \<subseteq> insert (hiAddr info) (set (addrs (dcore d)))" "length (workers (dcore d)) \<le> length (workers c')"
    using addrs_hello [of info "dcore d"] prefix_addrs_len h by auto
  have j0: "dinv0 A cf (b \<and> r \<noteq> Inl tableFull) d'"
    unfolding d' using d reach b'(2) a addr by (intro dinv0_grow [of A cf b d]) (auto simp: dinv_def dinv0_def)
  have "(\<exists>w sups. r = Inr (w, sups) \<and> w < length (workers c')) \<or> (\<exists>e. r = Inl e \<and> e \<noteq> tableFull \<and> c' = dcore d) \<or> r = Inl tableFull"
    using wp_run [OF hello_ok [OF coreReach_inv [OF b'(1)] room] h] by (auto simp: helloPost_def tableFull_def)
  then show ?thesis
  proof (elim disjE exE conjE)
    fix w sups assume "r = Inr (w, sups)" "w < length (workers c')"
    then show ?thesis using j0 by (simp add: d')
  next
    fix e assume "r = Inl e" "c' = dcore d"
    then show ?thesis using dinv_mono [OF d] by (simp add: d')
  next
    assume "r = Inl tableFull"
    then show ?thesis using j0 by (simp add: dinv_def)
  qed
qed

lemma fine_onHello:
  assumes few: "fewAddrs A" and addr: "hmAddr hel \<in> A"
  shows "fine A cf (onHello dc sid hel)"
proof -
  have rest: "fine A cf (bnd (onCore (hello info)) (\<lambda>(wid, superseded).
        bnd (upd (\<lambda>d. d\<lparr>dworkers := AList.update wid sid (dworkers d), sessId := (sessId d)(sid \<mapsto> wid)\<rparr>)) (\<lambda>_.
        bnd membershipChangedLocked (\<lambda>_.
        bnd (forEach superseded (\<lambda>(drv, loser). supersede drv loser)) (\<lambda>_.
        placeabilityChangedLocked)))))" (is "fine A cf (bnd (onCore (hello info)) ?k)") if a: "hiAddr info \<in> A" for info
    unfolding fine_def
  proof (intro allI impI)
    fix b d assume d: "dinv A cf b d"
    obtain r d1 where run: "onCore (hello info) d = (r, d1)" by fastforce
    note h = onCore_hello [OF few a d run]
    show "dinv A cf (b \<and> fst (bnd (onCore (hello info)) ?k d) \<noteq> Inl tableFull) (snd (bnd (onCore (hello info)) ?k d))"
    proof (cases r)
      case (Inr x)
      obtain w sups where x: "x = (w, sups)" by fastforce
      let ?f = "\<lambda>d. d\<lparr>dworkers := AList.update w sid (dworkers d), sessId := (sessId d)(sid \<mapsto> w)\<rparr>"
      have "dinv0 A cf b (?f d1)" using h Inr x by (auto simp: dinv0_def dom_update)
      moreover have "publishes A cf b (bnd membershipChangedLocked (\<lambda>_.
          bnd (forEach sups (\<lambda>(drv, loser). supersede drv loser)) (\<lambda>_. placeabilityChangedLocked)))"
        by (intro publishes_now keep_intros keep_supersede keep_placeability)
      ultimately have "dinv A cf b (snd (?k x d1))"
        by (simp add: x publishes_def bnd_def [of "upd _"] upd_def)
      then show ?thesis using run Inr by (auto simp: bnd_def [of "onCore _"] elim: dinv_mono)
    next
      case (Inl e)
      then show ?thesis using run h by (simp add: bnd_def [of "onCore _"])
    qed
  qed
  have old: "keepsP (dinv A cf b) (case x of None \<Rightarrow> ret () | Some old \<Rightarrow>
      if old = sid then ret ()
      else bnd (upd (\<lambda>d. d\<lparr>sessId := (sessId d)(old := None)\<rparr>)) (\<lambda>_. afterUnlock (AbortSession old)))" for b x
    by (intro keep_intros keep_sends) (auto simp: dinv_def dinv0_def)
  show ?thesis
  proof (cases "hmSystems hel = []")
    case True
    then show ?thesis unfolding onHello_def by (auto intro!: fine_keeps keep_intros)
  next
    case False
    show ?thesis unfolding onHello_def if_not_P [OF False]
      by (rule fine_bnd [OF fine_keeps [OF keep_helloSystems]], rule fine_bnd [OF fine_keeps [OF keep_workerId [OF few addr]]],
          rule fine_bnd [OF fine_keeps [OF keep_basic(3)]], rule fine_bnd [OF fine_keeps [OF old]], rule rest) (simp add: addr)
  qed
qed

lemma fine_workerMsgLocked:
  assumes few: "fewAddrs A" and addr: "\<And>hel. msg = HelloMsg hel \<Longrightarrow> hmAddr hel \<in> A"
  shows "fine A cf (workerMsgLocked dc sid msg)"
proof (cases msg)
  case (HelloMsg hel)
  then show ?thesis using fine_onHello [OF few addr] by (simp add: workerMsgLocked_def)
next
  case (DoneMsg dn)
  have "keepsP (dinv A cf b) (onDone w dn)" for b w
    unfolding onDone_def by (intro keep_intros keep_onCore coreOp_giveBack coreOp_worker keep_placeability)
  then show ?thesis unfolding workerMsgLocked_def DoneMsg workerMsg.case by (intro fine_keeps keep_intros)
next
  case (LoadMsg drains)
  show ?thesis unfolding workerMsgLocked_def LoadMsg workerMsg.case
    by (intro fine_keeps keep_intros keep_touches [OF touches_setDraining] publishes_now keep_placeability)
next
  case OtherWorkerMsg
  then show ?thesis unfolding workerMsgLocked_def OtherWorkerMsg workerMsg.case by (intro fine_keeps keep_intros)
qed

lemma fine_workerMsgs:
  assumes "fewAddrs A" and "\<And>hel. HelloMsg hel \<in> set msgs \<Longrightarrow> hmAddr hel \<in> A"
  shows "fine A cf (workerMsgs dc now sid msgs)"
proof -
  have t: "fine A cf (throw e)" and r: "fine A cf (ret ())" and g: "fine A cf (gets f)" for e f
    by (rule fine_keeps, intro keep_intros)+
  have "fine A cf (forEach msgs (workerMsgLocked dc sid))"
    by (rule fine_forEach) (use assms in \<open>auto intro: fine_workerMsgLocked\<close>)
  moreover have "fine A cf (bnd (dispatchLocked now) (\<lambda>_. exportStats False now))"
    by (intro fine_keeps keep_intros keep_dispatchLocked keep_exportStats)
  ultimately show ?thesis
    unfolding workerMsgs_def using t r by (auto intro!: fine_withLock fine_bnd g)
qed

lemma keep_dWorkerGone: "keepsP (dinv A cf b) (dWorkerGone now sid)"
  unfolding dWorkerGone_def
  by (intro keep_withLock keep_intros keep_touches [OF touches_workerGone] publishes_upd publishes_now keep_dispatchLocked
      keep_placeability keep_exportStats keep_upd_dinv)
     (auto simp: dinv0_def AList.delete_eq map_le_def)

section \<open>Runs\<close>

text \<open>What happens to a dispatcher: its operations, in any order, with any messages; \<open>DBroken\<close> is the environment, whose streams
  break and are replaced.\<close>

datatype dcall =
    DConnect
  | DClientMsgs client_id "clientMsg list"
  | DLookup
  | DClientGone client_id
  | DWorkerMsgs session_id "workerMsg list"
  | DWorkerGone session_id
  | DStats
  | DServing
  | DRestarting
  | DWatch
  | DUnwatch nat
  | DBroken "session_id set"

fun runD :: "dconf \<Rightarrow> real \<Rightarrow> dcall \<Rightarrow> (disp, unit) prog" where
  "runD dc now DConnect = bnd connectClient (\<lambda>_. ret ())"
| "runD dc now (DClientMsgs cid msgs) = clientMsgs dc now cid msgs"
| "runD dc now DLookup = lookupRound dc now"
| "runD dc now (DClientGone cid) = dClientGone now cid"
| "runD dc now (DWorkerMsgs sid msgs) = workerMsgs dc now sid msgs"
| "runD dc now (DWorkerGone sid) = dWorkerGone now sid"
| "runD dc now DStats = statsRound now"
| "runD dc now DServing = serving"
| "runD dc now DRestarting = restarting"
| "runD dc now DWatch = bnd watchMembership (\<lambda>_. ret ())"
| "runD dc now (DUnwatch w) = unwatchMembership w"
| "runD dc now (DBroken B) = upd (\<lambda>d. d\<lparr>broken := B\<rparr>)"

text \<open>The addresses of a call's Hellos, and whether a Hello found the table full.\<close>

fun helloAddrs :: "dcall \<Rightarrow> string set" where
  "helloAddrs (DWorkerMsgs sid msgs) = {hmAddr hel | hel. HelloMsg hel \<in> set msgs}"
| "helloAddrs _ = {}"

fun halfHello :: "dcall \<Rightarrow> exn + unit \<Rightarrow> bool" where
  "halfHello (DWorkerMsgs sid msgs) r \<longleftrightarrow> r = Inl tableFull"
| "halfHello _ r \<longleftrightarrow> False"

inductive dispReach :: "string set \<Rightarrow> dconf \<Rightarrow> config \<Rightarrow> bool \<Rightarrow> disp \<Rightarrow> bool" for A dc cf where
  start: "dispReach A dc cf True (disp0 cf)"
| call: "dispReach A dc cf b d \<Longrightarrow> helloAddrs c \<subseteq> A \<Longrightarrow> runD dc now c d = (r, d') \<Longrightarrow> dispReach A dc cf (b \<and> \<not> halfHello c r) d'"

lemma keep_runD:
  assumes "defaultSystem dc \<noteq> []" "\<And>sid msgs. c \<noteq> DWorkerMsgs sid msgs"
  shows "keepsP (dinv A cf b) (runD dc now c)"
proof (cases c)
  case DConnect
  then show ?thesis by (simp add: keep_intros keep_connectClient)
next
  case DWatch
  then show ?thesis unfolding DWatch runD.simps watchMembership_def
    by (intro keep_intros keep_withLock keep_upd_dinv) simp_all
next
  case (DUnwatch w)
  then show ?thesis unfolding DUnwatch runD.simps unwatchMembership_def by (intro keep_withLock keep_upd_dinv) simp_all
next
  case (DBroken B)
  then show ?thesis unfolding DBroken runD.simps by (intro keep_upd_dinv) simp_all
qed (use assms in \<open>simp_all add: keep_clientMsgs keep_lookupRound keep_dClientGone keep_dWorkerGone keep_statsRound keep_serving\<close>)

lemma dispReach_dinv:
  assumes "dispReach A dc cf b d" and few: "fewAddrs A" and sys: "defaultSystem dc \<noteq> []"
  shows "dinv A cf b d"
  using assms(1)
proof (induction rule: dispReach.induct)
  case start
  show ?case using coreReach.reach_start by (auto simp: dinv_def dinv0_def disp0_def addrs_def core0_def membershipOf_def)
next
  case (call b d c now r d')
  show ?case
  proof (cases "\<exists>sid msgs. c = DWorkerMsgs sid msgs")
    case True
    then obtain sid msgs where c: "c = DWorkerMsgs sid msgs" by blast
    have "fine A cf (workerMsgs dc now sid msgs)" by (rule fine_workerMsgs [OF few]) (use call(2) in \<open>auto simp: c\<close>)
    then show ?thesis using call(3,4) by (auto simp: fine_def c dest!: spec [of _ d])
  next
    case False
    then have "\<not> halfHello c r" by (cases c) simp_all
    then show ?thesis using keepsPD [OF keep_runD [OF sys] call(4,3)] False by simp
  qed
qed

section \<open>The membership, spelled out\<close>

lemma foldl_append_at:
  "foldl (\<lambda>m system. m(system := m system @ [x])) nxt ss s = nxt s @ replicate (count_list ss s) x"
  by (induction ss arbitrary: nxt) (simp_all add: replicate_append_same flip: replicate_app_Cons_same)

lemma membershipOf_at:
  "membershipOf c s = concat (map (\<lambda>w. if up w then replicate (count_list (wsystems w) s) \<lparr>mAddr = waddr w, mDraining = \<not> takesWork w\<rparr> else [])
     (workers c))"
proof -
  have "foldl addMembers nxt ws s = nxt s @ concat (map (\<lambda>w. if up w then replicate (count_list (wsystems w) s)
      \<lparr>mAddr = waddr w, mDraining = \<not> takesWork w\<rparr> else []) ws)" for nxt ws
    by (induction ws arbitrary: nxt) (simp_all add: addMembers_def foldl_append_at)
  then show ?thesis by (simp add: membershipOf_def)
qed

section \<open>A run to look at\<close>

definition demoDc :: dconf where
  "demoDc = \<lparr>defaultSystem = ''x86_64-linux'', present = None, lookupThreads = 0\<rparr>"

definition demoCall :: dcall where
  "demoCall = DWorkerMsgs 3 [HelloMsg \<lparr>hmAddr = ''w1'', hmSystems = [''x86_64-linux''], hmFeatures = [], hmMaxJobs = 2, hmRunning = []\<rparr>]"

definition demoDisp :: disp where
  "demoDisp = snd (runD demoDc 0 demoCall (disp0 config0))"

lemma demoDisp_eval: "(case runD demoDc 0 demoCall (disp0 config0) of (r, d) \<Rightarrow> (r, sessId d 3, map wview (workers (dcore d))))
    = (Inr (), Some 0, [(''w1'', True, True, [''x86_64-linux''])])"
  by (simp add: demoCall_def demoDc_def disp0_def workerMsgs_def withLock_def workerMsgLocked_def onHello_def systemFor_def maxSystemLen_def
      onCore_def zoom_def membershipChangedLocked_def wakeWatchersLocked_def placeabilityChangedLocked_def placeabilityChanges_def
      dispatchLocked_def exportStats_def wview_def takesWork_def monad_defs hello_defs dispatch_defs bestSystem_def bestStep_def topKey_def Let_def del: sys_lookup)

lemma demoDisp_reach: "dispReach {''w1''} demoDc config0 True demoDisp"
proof -
  obtain r where r: "runD demoDc 0 demoCall (disp0 config0) = (r, demoDisp)" by (cases "runD demoDc 0 demoCall (disp0 config0)") (simp add: demoDisp_def)
  with demoDisp_eval have "r = Inr ()" by simp
  moreover have "helloAddrs demoCall \<subseteq> {''w1''}" by (auto simp: demoCall_def)
  ultimately show ?thesis using dispReach.call [OF dispReach.start _ r, of "{''w1''}"] by (auto simp: demoCall_def)
qed

lemma demoDisp_hyps: "fewAddrs {''w1''}" "defaultSystem demoDc \<noteq> []"
  by (simp_all add: fewAddrs_def noWorker_def demoDc_def)

lemma demoDisp_views: "sessId demoDisp 3 = Some 0" "map wview (workers (dcore demoDisp)) = [(''w1'', True, True, [''x86_64-linux''])]"
  using demoDisp_eval by (simp_all add: demoDisp_def split: prod.splits)

section \<open>Properties\<close>

text \<open>C11: Whatever clients and workers send to the dispatcher, in whatever order, with streams that break, clients that disconnect and
  operations that throw, the core stays in a state that its own operations reach, so that every theorem about reachable cores holds of it,
  and every session and every registered worker has an id the core gave out.  The workers have fewer addresses than there are ids,
  and the default system has a name.\<close>

theorem dispatcher_refines_core:
  assumes "dispReach A dc cf b d" "fewAddrs A" "defaultSystem dc \<noteq> []"
  shows "(\<exists>clean. coreReach cf clean (dcore d) \<and> (b \<longrightarrow> clean))
    \<and> (\<forall>sid w. sessId d sid = Some w \<longrightarrow> w < length (workers (dcore d)))
    \<and> fst ` set (dworkers d) \<subseteq> {..<length (workers (dcore d))} \<and> set (map waddr (workers (dcore d))) \<subseteq> A"
  using dispReach_dinv [OF assms] by (simp add: dinv_def dinv0_def addrs_def)

theorem dispatcher_refines_core_witness: "\<exists>clean. coreReach config0 clean (dcore demoDisp) \<and> clean \<and> 0 < length (workers (dcore demoDisp))"
  using dispatcher_refines_core [OF demoDisp_reach demoDisp_hyps] demoDisp_views(1) by auto

text \<open>C12: Unless a Hello has failed half way on a full table, the membership the dispatcher publishes is at all times the one of its core:
  under each system stand the workers that are up and offer it, in the order of their ids, with the mark whether they take work.\<close>

theorem membership_current:
  assumes "dispReach A dc cf True d" "fewAddrs A" "defaultSystem dc \<noteq> []"
  shows "published d s = concat (map (\<lambda>w. if up w then replicate (count_list (wsystems w) s) \<lparr>mAddr = waddr w, mDraining = \<not> takesWork w\<rparr> else [])
     (workers (dcore d)))"
  using dispReach_dinv [OF assms] by (simp add: dinv_def membershipOf_at)

theorem membership_current_witness: "published demoDisp ''x86_64-linux'' = [\<lparr>mAddr = ''w1'', mDraining = False\<rparr>]"
proof -
  obtain w where "workers (dcore demoDisp) = [w]" "wview w = (''w1'', True, True, [''x86_64-linux''])"
    using demoDisp_views(2) by (auto simp: map_eq_Cons_conv)
  then show ?thesis
    using membership_current [OF demoDisp_reach demoDisp_hyps, of "''x86_64-linux''"] by (simp add: wview_def)
qed

end
