(* ===== verification/Executor.thy ===== *)
theory Executor
  imports Prelude
begin

text \<open>
  The client's job executor (class \<open>Executor\<close> of \<^verbatim>\<open>src/client/executor.hh\<close>): which build of a
  client waits for its inputs, may be wanted from the scheduler, is wanted, placed, running or
  done, and how an outcome spreads to the builds that depend on it.

  A job's state is the \<open>std::variant\<close> of the source as a datatype.  Times are integers, the
  counters \<open>remaining\<close>, \<open>active\<close> and \<open>waiting\<close> are naturals with the wrap-around of an unsigned
  decrement written out in \<open>dec64\<close>.  The loop of \<open>settle\<close> is \<open>settleLoop\<close>; it ends because each
  round either shortens the work list or finishes a job.
\<close>

section \<open>Data\<close>

type_synonym job_id = nat

record placement =
  paddr :: string
  passignId :: nat
  psystem :: string

datatype joutcome = Built | Cached | DependencyFailed | Lost | Unplaceable | GaveUp | Cancelled

record jdone =
  outcome :: joutcome
  succeeded :: bool
  message :: string

datatype jstate =
    Blocked (waiting: nat)
  | Wantable
  | Wanted (unplaceableSince: "int option") (reason: string)
  | Assigned placement
  | Running placement "placement option"
  | Done jdone

record econfig =
  threads :: nat
  rescheduleRetries :: nat
  keepGoing :: bool

record job =
  jst :: jstate
  prio :: real
  dependants :: "job_id list"
  failedInput :: "job_id option"
  jbounced :: nat
  followed :: bool

record exec =
  ecfg :: econfig
  jobs :: "job list"
  wantable :: "job_id list"
  rewant :: "job_id list"
  cancels :: "job_id list"
  ready :: "job_id list"
  remaining :: nat
  active :: nat
  progressed :: nat
  stream :: bool
  abandoned :: bool
  stopping :: bool

definition exec0 :: "econfig \<Rightarrow> exec" where
  "exec0 cf = \<lparr>ecfg = cf, jobs = [], wantable = [], rewant = [], cancels = [], ready = [], remaining = 0, active = 0,
     progressed = 0, stream = False, abandoned = False, stopping = False\<rparr>"

definition lostDone :: jdone where
  "lostDone = \<lparr>outcome = Lost, succeeded = False, message = ''scheduler connection lost''\<rparr>"

definition cancelledDone :: jdone where
  "cancelledDone = \<lparr>outcome = Cancelled, succeeded = False, message = ''cancelled: another build failed''\<rparr>"

definition isActive :: "jstate \<Rightarrow> bool" where
  "isActive st = (case st of Wanted _ _ \<Rightarrow> True | Assigned _ \<Rightarrow> True | Running _ _ \<Rightarrow> True | _ \<Rightarrow> False)"

definition dec64 :: "nat \<Rightarrow> nat" where
  "dec64 n = (if n = 0 then 2 ^ 64 - 1 else n - 1)"

definition jobAt :: "job_id \<Rightarrow> (exec, job) prog" where
  "jobAt jid = bnd (gets jobs) (\<lambda>js. vat js jid)"

definition putJob :: "job_id \<Rightarrow> job \<Rightarrow> (exec, unit) prog" where
  "putJob jid jb = upd (\<lambda>x. x\<lparr>jobs := (jobs x)[jid := jb]\<rparr>)"

section \<open>Moving between states\<close>

definition toState :: "job_id \<Rightarrow> jstate \<Rightarrow> (exec, unit) prog" where
  "toState jid nxt =
     bnd (jobAt jid) (\<lambda>jb.
     bnd (upd (\<lambda>x. x\<lparr>active := (let a = (if isActive (jst jb) then dec64 (active x) else active x) in
       if isActive nxt then a + 1 else a)\<rparr>)) (\<lambda>_.
     putJob jid (jb\<lparr>jst := nxt\<rparr>)))"

definition unblock :: "job_id \<Rightarrow> (exec, jdone option) prog" where
  "unblock jid =
     bnd (jobAt jid) (\<lambda>jb.
     if failedInput jb \<noteq> None then ret (Some \<lparr>outcome = DependencyFailed, succeeded = False, message = ''dependency failed''\<rparr>)
     else bnd (gets stopping) (\<lambda>stp.
       if stp then ret (Some cancelledDone)
       else bnd (gets abandoned) (\<lambda>abn.
         if abn then ret (Some lostDone)
         else
           bnd (toState jid Wantable) (\<lambda>_.
           bnd (upd (\<lambda>x. x\<lparr>wantable := wantable x @ [jid]\<rparr>)) (\<lambda>_.
           ret None)))))"

definition unfollow :: "job_id \<Rightarrow> (exec, unit) prog" where
  "unfollow jid =
     bnd (jobAt jid) (\<lambda>jb.
     bnd (putJob jid (jb\<lparr>followed := False\<rparr>)) (\<lambda>_.
     if followed jb then upd (\<lambda>x. x\<lparr>cancels := cancels x @ [jid]\<rparr>) else ret ()))"

type_synonym work = "(job_id \<times> jdone) list"

definition releaseDependant :: "job_id \<Rightarrow> bool \<Rightarrow> job_id \<Rightarrow> (exec, work) prog" where
  "releaseDependant jid failed dep =
     bnd (jobAt dep) (\<lambda>dnt.
     case jst dnt of
       Blocked n \<Rightarrow>
         bnd (putJob dep (dnt\<lparr>jst := Blocked (dec64 n),
           failedInput := (if failed \<and> failedInput dnt = None then Some jid else failedInput dnt)\<rparr>)) (\<lambda>_.
         if dec64 n = 0 then
           bnd (unblock dep) (\<lambda>nxt. ret (case nxt of None \<Rightarrow> [] | Some dn \<Rightarrow> [(dep, dn)]))
         else ret [])
     | _ \<Rightarrow> ret [])"

fun releaseEach :: "job_id \<Rightarrow> bool \<Rightarrow> job_id list \<Rightarrow> work \<Rightarrow> (exec, work) prog" where
  "releaseEach jid failed [] wrk = ret wrk"
| "releaseEach jid failed (dep # deps) wrk =
     bnd (releaseDependant jid failed dep) (\<lambda>more. releaseEach jid failed deps (wrk @ more))"

definition releaseDependants :: "job_id \<Rightarrow> bool \<Rightarrow> work \<Rightarrow> (exec, work) prog" where
  "releaseDependants jid failed wrk =
     bnd (jobAt jid) (\<lambda>jb. releaseEach jid failed (dependants jb) wrk)"

definition isRunning :: "jstate \<Rightarrow> bool" where
  "isRunning st = (case st of Running _ _ \<Rightarrow> True | _ \<Rightarrow> False)"

definition isDone :: "jstate \<Rightarrow> bool" where
  "isDone st = (case st of Done _ \<Rightarrow> True | _ \<Rightarrow> False)"

definition stopAll :: "work \<Rightarrow> (exec, work) prog" where
  "stopAll wrk =
     bnd (upd (\<lambda>x. x\<lparr>stopping := True\<rparr>)) (\<lambda>_.
     bnd (gets jobs) (\<lambda>js.
     ret (wrk @ map (\<lambda>other. (other, cancelledDone))
       (filter (\<lambda>other. \<not> isRunning (jst (js ! other)) \<and> \<not> isDone (jst (js ! other))) [0..<length js]))))"

text \<open>The body of the loop in \<open>settle\<close>, for a job that is not done.\<close>

definition settleOne :: "job_id \<Rightarrow> jdone \<Rightarrow> work \<Rightarrow> (exec, work) prog" where
  "settleOne jid result wrk =
     bnd (unfollow jid) (\<lambda>_.
     bnd (toState jid (Done result)) (\<lambda>_.
     bnd (upd (\<lambda>x. x\<lparr>remaining := dec64 (remaining x), progressed := progressed x + 1\<rparr>)) (\<lambda>_.
     bnd (releaseDependants jid (\<not> succeeded result) wrk) (\<lambda>wrk.
     bnd (gets (\<lambda>x. \<not> succeeded result \<and> \<not> keepGoing (ecfg x) \<and> \<not> stopping x)) (\<lambda>stop.
     if stop then stopAll wrk else ret wrk)))))"

text \<open>The jobs that are not done yet, which only shrink.\<close>

definition undone :: "exec \<Rightarrow> job_id set" where
  "undone x = {jid. jid < length (jobs x) \<and> \<not> isDone (jst (jobs x ! jid))}"

lemma finite_undone [simp]: "finite (undone x)"
  by (simp add: undone_def)

lemma wp_jobAt [wp_simps]:
  "wp (jobAt jid) Q E = (\<lambda>x. if jid < length (jobs x) then Q (jobs x ! jid) x else E OutOfRange x)"
  by (simp add: jobAt_def wp_simps)

lemma wp_putJob [wp_simps]: "wp (putJob jid jb) Q E = (\<lambda>x. Q () (x\<lparr>jobs := (jobs x)[jid := jb]\<rparr>))"
  by (simp add: putJob_def wp_simps)

lemma undone_update:
  "jid < length (jobs x) \<Longrightarrow> undone (x\<lparr>jobs := (jobs x)[jid := jb]\<rparr>) =
     (if isDone (jst jb) then undone x - {jid} else insert jid (undone x))"
  by (auto simp: undone_def nth_update_if split: if_splits)

text \<open>\<open>undoneIn A n\<close>: there are \<open>n\<close> jobs and those not done are in \<open>A\<close>.\<close>

definition undoneIn :: "job_id set \<Rightarrow> nat \<Rightarrow> exec \<Rightarrow> bool" where
  "undoneIn A n x \<longleftrightarrow> undone x \<subseteq> A \<and> length (jobs x) = n"

lemma undoneIn_update:
  "undoneIn A n x \<Longrightarrow> jid < n \<Longrightarrow> jid \<in> A \<or> isDone (jst jb) \<Longrightarrow> undoneIn A n (x\<lparr>jobs := (jobs x)[jid := jb]\<rparr>)"
  by (auto simp: undoneIn_def undone_update)

lemma undoneIn_simps [simp]:
  "undoneIn A n (x\<lparr>active := a\<rparr>) = undoneIn A n x" "undoneIn A n (x\<lparr>wantable := w\<rparr>) = undoneIn A n x"
  "undoneIn A n (x\<lparr>cancels := w\<rparr>) = undoneIn A n x" "undoneIn A n (x\<lparr>stopping := b\<rparr>) = undoneIn A n x"
  "undoneIn A n (x\<lparr>remaining := r, progressed := q\<rparr>) = undoneIn A n x"
  by (simp_all add: undoneIn_def undone_def)

lemma toState_undoneIn:
  assumes "undoneIn A n x" "jid < n" "jid \<in> A \<or> isDone st"
  shows "wp (toState jid st) (\<lambda>_. undoneIn A n) E x"
proof -
  have "jid < length (jobs x)" using assms by (simp add: undoneIn_def)
  moreover have "undoneIn A n (x\<lparr>active := a, jobs := (jobs x)[jid := (jobs x ! jid)\<lparr>jst := st\<rparr>]\<rparr>)" for a
    using undoneIn_update [of A n "x\<lparr>active := a\<rparr>" jid "(jobs x ! jid)\<lparr>jst := st\<rparr>"] assms by simp
  ultimately show ?thesis by (simp add: toState_def wp_simps)
qed

lemma unblock_undoneIn:
  assumes "undoneIn A n x" "jid < n" "jid \<in> A"
  shows "wp (unblock jid) (\<lambda>_. undoneIn A n) E x"
proof -
  have "jid < length (jobs x)" using assms by (simp add: undoneIn_def)
  moreover have "wp (toState jid Wantable) (\<lambda>_ x. undoneIn A n (x\<lparr>wantable := wantable x @ [jid]\<rparr>)) E x"
    using toState_undoneIn [OF assms(1,2)] assms(3) by simp
  ultimately show ?thesis using assms(1) by (simp add: unblock_def wp_simps)
qed

lemma releaseDependant_undoneIn:
  assumes "undoneIn A n x"
  shows "wp (releaseDependant jid failed dep) (\<lambda>_. undoneIn A n) (\<lambda>_. undoneIn A n) x"
proof (cases "dep < n \<and> (\<exists>k. jst (jobs x ! dep) = Blocked k)")
  case True
  then obtain k where k: "jst (jobs x ! dep) = Blocked k" and dep: "dep < n" by blast
  have len: "length (jobs x) = n" using assms by (simp add: undoneIn_def)
  have "dep \<in> A" using assms k dep by (auto simp: undoneIn_def undone_def isDone_def)
  then have upd: "undoneIn A n (x\<lparr>jobs := (jobs x)[dep := jb]\<rparr>)" for jb using undoneIn_update [OF assms dep] by simp
  show ?thesis
    using upd unblock_undoneIn [OF upd dep \<open>dep \<in> A\<close>] by (simp add: releaseDependant_def wp_simps dep len k)
next
  case False
  then show ?thesis using assms by (auto simp: releaseDependant_def wp_simps undoneIn_def split: jstate.split)
qed

lemma releaseEach_undoneIn:
  "undoneIn A n x \<Longrightarrow> wp (releaseEach jid failed deps wrk) (\<lambda>_. undoneIn A n) (\<lambda>_. undoneIn A n) x"
proof (induction deps arbitrary: wrk x)
  case (Cons dep deps)
  show ?case by (simp add: wp_simps) (rule wp_mono [OF releaseDependant_undoneIn [OF Cons.prems]], erule Cons.IH)
qed (simp add: wp_simps)

lemma unfollow_undoneIn:
  assumes "undoneIn A n x" "jid < n" "jid \<in> A"
  shows "wp (unfollow jid) (\<lambda>_. undoneIn A n) E x"
proof -
  have "jid < length (jobs x)" using assms by (simp add: undoneIn_def)
  then show ?thesis using undoneIn_update [OF assms(1,2)] assms(3) by (simp add: unfollow_def wp_simps)
qed

lemma settleOne_undone:
  assumes "jid \<in> undone x"
  shows "wp (settleOne jid result wrk) (\<lambda>_ x'. undone x' \<subseteq> undone x - {jid}) (\<lambda>_ _. True) x"
proof -
  let ?n = "length (jobs x)" and ?A = "undone x"
  have jid: "jid < ?n" using assms by (simp add: undone_def)
  have 1: "wp (unfollow jid) (\<lambda>_. undoneIn ?A ?n) (\<lambda>_ _. True) x"
    by (rule unfollow_undoneIn [OF _ jid assms]) (simp add: undoneIn_def)
  have 2: "wp (toState jid (Done result)) (\<lambda>_. undoneIn (?A - {jid}) ?n) (\<lambda>_ _. True) y" if "undoneIn ?A ?n y" for y
    using that jid undone_update [of jid "y\<lparr>active := _\<rparr>" "(jobs y ! jid)\<lparr>jst := Done result\<rparr>"]
    by (auto simp: toState_def wp_simps undoneIn_def isDone_def undone_def)
  have 3: "wp (releaseDependants jid f wrk) (\<lambda>_. undoneIn (?A - {jid}) ?n) (\<lambda>_ _. True) y" if "undoneIn (?A - {jid}) ?n y" for y f wrk
    using that wp_mono [OF releaseEach_undoneIn [OF that]] by (simp add: releaseDependants_def wp_simps)
  have 4: "wp (gets (\<lambda>x. \<not> succeeded result \<and> \<not> keepGoing (ecfg x) \<and> \<not> stopping x)) (\<lambda>stop. wp (if stop then stopAll wrk else ret wrk)
      (\<lambda>_. undoneIn (?A - {jid}) ?n) (\<lambda>_ _. True)) (\<lambda>_ _. True) y" if "undoneIn (?A - {jid}) ?n y" for y wrk
    using that by (simp add: stopAll_def wp_simps)
  have "wp (settleOne jid result wrk) (\<lambda>_. undoneIn (?A - {jid}) ?n) (\<lambda>_ _. True) x"
    unfolding settleOne_def wp_bnd
    by (rule wp_mono [OF 1], rule wp_mono [OF 2], assumption)
      (simp add: wp_upd, rule wp_mono [OF 3], simp, rule 4, simp_all)
  then show ?thesis by (rule wp_mono) (simp_all add: undoneIn_def)
qed

function settleLoop :: "work \<Rightarrow> (exec, unit) prog" where
  "settleLoop wrk x =
     (if wrk = [] then (Inr (), x)
      else
        (let (jid, result) = last wrk; rest = butlast wrk in
         if \<not> jid < length (jobs x) then (Inl OutOfRange, x)
         else if isDone (jst (jobs x ! jid)) then settleLoop rest x
         else
           (case settleOne jid result rest x of
              (Inl e, x') \<Rightarrow> (Inl e, x')
            | (Inr wrk', x') \<Rightarrow> settleLoop wrk' x')))"
  by pat_completeness auto
termination
proof (relation "measures [\<lambda>(wrk, x). card (undone x), \<lambda>(wrk, x). length wrk]", goal_cases)
  case (3 wrk x p jid result rest sum x' wrk')
  then have jid: "jid \<in> undone x" by (simp add: undone_def)
  have "settleOne jid result rest x = (Inr wrk', x')" using 3 by simp
  with settleOne_undone [OF jid, of result rest] have "undone x' \<subseteq> undone x - {jid}" by (simp add: wp_def)
  then have "undone x' \<subset> undone x" using jid by blast
  then have "card (undone x') < card (undone x)" by (rule psubset_card_mono [OF finite_undone])
  then show ?case by simp
qed auto

declare settleLoop.simps [simp del]

definition settle :: "job_id \<Rightarrow> jdone \<Rightarrow> (exec, unit) prog" where
  "settle jid dn = settleLoop [(jid, dn)]"

definition release :: "job_id \<Rightarrow> (exec, unit) prog" where
  "release jid =
     bnd (unblock jid) (\<lambda>dn. case dn of None \<Rightarrow> ret () | Some r \<Rightarrow> settle jid r)"

section \<open>Adding jobs\<close>

definition addInput :: "job_id \<Rightarrow> job_id \<Rightarrow> (exec, nat) prog" where
  "addInput jid input =
     bnd (jobAt input) (\<lambda>jb.
     case jst jb of
       Done dn \<Rightarrow>
         if succeeded dn then ret 0
         else bnd (jobAt jid) (\<lambda>me. bnd (putJob jid (me\<lparr>failedInput := Some input\<rparr>)) (\<lambda>_. ret 0))
     | _ \<Rightarrow> bnd (putJob input (jb\<lparr>dependants := dependants jb @ [jid]\<rparr>)) (\<lambda>_. ret 1))"

fun addInputs :: "job_id \<Rightarrow> job_id list \<Rightarrow> nat \<Rightarrow> (exec, nat) prog" where
  "addInputs jid [] n = ret n"
| "addInputs jid (input # rest) n = bnd (addInput jid input) (\<lambda>k. addInputs jid rest (n + k))"

definition addJob :: "real \<Rightarrow> job_id list \<Rightarrow> (exec, job_id) prog" where
  "addJob pr inputs =
     bnd (gets (\<lambda>x. length (jobs x) mod 2 ^ 32)) (\<lambda>jid.
     bnd (upd (\<lambda>x. x\<lparr>jobs := jobs x @ [\<lparr>jst = Blocked 0, prio = pr, dependants = [], failedInput = None,
       jbounced = 0, followed = False\<rparr>], remaining := remaining x + 1\<rparr>)) (\<lambda>_.
     bnd (addInputs jid inputs 0) (\<lambda>n.
     bnd (jobAt jid) (\<lambda>jb.
     bnd (putJob jid (jb\<lparr>jst := Blocked n\<rparr>)) (\<lambda>_.
     bnd (if n = 0 then release jid else ret ()) (\<lambda>_.
     ret jid))))))"

definition blockOn :: "job_id \<Rightarrow> job_id \<Rightarrow> (exec, unit) prog" where
  "blockOn jid input =
     bnd (jobAt jid) (\<lambda>jb.
     if \<not> isRunning (jst jb) then ret ()
     else
       bnd (jobAt input) (\<lambda>inp.
       case jst inp of
         Done dn \<Rightarrow>
           bnd (if succeeded dn then ret () else putJob jid (jb\<lparr>failedInput := Some input\<rparr>)) (\<lambda>_.
           bnd (toState jid (Blocked 0)) (\<lambda>_.
           release jid))
       | _ \<Rightarrow>
           bnd (putJob input (inp\<lparr>dependants := dependants inp @ [jid]\<rparr>)) (\<lambda>_.
           bnd (unfollow jid) (\<lambda>_.
           toState jid (Blocked 1)))))"

section \<open>The scheduler's stream\<close>

definition connectJob :: "job_id \<Rightarrow> (exec, unit) prog" where
  "connectJob jid =
     bnd (jobAt jid) (\<lambda>jb.
     case jst jb of
       Wanted _ _ \<Rightarrow> bnd (toState jid Wantable) (\<lambda>_. upd (\<lambda>x. x\<lparr>wantable := wantable x @ [jid]\<rparr>))
     | Assigned _ \<Rightarrow> upd (\<lambda>x. x\<lparr>rewant := rewant x @ [jid]\<rparr>)
     | Running _ _ \<Rightarrow> upd (\<lambda>x. x\<lparr>rewant := rewant x @ [jid]\<rparr>)
     | _ \<Rightarrow> ret ())"

definition connected :: "(exec, unit) prog" where
  "connected =
     bnd (upd (\<lambda>x. x\<lparr>stream := True\<rparr>)) (\<lambda>_.
     bnd (gets (\<lambda>x. length (jobs x))) (\<lambda>n.
     forEach [0..<n] connectJob))"

definition disconnected :: "(exec, unit) prog" where
  "disconnected = upd (\<lambda>x. x\<lparr>stream := False, jobs := map (\<lambda>jb. jb\<lparr>followed := False\<rparr>) (jobs x)\<rparr>)"

text \<open>\<open>partial_sort\<close> leaves the order of equal priorities and of the rest open; this is one of
  its results.\<close>

definition byPrio :: "job list \<Rightarrow> job_id list \<Rightarrow> job_id list" where
  "byPrio js ids = sort_key (\<lambda>jid. - prio (js ! jid)) ids"

definition wantJob :: "job_id \<Rightarrow> (exec, unit) prog" where
  "wantJob jid =
     bnd (toState jid (Wanted None [])) (\<lambda>_.
     bnd (jobAt jid) (\<lambda>jb. putJob jid (jb\<lparr>followed := True\<rparr>)))"

text \<open>The second half of \<open>takeWants\<close>: which of the wantable jobs become wanted.\<close>

definition chooseWants :: "(exec, job_id list) prog" where
  "chooseWants =
     bnd (gets wantable) (\<lambda>ws.
     bnd (forEach ws (\<lambda>jid. bnd (jobAt jid) (\<lambda>_. ret ()))) (\<lambda>_.
     bnd (upd (\<lambda>x. x\<lparr>wantable := filter (\<lambda>jid. jst (jobs x ! jid) = Wantable) (wantable x)\<rparr>)) (\<lambda>_.
     bnd (gets (\<lambda>x. min (length (wantable x)) (if threads (ecfg x) > active x then threads (ecfg x) - active x else 0))) (\<lambda>room.
     bnd (upd (\<lambda>x. x\<lparr>wantable := byPrio (jobs x) (wantable x)\<rparr>)) (\<lambda>_.
     bnd (gets (\<lambda>x. take room (wantable x))) (\<lambda>chosen.
     bnd (forEach chosen wantJob) (\<lambda>_.
     bnd (upd (\<lambda>x. x\<lparr>wantable := drop room (wantable x)\<rparr>)) (\<lambda>_.
     ret chosen))))))))"

definition takeWants :: "(exec, job_id list) prog" where
  "takeWants =
     bnd (gets stream) (\<lambda>strm.
     if \<not> strm then ret []
     else
       bnd (gets rewant) (\<lambda>again.
       bnd (upd (\<lambda>x. x\<lparr>rewant := []\<rparr>)) (\<lambda>_.
       bnd (forEach again (\<lambda>jid. bnd (jobAt jid) (\<lambda>jb. putJob jid (jb\<lparr>followed := True\<rparr>)))) (\<lambda>_.
       bnd chooseWants (\<lambda>chosen.
       ret (again @ chosen))))))"

definition unsent :: "job_id list \<Rightarrow> (exec, unit) prog" where
  "unsent ids =
     forEach ids (\<lambda>jid.
       bnd (jobAt jid) (\<lambda>jb.
       bnd (putJob jid (jb\<lparr>followed := False\<rparr>)) (\<lambda>_.
       case jst jb of
         Wanted _ _ \<Rightarrow> bnd (toState jid Wantable) (\<lambda>_. upd (\<lambda>x. x\<lparr>wantable := wantable x @ [jid]\<rparr>))
       | _ \<Rightarrow> ret ())))"

definition takeCancels :: "(exec, job_id list) prog" where
  "takeCancels = bnd (gets cancels) (\<lambda>cs. bnd (upd (\<lambda>x. x\<lparr>cancels := []\<rparr>)) (\<lambda>_. ret cs))"

definition onAssigned :: "job_id \<Rightarrow> placement \<Rightarrow> (exec, unit) prog" where
  "onAssigned jid pl =
     bnd (jobAt jid) (\<lambda>jb.
     if paddr pl = [] then ret ()
     else
       case jst jb of
         Running here redirect \<Rightarrow>
           if paddr pl \<noteq> paddr here then putJob jid (jb\<lparr>jst := Running here (Some pl)\<rparr>) else ret ()
       | Assigned _ \<Rightarrow> putJob jid (jb\<lparr>jst := Assigned pl\<rparr>)
       | Wanted _ _ \<Rightarrow>
           bnd (upd (\<lambda>x. x\<lparr>progressed := progressed x + 1\<rparr>)) (\<lambda>_.
           bnd (toState jid (Assigned pl)) (\<lambda>_.
           upd (\<lambda>x. x\<lparr>ready := ready x @ [jid]\<rparr>)))
       | _ \<Rightarrow> ret ())"

definition onCached :: "job_id \<Rightarrow> (exec, unit) prog" where
  "onCached jid =
     bnd (jobAt jid) (\<lambda>jb.
     case jst jb of
       Wanted _ _ \<Rightarrow> settle jid \<lparr>outcome = Cached, succeeded = True, message = []\<rparr>
     | _ \<Rightarrow> ret ())"

definition onUnplaceable :: "job_id \<Rightarrow> string \<Rightarrow> int \<Rightarrow> (exec, bool) prog" where
  "onUnplaceable jid rsn now =
     bnd (jobAt jid) (\<lambda>jb.
     case jst jb of
       Wanted since _ \<Rightarrow>
         bnd (putJob jid (jb\<lparr>jst := Wanted (if since = None then Some now else since) rsn\<rparr>)) (\<lambda>_. ret (since = None))
     | _ \<Rightarrow> ret False)"

definition onPlaceable :: "job_id \<Rightarrow> (exec, unit) prog" where
  "onPlaceable jid =
     bnd (jobAt jid) (\<lambda>jb.
     case jst jb of
       Wanted _ rsn \<Rightarrow> putJob jid (jb\<lparr>jst := Wanted None rsn\<rparr>)
     | _ \<Rightarrow> ret ())"

definition reapJob :: "int \<Rightarrow> int \<Rightarrow> job_id \<Rightarrow> int \<Rightarrow> (exec, int) prog" where
  "reapJob now grace jid wake =
     bnd (jobAt jid) (\<lambda>jb.
     case jst jb of
       Wanted (Some since) rsn \<Rightarrow>
         if since + grace > now then ret (min wake (since + grace))
         else bnd (settle jid \<lparr>outcome = Unplaceable, succeeded = False, message = rsn\<rparr>) (\<lambda>_. ret wake)
     | _ \<Rightarrow> ret wake)"

fun reapJobs :: "int \<Rightarrow> int \<Rightarrow> job_id list \<Rightarrow> int \<Rightarrow> (exec, int) prog" where
  "reapJobs now grace [] wake = ret wake"
| "reapJobs now grace (jid # rest) wake = bnd (reapJob now grace jid wake) (\<lambda>wake. reapJobs now grace rest wake)"

definition reap :: "int \<Rightarrow> int \<Rightarrow> (exec, int) prog" where
  "reap now grace =
     bnd (gets (\<lambda>x. length (jobs x))) (\<lambda>n. reapJobs now grace [0..<n] (now + grace))"

section \<open>Build threads\<close>

function nextJob :: "(exec, (job_id \<times> placement) option) prog" where
  "nextJob x =
     (case ready x of
        [] \<Rightarrow> (Inr None, x)
      | jid # rest \<Rightarrow>
          (let x' = x\<lparr>ready := rest\<rparr> in
           if \<not> jid < length (jobs x) then (Inl OutOfRange, x')
           else
             case jst (jobs x ! jid) of
               Assigned pl \<Rightarrow> bnd (toState jid (Running pl None)) (\<lambda>_. ret (Some (jid, pl))) x'
             | _ \<Rightarrow> nextJob x'))"
  by pat_completeness auto
termination
  by (relation "measure (\<lambda>x. length (ready x))") auto

declare nextJob.simps [simp del]

definition finished :: "job_id \<Rightarrow> bool \<Rightarrow> (exec, unit) prog" where
  "finished jid ok =
     bnd (jobAt jid) (\<lambda>jb.
     if isRunning (jst jb) then settle jid \<lparr>outcome = Built, succeeded = ok, message = []\<rparr> else ret ())"

definition bounced :: "job_id \<Rightarrow> (exec, unit) prog" where
  "bounced jid =
     bnd (jobAt jid) (\<lambda>jb.
     case jst jb of
       Running here (Some redirect) \<Rightarrow>
         bnd (toState jid (Assigned redirect)) (\<lambda>_. upd (\<lambda>x. x\<lparr>ready := ready x @ [jid]\<rparr>))
     | Running here None \<Rightarrow>
         bnd (putJob jid (jb\<lparr>jbounced := (jbounced jb + 1) mod 2 ^ 32\<rparr>)) (\<lambda>_.
         bnd (gets (\<lambda>x. rescheduleRetries (ecfg x))) (\<lambda>retries.
         if (jbounced jb + 1) mod 2 ^ 32 > retries then
           settle jid \<lparr>outcome = GaveUp, succeeded = False,
             message = ''gave up after '' @ decimal ((jbounced jb + 1) mod 2 ^ 32) @ '' reschedules''\<rparr>
         else
           bnd (toState jid (Blocked 0)) (\<lambda>_.
           release jid)))
     | _ \<Rightarrow> ret ())"

definition abandonJob :: "job_id \<Rightarrow> (exec, unit) prog" where
  "abandonJob jid =
     bnd (jobAt jid) (\<lambda>jb.
     case jst jb of
       Wantable \<Rightarrow> settle jid lostDone
     | Wanted _ _ \<Rightarrow> settle jid lostDone
     | _ \<Rightarrow> ret ())"

definition abandon :: "(exec, unit) prog" where
  "abandon =
     bnd (upd (\<lambda>x. x\<lparr>abandoned := True\<rparr>)) (\<lambda>_.
     bnd (gets (\<lambda>x. length (jobs x))) (\<lambda>n.
     forEach [0..<n] abandonJob))"

end
