(* ===== verification/ExecInv.thy ===== *)
theory ExecInv
  imports Executor "HOL-Library.Multiset"
begin

text \<open>
  The invariant of the client's executor (theory \<open>Executor\<close>): the counter of a blocked job is the number of its
  inputs that are not done, no job waits for nothing, the counters of active and remaining jobs are right, and no
  more jobs are active than there are build threads.  It holds in every state a run of the executor's
  operations can reach.
\<close>

section \<open>Counting over the jobs\<close>

definition sumOf :: "(job \<Rightarrow> nat) \<Rightarrow> job list \<Rightarrow> nat" where
  "sumOf f js = sum_list (map f js)"

lemma sumOf_update: "i < length js \<Longrightarrow> sumOf f (js[i := jb]) + f (js ! i) = sumOf f js + f jb"
  unfolding sumOf_def by (induction js arbitrary: i) (auto split: nat.splits simp: less_Suc_eq_0_disj)

lemma sumOf_append [simp]: "sumOf f (js @ ks) = sumOf f js + sumOf f ks" "sumOf f [] = 0" "sumOf f (jb # ks) = f jb + sumOf f ks"
  by (simp_all add: sumOf_def)

lemma sumOf_pos: "i < length js \<Longrightarrow> 0 < f (js ! i) \<Longrightarrow> 0 < sumOf f js"
  unfolding sumOf_def by (induction js arbitrary: i) (auto simp: nth_Cons split: nat.splits)

definition actives :: "job list \<Rightarrow> nat" where
  "actives = sumOf (\<lambda>jb. of_bool (isActive (jst jb)))"

definition undones :: "job list \<Rightarrow> nat" where
  "undones = sumOf (\<lambda>jb. of_bool (\<not> isDone (jst jb)))"

text \<open>How often jobs that are not done will release a given job.\<close>

definition occ :: "job list \<Rightarrow> job_id \<Rightarrow> nat" where
  "occ js d = sumOf (\<lambda>jb. if isDone (jst jb) then 0 else count_list (dependants jb) d) js"

section \<open>The invariant\<close>

text \<open>\<open>jobOk\<close> for job \<open>d\<close> when the releases \<open>debt\<close> are still to come; \<open>ex\<close> are jobs about to be settled.\<close>

definition jobOk :: "job_id list \<Rightarrow> exec \<Rightarrow> job_id \<Rightarrow> bool" where
  "jobOk debt x d \<longleftrightarrow>
     (let jb = jobs x ! d; k = occ (jobs x) d + count_list debt d in
      case jst jb of
        Blocked n \<Rightarrow> n = k \<and> 0 < n \<and> d \<notin> set (wantable x)
      | Done _ \<Rightarrow> True
      | Wantable \<Rightarrow> k = 0 \<and> failedInput jb = None \<and> count_list (wantable x) d = 1
      | Assigned _ \<Rightarrow> k = 0 \<and> failedInput jb = None \<and> d \<in> set (ready x) \<and> d \<notin> set (wantable x)
      | _ \<Rightarrow> k = 0 \<and> failedInput jb = None \<and> d \<notin> set (wantable x))"

definition idsIn :: "exec \<Rightarrow> bool" where
  "idsIn x \<longleftrightarrow> set (wantable x) \<union> set (ready x) \<union> set (rewant x) \<union> set (cancels x) \<subseteq> {..<length (jobs x)}"

definition einv :: "job_id set \<Rightarrow> job_id list \<Rightarrow> exec \<Rightarrow> bool" where
  "einv ex debt x \<longleftrightarrow>
     (\<forall>d < length (jobs x). d \<notin> ex \<longrightarrow> jobOk debt x d)
     \<and> (\<forall>jb \<in> set (jobs x). set (dependants jb) \<subseteq> {..<length (jobs x)})
     \<and> set debt \<subseteq> {..<length (jobs x)} \<and> idsIn x
     \<and> active x = actives (jobs x) \<and> remaining x = undones (jobs x) \<and> active x \<le> threads (ecfg x)"

lemma einvD:
  assumes "einv ex debt x"
  shows "d < length (jobs x) \<Longrightarrow> d \<notin> ex \<Longrightarrow> jobOk debt x d"
    and "jb \<in> set (jobs x) \<Longrightarrow> set (dependants jb) \<subseteq> {..<length (jobs x)}"
    and "set debt \<subseteq> {..<length (jobs x)}" and "idsIn x"
    and "active x = actives (jobs x)" and "remaining x = undones (jobs x)" and "active x \<le> threads (ecfg x)"
  using assms by (simp_all add: einv_def)

text \<open>A change of one job that leaves the releases of the others as they were.\<close>

lemma einv_change:
  assumes inv: "einv ex debt x" and j: "j < length (jobs x)"
    and js: "jobs x' = (jobs x)[j := jb]" "dependants jb = dependants (jobs x ! j)" "ecfg x' = ecfg x"
    and k: "\<And>d. d \<noteq> j \<Longrightarrow> occ (jobs x') d + count_list debt' d = occ (jobs x) d + count_list debt d"
    and ex: "ex \<subseteq> insert j ex'" and debt: "set debt' \<subseteq> {..<length (jobs x)}"
    and ids: "\<And>d. d \<noteq> j \<Longrightarrow> count_list (wantable x') d = count_list (wantable x) d" "set (ready x) \<subseteq> set (ready x')" "idsIn x'"
    and cnt: "active x' = actives (jobs x')" "remaining x' = undones (jobs x')" "active x' \<le> threads (ecfg x)"
    and own: "j \<notin> ex' \<Longrightarrow> jobOk debt' x' j"
  shows "einv ex' debt' x'"
proof -
  have "jobOk debt' x' d" if d: "d < length (jobs x)" "d \<notin> ex'" for d
  proof (cases "d = j")
    case False
    then have "jobOk debt x d" using einvD(1) [OF inv d(1)] d(2) ex by blast
    moreover have "jobs x' ! d = jobs x ! d" using False js(1) by simp
    moreover have "d \<in> set (wantable x') \<longleftrightarrow> d \<in> set (wantable x)" using ids(1) [OF False] by (metis count_list_0_iff)
    ultimately show ?thesis using k [OF False] ids(1) [OF False] ids(2) by (auto simp: jobOk_def Let_def split: jstate.splits)
  qed (use own d in simp)
  moreover have "\<forall>jb' \<in> set (jobs x'). set (dependants jb') \<subseteq> {..<length (jobs x)}"
    using einvD(2) [OF inv] einvD(2) [OF inv nth_mem [OF j]] js(2)
    by (auto dest!: subsetD [OF set_update_subset_insert] simp: js(1))
  ultimately show ?thesis using js(1,3) debt ids cnt by (simp add: einv_def)
qed


lemma einv_frame:
  assumes "einv ex debt x" and "jobs x' = jobs x" "ecfg x' = ecfg x" "active x' = active x" "remaining x' = remaining x"
    and "wantable x' = wantable x" "set (ready x) \<subseteq> set (ready x')" "idsIn x'" "ex \<subseteq> ex'"
  shows "einv ex' debt x'"
proof -
  have "jobOk debt x' d" if "d < length (jobs x)" "d \<notin> ex'" for d
  proof -
    have "d \<notin> ex" using that(2) assms(9) by blast
    from einvD(1) [OF assms(1) that(1) this] assms(2,6,7) show ?thesis
      by (auto simp: jobOk_def Let_def split: jstate.splits)
  qed
  then show ?thesis using assms by (simp add: einv_def)
qed

text \<open>What an operation does not touch: how many jobs there are, the configuration, and every job that is done.\<close>

definition keeps :: "exec \<Rightarrow> exec \<Rightarrow> bool" where
  "keeps x x' \<longleftrightarrow> length (jobs x') = length (jobs x) \<and> ecfg x' = ecfg x
     \<and> (\<forall>j < length (jobs x). isDone (jst (jobs x ! j)) \<longrightarrow> jst (jobs x' ! j) = jst (jobs x ! j))"

lemma keeps_refl [simp]: "keeps x x"
  by (simp add: keeps_def)

lemma keeps_trans: "keeps x y \<Longrightarrow> keeps y z \<Longrightarrow> keeps x z"
  by (auto simp: keeps_def)

lemma keeps_update:
  "jobs x' = (jobs x)[j := jb] \<Longrightarrow> ecfg x' = ecfg x \<Longrightarrow> \<not> isDone (jst (jobs x ! j)) \<or> jst jb = jst (jobs x ! j) \<Longrightarrow> keeps x x'"
  by (cases "j < length (jobs x)") (auto simp: keeps_def nth_list_update)

section \<open>Updates as functions\<close>

definition toSt :: "job_id \<Rightarrow> jstate \<Rightarrow> exec \<Rightarrow> exec" where
  "toSt j st x = x\<lparr>active := actives ((jobs x)[j := (jobs x ! j)\<lparr>jst := st\<rparr>]), jobs := (jobs x)[j := (jobs x ! j)\<lparr>jst := st\<rparr>]\<rparr>"

lemma actives_update:
  assumes "j < length (jobs x)"
  shows "actives ((jobs x)[j := jb]) =
     (let a = (if isActive (jst (jobs x ! j)) then dec64 (actives (jobs x)) else actives (jobs x)) in
      if isActive (jst jb) then a + 1 else a)"
proof -
  have "0 < actives (jobs x)" if "isActive (jst (jobs x ! j))"
    unfolding actives_def using sumOf_pos [OF assms] that by simp
  then show ?thesis
    using sumOf_update [OF assms, of "\<lambda>jb. of_bool (isActive (jst jb))" jb]
    by (auto simp: actives_def dec64_def Let_def)
qed

lemma undones_update:
  assumes "j < length (jobs x)"
  shows "undones ((jobs x)[j := jb]) + of_bool (\<not> isDone (jst (jobs x ! j))) = undones (jobs x) + of_bool (\<not> isDone (jst jb))"
  unfolding undones_def by (rule sumOf_update [OF assms])

lemma undones_pos: "j < length js \<Longrightarrow> \<not> isDone (jst (js ! j)) \<Longrightarrow> 0 < undones js"
  unfolding undones_def by (rule sumOf_pos) simp_all

lemma occ_update:
  assumes "j < length js" "dependants jb = dependants (js ! j)" "isDone (jst jb) = isDone (jst (js ! j))"
  shows "occ (js[j := jb]) d = occ js d"
  using sumOf_update [OF assms(1), of "\<lambda>jb. if isDone (jst jb) then 0 else count_list (dependants jb) d" jb] assms(2,3)
  by (auto simp: occ_def)

lemma occ_done:
  assumes "j < length js" "dependants jb = dependants (js ! j)" "\<not> isDone (jst (js ! j))" "isDone (jst jb)"
  shows "occ js d = occ (js[j := jb]) d + count_list (dependants (js ! j)) d"
  using sumOf_update [OF assms(1), of "\<lambda>jb. if isDone (jst jb) then 0 else count_list (dependants jb) d" jb] assms(2-4)
  by (auto simp: occ_def)

lemma wp_toState:
  assumes "active x = actives (jobs x)" "j < length (jobs x)"
  shows "wp (toState j st) Q E x = Q () (toSt j st x)"
  using assms actives_update [OF assms(2), of "(jobs x ! j)\<lparr>jst := st\<rparr>"]
  by (simp add: toState_def wp_simps toSt_def Let_def)

text \<open>Moving a job between states that are not final, with something appended to the lists of ids.\<close>

lemma einv_toSt:
  assumes inv: "einv ex debt x" and j: "j < length (jobs x)" and nd: "\<not> isDone (jst (jobs x ! j))" "\<not> isDone st"
    and act: "isActive st \<Longrightarrow> isActive (jst (jobs x ! j)) \<or> active x < threads (ecfg x)"
    and x': "x' = (toSt j st x)\<lparr>wantable := wantable x @ w, ready := ready x @ r\<rparr>" "set w \<subseteq> {j}" "set r \<subseteq> {j}"
    and own: "j \<notin> ex' \<Longrightarrow> jobOk debt x' j" and ex: "ex \<subseteq> insert j ex'"
  shows "einv ex' debt x' \<and> keeps x x'"
proof -
  let ?jb = "(jobs x ! j)\<lparr>jst := st\<rparr>"
  have js: "jobs x' = (jobs x)[j := ?jb]" "ecfg x' = ecfg x" by (simp_all add: x' toSt_def)
  have le: "active x' \<le> threads (ecfg x)"
    using actives_update [OF j, of ?jb] act einvD(5,7) [OF inv] sumOf_pos [OF j, of "\<lambda>jb. of_bool (isActive (jst jb))"]
    by (auto simp: x' toSt_def Let_def dec64_def actives_def split: if_splits)
  have "idsIn x'" using einvD(4) [OF inv] x'(2,3) j by (auto simp: idsIn_def x'(1) toSt_def)
  moreover have "remaining x' = undones (jobs x')"
    using undones_update [OF j, of ?jb] nd einvD(6) [OF inv] by (simp add: x' toSt_def)
  moreover have "occ (jobs x') d = occ (jobs x) d" for d
    unfolding js(1) by (rule occ_update [OF j]) (use nd in simp_all)
  moreover have "active x' = actives (jobs x')" by (simp add: x'(1) toSt_def)
  ultimately have "einv ex' debt x'"
    using le einvD(3) [OF inv] own x'(2)
    by (intro einv_change [OF inv j js(1) _ js(2) _ ex]) (auto simp: x'(1) count_list_append count_list_0_iff)
  then show ?thesis using keeps_update [OF js] nd by blast
qed


section \<open>Releasing and settling\<close>

text \<open>A job whose last input is done becomes wantable, or is to be settled.\<close>

lemma unblock_ok:
  assumes inv: "einv ex debt x" and j: "j < length (jobs x)" and b: "jst (jobs x ! j) = Blocked n"
    and k: "j \<notin> ex' \<Longrightarrow> occ (jobs x) j + count_list debt j = 0" "j \<notin> ex' \<Longrightarrow> j \<notin> set (wantable x)" and ex: "ex \<subseteq> insert j ex'"
  shows "wp (unblock j) (\<lambda>r x'. einv (if r = None then ex' else ex) debt x' \<and> keeps x x') noThrow x"
proof -
  let ?x = "(toSt j Wantable x)\<lparr>wantable := wantable x @ [j], ready := ready x @ []\<rparr>"
  have "einv ex' debt ?x \<and> keeps x ?x" if f: "failedInput (jobs x ! j) = None"
  proof (rule einv_toSt [OF inv j _ _ _ refl])
    show "jobOk debt ?x j" if "j \<notin> ex'"
      using j k [OF that] f occ_update [OF j, of "(jobs x ! j)\<lparr>jst := Wantable\<rparr>" j] b
      by (simp add: jobOk_def toSt_def isDone_def Let_def)
  qed (use ex in \<open>auto simp: b isDone_def isActive_def\<close>)
  then show ?thesis
    using inv j by (simp add: unblock_def wp_simps wp_toState [OF einvD(5) [OF inv] j]) (simp add: toSt_def)
qed

lemma einv_skip:
  assumes "einv ex (dep # debt) x" "dep \<in> ex \<or> isDone (jst (jobs x ! dep))"
  shows "einv ex debt x"
proof -
  have "jobOk debt x d" if "d < length (jobs x)" "d \<notin> ex" for d
    using einvD(1) [OF assms(1) that] that assms(2)
    by (cases "d = dep") (auto simp: jobOk_def Let_def isDone_def split: jstate.splits)
  then show ?thesis using assms(1) by (simp add: einv_def)
qed

lemma einv_unex:
  assumes "einv (insert j ex) debt x" "jobOk debt x j"
  shows "einv ex debt x"
proof -
  have "jobOk debt x d" if "d < length (jobs x)" "d \<notin> ex" for d
    using einvD(1) [OF assms(1) that(1)] assms(2) that(2) by (cases "d = j") auto
  then show ?thesis using assms(1) by (simp add: einv_def)
qed

lemma jobOk_isDone: "isDone (jst (jobs x ! j)) \<Longrightarrow> jobOk debt x j"
  by (auto simp: jobOk_def Let_def isDone_def split: jstate.splits)

lemma einv_isDone: "einv (insert j ex) debt x \<Longrightarrow> isDone (jst (jobs x ! j)) \<Longrightarrow> einv ex debt x"
  by (erule einv_unex) (rule jobOk_isDone)

text \<open>One release that was owed.\<close>

lemma releaseDependant_ok:
  assumes inv: "einv ex (dep # debt) x"
  shows "wp (releaseDependant j f dep)
    (\<lambda>new x'. einv (ex \<union> fst ` set new) debt x' \<and> fst ` set new \<subseteq> {dep} \<and> keeps x x') noThrow x"
proof -
  have d: "dep < length (jobs x)" using einvD(3) [OF inv] by simp
  show ?thesis
  proof (cases "\<exists>n. jst (jobs x ! dep) = Blocked n")
    case True
    then obtain n where b: "jst (jobs x ! dep) = Blocked n" by blast
    define jb where "jb = (jobs x ! dep)\<lparr>jst := Blocked (dec64 n),
      failedInput := (if f \<and> failedInput (jobs x ! dep) = None then Some j else failedInput (jobs x ! dep))\<rparr>"
    define y where "y = x\<lparr>jobs := (jobs x)[dep := jb]\<rparr>"
    have jb: "jst jb = Blocked (dec64 n)" "dependants jb = dependants (jobs x ! dep)" by (simp_all add: jb_def)
    have n: "n = occ (jobs x) dep + count_list debt dep + 1" and nw: "dep \<notin> set (wantable x)" if "dep \<notin> ex"
      using einvD(1) [OF inv d that] b by (simp_all add: jobOk_def Let_def)
    have o: "occ (jobs y) c = occ (jobs x) c" for c
      using occ_update [OF d, of jb] jb b by (simp add: isDone_def y_def)
    have a: "actives (jobs y) = actives (jobs x)" "undones (jobs y) = undones (jobs x)"
      using actives_update [OF d, of jb] undones_update [OF d, of jb] b jb by (simp_all add: isActive_def isDone_def y_def)
    have kp: "keeps x y" by (rule keeps_update [where j = dep]) (simp_all add: b isDone_def y_def)
    have y: "einv (if dec64 n = 0 then insert dep ex else ex) debt y"
    proof (rule einv_change [OF inv d _ jb(2)])
      show "jobOk debt y dep" if "dep \<notin> (if dec64 n = 0 then insert dep ex else ex)"
        using that n nw d jb o by (auto simp: jobOk_def y_def dec64_def split: if_splits)
    qed (use einvD(3-7) [OF inv] o a in \<open>auto simp: y_def idsIn_def\<close>)
    have run: "wp (releaseDependant j f dep) Q E x
        = (if dec64 n = 0 then wp (unblock dep) (\<lambda>nxt. Q (case nxt of None \<Rightarrow> [] | Some dn \<Rightarrow> [(dep, dn)])) E y else Q [] y)" for Q E
      using d b by (simp add: releaseDependant_def wp_simps y_def jb_def)
    show ?thesis
    proof (cases "dec64 n = 0")
      case True
      have k: "occ (jobs y) dep + count_list debt dep = 0" if "dep \<notin> ex" using n [OF that] True o by (simp add: dec64_def)
      have "wp (unblock dep) (\<lambda>r x'. einv (if r = None then ex else insert dep ex) debt x' \<and> keeps y x') noThrow y"
        by (rule unblock_ok [where n = 0]) (use y True k nw d jb in \<open>auto simp: y_def\<close>)
      then show ?thesis unfolding run if_P [OF True]
      proof (rule wp_mono, goal_cases)
        case (1 r t)
        then show ?case by (cases r) (auto intro: keeps_trans [OF kp])
      qed simp
    next
      case False
      then show ?thesis unfolding run using y kp by simp
    qed
  next
    case False
    then have "dep \<in> ex \<or> isDone (jst (jobs x ! dep))"
      using einvD(1) [OF inv d] by (cases "dep \<in> ex") (simp_all add: jobOk_def Let_def isDone_def split: jstate.splits)
    from einv_skip [OF inv this] False d show ?thesis
      by (auto simp: releaseDependant_def wp_simps split: jstate.split)
  qed
qed

lemma releaseEach_ok:
  "einv (ex \<union> fst ` set wrk) debt x \<Longrightarrow> fst ` set wrk \<subseteq> {..<length (jobs x)} \<Longrightarrow>
   wp (releaseEach j f debt wrk)
    (\<lambda>wrk' x'. einv (ex \<union> fst ` set wrk') [] x' \<and> fst ` set wrk' \<subseteq> {..<length (jobs x)} \<and> set wrk \<subseteq> set wrk' \<and> keeps x x') noThrow x"
proof (induction debt arbitrary: wrk x)
  case (Cons dep debt)
  have d: "dep < length (jobs x)" using einvD(3) [OF Cons(2)] by simp
  show ?case unfolding releaseEach.simps wp_bnd
  proof (rule wp_mono [OF releaseDependant_ok [OF Cons(2)]], goal_cases)
    case (1 new y)
    then have l: "length (jobs y) = length (jobs x)" by (simp add: keeps_def)
    show ?case
      by (rule wp_mono [OF Cons(1) [of "wrk @ new" y]])
         (use 1 Cons(3) d l in \<open>auto simp: Un_assoc image_Un intro: keeps_trans\<close>)
  qed simp
qed (simp add: wp_simps)


text \<open>A job that becomes final: what it owes its dependants is the debt.\<close>

definition markDone :: "job_id \<Rightarrow> jdone \<Rightarrow> exec \<Rightarrow> exec" where
  "markDone j r x = x\<lparr>cancels := (if followed (jobs x ! j) then cancels x @ [j] else cancels x),
     active := actives ((jobs x)[j := (jobs x ! j)\<lparr>followed := False, jst := Done r\<rparr>]),
     jobs := (jobs x)[j := (jobs x ! j)\<lparr>followed := False, jst := Done r\<rparr>],
     remaining := dec64 (remaining x), progressed := progressed x + 1\<rparr>"

lemma markDone_ok:
  assumes inv: "einv ex [] x" and j: "j < length (jobs x)" and nd: "\<not> isDone (jst (jobs x ! j))"
  shows "einv (ex - {j}) (dependants (jobs x ! j)) (markDone j r x) \<and> keeps x (markDone j r x)"
proof -
  let ?jb = "(jobs x ! j)\<lparr>followed := False, jst := Done r\<rparr>"
  have js: "jobs (markDone j r x) = (jobs x)[j := ?jb]" by (simp add: markDone_def)
  have "actives ((jobs x)[j := ?jb]) \<le> actives (jobs x)"
    using actives_update [OF j, of ?jb] sumOf_pos [OF j, of "\<lambda>jb. of_bool (isActive (jst jb))"]
    by (auto simp: dec64_def isActive_def actives_def Let_def split: if_splits)
  then have a: "active (markDone j r x) \<le> threads (ecfg x)" using einvD(5,7) [OF inv] by (simp add: markDone_def)
  have u: "remaining (markDone j r x) = undones (jobs (markDone j r x))"
    using undones_update [OF j, of ?jb] undones_pos [OF j nd] nd einvD(6) [OF inv]
    by (simp add: markDone_def dec64_def isDone_def)
  have o: "occ ((jobs x)[j := ?jb]) d + count_list (dependants (jobs x ! j)) d = occ (jobs x) d" for d
    using occ_done [OF j, of ?jb] nd by (simp add: isDone_def)
  have "einv (ex - {j}) (dependants (jobs x ! j)) (markDone j r x)"
    by (rule einv_change [OF inv j js])
       (use einvD(4) [OF inv] einvD(2) [OF inv nth_mem [OF j]] j a u o in
         \<open>auto simp: markDone_def idsIn_def jobOk_def Let_def\<close>)
  moreover have "keeps x (markDone j r x)"
    by (rule keeps_update [OF js]) (simp_all add: markDone_def nd)
  ultimately show ?thesis by blast
qed

lemma settleOne_run:
  assumes "active x = actives (jobs x)" "j < length (jobs x)"
  shows "wp (settleOne j r wrk) Q E x =
    wp (releaseEach j (\<not> succeeded r) (dependants (jobs x ! j)) wrk)
      (\<lambda>wrk y. if \<not> succeeded r \<and> \<not> keepGoing (ecfg y) \<and> \<not> stopping y then wp (stopAll wrk) Q E y else Q wrk y) E (markDone j r x)"
proof -
  have "isActive (jst ((jobs x ! j)\<lparr>followed := False\<rparr>)) = isActive (jst (jobs x ! j))" by simp
  then have "actives ((jobs x)[j := (jobs x ! j)\<lparr>followed := False\<rparr>]) = actives (jobs x)"
    using sumOf_update [OF assms(2), of "\<lambda>jb. of_bool (isActive (jst jb))" "(jobs x ! j)\<lparr>followed := False\<rparr>"]
    by (simp add: actives_def)
  then show ?thesis
    using assms by (simp add: settleOne_def unfollow_def releaseDependants_def wp_simps wp_toState toSt_def markDone_def)
qed

definition workOk :: "exec \<Rightarrow> work \<Rightarrow> work \<Rightarrow> exec \<Rightarrow> bool" where
  "workOk x wrk wrk' x' \<longleftrightarrow> einv (fst ` set wrk') [] x' \<and> fst ` set wrk' \<subseteq> {..<length (jobs x)} \<and> set wrk \<subseteq> set wrk' \<and> keeps x x'"

lemma stopAll_ok:
  assumes "workOk x wrk wrk' y"
  shows "wp (stopAll wrk') (\<lambda>wrk''. workOk x wrk wrk'') noThrow y"
proof -
  have w: "einv (fst ` set wrk') [] y" "fst ` set wrk' \<subseteq> {..<length (jobs x)}" "set wrk \<subseteq> set wrk'" "keeps x y"
    and l: "length (jobs y) = length (jobs x)" using assms by (simp_all add: workOk_def keeps_def)
  have "idsIn (y\<lparr>stopping := True\<rparr>)" using einvD(4) [OF w(1)] by (simp add: idsIn_def)
  then have e: "einv (fst ` set (wrk' @ more)) [] (y\<lparr>stopping := True\<rparr>)" for more
    by (rule einv_frame [OF w(1), rotated 6]) auto
  have k: "keeps x (y\<lparr>stopping := True\<rparr>)" using w(4) by (simp add: keeps_def)
  show ?thesis unfolding stopAll_def wp_bnd wp_upd wp_gets wp_ret workOk_def
    by (intro conjI e k) (use w(2,3) l in auto)
qed

lemma settleOne_ok:
  assumes inv: "einv (insert j (fst ` set wrk)) [] x" and j: "j < length (jobs x)" "\<not> isDone (jst (jobs x ! j))"
    and w: "fst ` set wrk \<subseteq> {..<length (jobs x)}"
  shows "wp (settleOne j r wrk) (\<lambda>wrk' x'. workOk x wrk wrk' x' \<and> jst (jobs x' ! j) = Done r) noThrow x"
proof -
  let ?y = "markDone j r x"
  have y: "einv (insert j (fst ` set wrk) - {j}) (dependants (jobs x ! j)) ?y" "keeps x ?y"
    using markDone_ok [OF inv j] by blast+
  then have l: "length (jobs ?y) = length (jobs x)" by (simp add: keeps_def)
  have dn: "jst (jobs ?y ! j) = Done r" using j by (simp add: markDone_def)
  have e: "einv ({} \<union> fst ` set wrk) (dependants (jobs x ! j)) ?y" using y(1) by (auto simp: einv_def)
  have "wp (releaseEach j (\<not> succeeded r) (dependants (jobs x ! j)) wrk)
     (\<lambda>wrk' x'. workOk x wrk wrk' x' \<and> jst (jobs x' ! j) = Done r) noThrow ?y"
  proof (rule wp_mono [OF releaseEach_ok [OF e]], goal_cases)
    case (2 wrk' z)
    then have "jst (jobs z ! j) = Done r" using dn j l by (auto simp: keeps_def isDone_def)
    with 2 l show ?case using keeps_trans [OF y(2)] by (auto simp: workOk_def)
  qed (use w l in simp_all)
  then show ?thesis unfolding settleOne_run [OF einvD(5) [OF inv] j(1)]
  proof (rule wp_mono, goal_cases)
    case (1 wrk' z)
    have "wp (stopAll wrk') (\<lambda>_ x'. jst (jobs x' ! j) = Done r) noThrow z" using 1 by (simp add: stopAll_def wp_simps)
    from wp_conj [OF stopAll_ok this, of x wrk] 1
    have "wp (stopAll wrk') (\<lambda>w x'. workOk x wrk w x' \<and> jst (jobs x' ! j) = Done r) noThrow z"
      by (auto elim!: wp_mono)
    with 1 show ?case by simp
  qed simp
qed

lemma settleLoop_ok:
  "einv (fst ` set wrk) [] x \<Longrightarrow> fst ` set wrk \<subseteq> {..<length (jobs x)} \<Longrightarrow>
   wp (settleLoop wrk) (\<lambda>_ x'. einv {} [] x' \<and> keeps x x' \<and> (\<forall>j \<in> fst ` set wrk. isDone (jst (jobs x' ! j)))) noThrow x"
proof (induction wrk x rule: settleLoop.induct)
  case (1 wrk x)
  show ?case
  proof (cases "wrk = []")
    case True
    then show ?thesis using 1(3) by (simp add: wp_def settleLoop.simps)
  next
    case False
    obtain j r where jr: "last wrk = (j, r)" by fastforce
    have st: "fst ` set wrk = insert j (fst ` set (butlast wrk))"
      using arg_cong [OF append_butlast_last_id [OF False], of "\<lambda>xs. fst ` set xs"] jr by auto
    have j: "j < length (jobs x)" using 1(4) st by simp
    show ?thesis
    proof (cases "isDone (jst (jobs x ! j))")
      case True
      have "einv (fst ` set (butlast wrk)) [] x"
        using einv_isDone [OF _ True] 1(3) st by simp
      moreover have "settleLoop wrk x = settleLoop (butlast wrk) x"
        using False jr j True by (subst settleLoop.simps) simp
      moreover have "fst ` set (butlast wrk) \<subseteq> {..<length (jobs x)}" using 1(4) st by simp
      ultimately have "wp (settleLoop wrk) (\<lambda>_ x'. einv {} [] x' \<and> keeps x x' \<and> (\<forall>j \<in> fst ` set (butlast wrk). isDone (jst (jobs x' ! j)))) noThrow x"
        using 1(1) [OF False refl jr [symmetric] refl _ True] j by (simp add: wp_def)
      then show ?thesis using True j by (elim wp_mono) (auto simp: st keeps_def)
    next
      case nd: False
      have "einv (insert j (fst ` set (butlast wrk))) [] x" "fst ` set (butlast wrk) \<subseteq> {..<length (jobs x)}"
        using 1(3,4) st by simp_all
      from wp_noThrowD [OF settleOne_ok [OF this(1) j nd this(2), of r]] obtain wrk' y where
        run: "settleOne j r (butlast wrk) x = (Inr wrk', y)" and y: "einv (fst ` set wrk') [] y"
          "fst ` set wrk' \<subseteq> {..<length (jobs x)}" "set (butlast wrk) \<subseteq> set wrk'" "keeps x y" "jst (jobs y ! j) = Done r"
        unfolding workOk_def by blast
      have "settleLoop wrk x = settleLoop wrk' y"
        using False jr j nd run by (subst settleLoop.simps) simp
      moreover have "wp (settleLoop wrk') (\<lambda>_ x'. einv {} [] x' \<and> keeps y x' \<and> (\<forall>j \<in> fst ` set wrk'. isDone (jst (jobs x' ! j)))) noThrow y"
        using 1(2) [OF False refl jr [symmetric] refl _ nd run [symmetric] refl] y j by (simp add: keeps_def)
      then have "wp (settleLoop wrk') (\<lambda>_ x'. einv {} [] x' \<and> keeps x x' \<and> (\<forall>j \<in> fst ` set wrk. isDone (jst (jobs x' ! j)))) noThrow y"
      proof (rule wp_mono, goal_cases)
        case (1 _ z)
        then have "jst (jobs z ! j) = Done r" using y(4,5) j by (auto simp: keeps_def isDone_def)
        with 1 y(3) show ?case by (auto simp: st isDone_def intro: keeps_trans [OF y(4)])
      qed simp
      ultimately show ?thesis by (simp add: wp_def)
    qed
  qed
qed


abbreviation good :: "exec \<Rightarrow> exec \<Rightarrow> bool" where
  "good x x' \<equiv> einv {} [] x' \<and> keeps x x'"

lemma einv_mono: "einv ex debt x \<Longrightarrow> ex \<subseteq> ex' \<Longrightarrow> einv ex' debt x"
  by (auto simp: einv_def)

lemma settle_ok:
  assumes "einv {j} [] x" "j < length (jobs x)"
  shows "wp (settle j dn) (\<lambda>_ x'. good x x' \<and> isDone (jst (jobs x' ! j))) noThrow x"
  using settleLoop_ok [of "[(j, dn)]" x] assms unfolding settle_def by (auto elim!: wp_mono)

lemma release_ok:
  assumes "einv {j} [] x" "j < length (jobs x)" "jst (jobs x ! j) = Blocked 0" "occ (jobs x) j = 0" "j \<notin> set (wantable x)"
  shows "wp (release j) (\<lambda>_ x'. good x x') noThrow x"
  unfolding release_def wp_bnd
proof (rule wp_mono [OF unblock_ok [OF assms(1-3), of "{}"]], goal_cases)
  case (4 r y)
  show ?case
  proof (cases r)
    case None
    then show ?thesis using 4 by (simp add: wp_simps)
  next
    case (Some dn)
    then have "einv {j} [] y" "j < length (jobs y)" using 4 assms(2) by (auto simp: keeps_def)
    from settle_ok [OF this, of dn] 4 show ?thesis
      by (auto simp: Some elim!: wp_mono intro: keeps_trans)
  qed
qed (use assms(4,5) in auto)

text \<open>A job gets one more input to wait for.\<close>

lemma occ_addDep:
  assumes "i < length js"
  shows "occ (js[i := (js ! i)\<lparr>dependants := dependants (js ! i) @ [j]\<rparr>]) d
    = occ js d + (if d = j \<and> \<not> isDone (jst (js ! i)) then 1 else 0)"
  using sumOf_update [OF assms, of "\<lambda>jb. if isDone (jst jb) then 0 else count_list (dependants jb) d"
      "(js ! i)\<lparr>dependants := dependants (js ! i) @ [j]\<rparr>"]
  by (cases "isDone (jst (js ! i))"; cases "d = j") (auto simp: occ_def count_list_append)

lemma einv_addDep:
  assumes inv: "einv ex [] x" and j: "j \<in> ex" "j < length (jobs x)" and i: "i < length (jobs x)"
  shows "einv ex [] (x\<lparr>jobs := (jobs x)[i := (jobs x ! i)\<lparr>dependants := dependants (jobs x ! i) @ [j]\<rparr>]\<rparr>)" (is "einv ex [] ?x")
proof -
  let ?jb = "(jobs x ! i)\<lparr>dependants := dependants (jobs x ! i) @ [j]\<rparr>"
  have o: "occ (jobs ?x) d = occ (jobs x) d" if "d \<noteq> j" for d using occ_addDep [OF i, of j d] that by simp
  have st: "jst (jobs ?x ! d) = jst (jobs x ! d)" "failedInput (jobs ?x ! d) = failedInput (jobs x ! d)" for d
    using i by (cases "d = i"; simp)+
  have "jobOk [] ?x d" if d: "d < length (jobs x)" "d \<notin> ex" for d
  proof -
    have "d \<noteq> j" using d(2) j(1) by blast
    from einvD(1) [OF inv d] o [OF this] st [of d] show ?thesis
      by (auto simp: jobOk_def Let_def split: jstate.splits)
  qed
  moreover have "\<forall>jb' \<in> set (jobs ?x). set (dependants jb') \<subseteq> {..<length (jobs x)}"
    using einvD(2) [OF inv] einvD(2) [OF inv nth_mem [OF i]] j(2)
    by (auto dest!: subsetD [OF set_update_subset_insert])
  moreover have "actives (jobs ?x) = actives (jobs x)" "undones (jobs ?x) = undones (jobs x)"
    using sumOf_update [OF i, of "\<lambda>jb. of_bool (isActive (jst jb))" ?jb] sumOf_update [OF i, of "\<lambda>jb. of_bool (\<not> isDone (jst jb))" ?jb]
    by (simp_all add: actives_def undones_def)
  ultimately show ?thesis using einvD(4-7) [OF inv] by (simp add: einv_def idsIn_def)
qed

text \<open>A change of a job that leaves it in a state of the same class.\<close>

lemma einv_put:
  assumes inv: "einv ex [] x" and j: "j < length (jobs x)"
    and jb: "dependants jb = dependants (jobs x ! j)" "isDone (jst jb) = isDone (jst (jobs x ! j))"
      "isActive (jst jb) = isActive (jst (jobs x ! j))" "isDone (jst jb) \<Longrightarrow> jst jb = jst (jobs x ! j)"
    and own: "j \<notin> ex \<Longrightarrow> jobOk [] (x\<lparr>jobs := (jobs x)[j := jb]\<rparr>) j"
  shows "einv ex [] (x\<lparr>jobs := (jobs x)[j := jb]\<rparr>) \<and> keeps x (x\<lparr>jobs := (jobs x)[j := jb]\<rparr>)"
proof -
  have "actives ((jobs x)[j := jb]) = actives (jobs x)" "undones ((jobs x)[j := jb]) = undones (jobs x)"
    using sumOf_update [OF j, of "\<lambda>jb. of_bool (isActive (jst jb))" jb] sumOf_update [OF j, of "\<lambda>jb. of_bool (\<not> isDone (jst jb))" jb] jb
    by (simp_all add: actives_def undones_def)
  then have "einv ex [] (x\<lparr>jobs := (jobs x)[j := jb]\<rparr>)"
    using einvD(4-7) [OF inv] own occ_update [OF j jb(1,2)]
    by (intro einv_change [OF inv j, where jb = jb]) (auto simp: idsIn_def jb(1))
  moreover have "keeps x (x\<lparr>jobs := (jobs x)[j := jb]\<rparr>)"
    by (rule keeps_update [where j = j and jb = jb]) (use jb in auto)
  ultimately show ?thesis by blast
qed

lemma einv_same:
  assumes inv: "einv ex [] x" and j: "j < length (jobs x)"
    and jb: "dependants jb = dependants (jobs x ! j)" "jst jb = jst (jobs x ! j)" "failedInput jb = failedInput (jobs x ! j)"
  shows "einv ex [] (x\<lparr>jobs := (jobs x)[j := jb]\<rparr>) \<and> keeps x (x\<lparr>jobs := (jobs x)[j := jb]\<rparr>)"
proof (rule einv_put [OF inv j])
  assume "j \<notin> ex"
  from einvD(1) [OF inv j this] show "jobOk [] (x\<lparr>jobs := (jobs x)[j := jb]\<rparr>) j"
    using j jb occ_update [OF j, of jb] by (simp add: jobOk_def Let_def cong: jstate.case_cong)
qed (use jb in simp_all)

section \<open>Adding jobs and inputs\<close>

lemma unfollow_ok:
  assumes inv: "einv ex [] x" and j: "j < length (jobs x)"
  shows "wp (unfollow j) (\<lambda>_ y. einv ex [] y \<and> keeps x y
    \<and> (\<forall>d. occ (jobs y) d = occ (jobs x) d) \<and> jst (jobs y ! j) = jst (jobs x ! j) \<and> wantable y = wantable x) noThrow x"
proof -
  let ?jb = "(jobs x ! j)\<lparr>followed := False\<rparr>"
  let ?y = "x\<lparr>jobs := (jobs x)[j := ?jb]\<rparr>"
  have y: "einv ex [] ?y" "keeps x ?y" using einv_same [OF inv j, of ?jb] by simp_all
  have "idsIn (?y\<lparr>cancels := cancels x @ [j]\<rparr>)" using einvD(4) [OF y(1)] j by (simp add: idsIn_def)
  then have "einv ex [] (?y\<lparr>cancels := cancels x @ [j]\<rparr>)" by (rule einv_frame [OF y(1), rotated 6]) simp_all
  moreover have "keeps x (?y\<lparr>cancels := cancels x @ [j]\<rparr>)" using y(2) by (simp add: keeps_def)
  moreover have "occ (jobs ?y) d = occ (jobs x) d" for d using occ_update [OF j, of ?jb] by simp
  ultimately show ?thesis using y j by (simp add: unfollow_def wp_simps)
qed

definition adding :: "exec \<Rightarrow> job_id \<Rightarrow> nat \<Rightarrow> exec \<Rightarrow> bool" where
  "adding x j n y \<longleftrightarrow> einv {j} [] y \<and> keeps x y \<and> jst (jobs y ! j) = Blocked 0 \<and> occ (jobs y) j = n \<and> j \<notin> set (wantable y)"

lemma addInput_ok:
  assumes a: "adding x j n y" and j: "j < length (jobs x)" and i: "i < length (jobs x)"
  shows "wp (addInput j i) (\<lambda>k z. adding x j (n + k) z) noThrow y"
proof -
  have y: "einv {j} [] y" "keeps x y" "jst (jobs y ! j) = Blocked 0" "occ (jobs y) j = n" "length (jobs y) = length (jobs x)"
    "j \<notin> set (wantable y)" using a by (simp_all add: adding_def keeps_def)
  have ji: "j < length (jobs y)" "i < length (jobs y)" using j i y(5) by simp_all
  let ?f = "(jobs y ! j)\<lparr>failedInput := Some i\<rparr>"
  have f: "adding x j n (y\<lparr>jobs := (jobs y)[j := ?f]\<rparr>)"
    using einv_put [OF y(1) ji(1), of ?f] occ_update [OF ji(1), of ?f] ji(1) keeps_trans [OF y(2)] y(3,4,6)
    by (auto simp: adding_def)
  let ?d = "(jobs y ! i)\<lparr>dependants := dependants (jobs y ! i) @ [j]\<rparr>"
  have d: "adding x j (n + 1) (y\<lparr>jobs := (jobs y)[i := ?d]\<rparr>)" if nd: "\<not> isDone (jst (jobs y ! i))"
  proof -
    have "keeps y (y\<lparr>jobs := (jobs y)[i := ?d]\<rparr>)" by (rule keeps_update [where j = i and jb = ?d]) simp_all
    then have "keeps x (y\<lparr>jobs := (jobs y)[i := ?d]\<rparr>)" by (rule keeps_trans [OF y(2)])
    then show ?thesis
      using einv_addDep [OF y(1) _ ji] occ_addDep [OF ji(2), of j j] nd y(3,4,6) ji by (cases "i = j") (simp_all add: adding_def)
  qed
  show ?thesis
  proof (cases "jst (jobs y ! i)")
    case (Done dn)
    then show ?thesis using f a ji by (simp add: addInput_def wp_simps)
  qed (use d ji in \<open>simp_all add: addInput_def wp_simps isDone_def\<close>)
qed

lemma addInputs_ok:
  assumes "adding x j n y" "j < length (jobs x)" "set ins \<subseteq> {..<length (jobs x)}"
  shows "wp (addInputs j ins n) (\<lambda>k z. adding x j k z) noThrow y"
  using assms
proof (induction ins arbitrary: n y)
  case (Cons i ins)
  have "wp (addInput j i) (\<lambda>k z. adding x j (n + k) z) noThrow y"
    using addInput_ok [OF Cons.prems(1,2)] Cons.prems(3) by simp
  then show ?case
    unfolding addInputs.simps wp_bnd
    by (rule wp_mono) (use Cons.IH Cons.prems(2,3) in auto)
qed (simp add: wp_simps)

lemma einv_append:
  assumes inv: "einv {} [] x" and jb: "dependants jb = []" "jst jb = Blocked 0"
  shows "einv {length (jobs x)} [] (x\<lparr>jobs := jobs x @ [jb], remaining := remaining x + 1\<rparr>)"
    and "occ (jobs x @ [jb]) (length (jobs x)) = 0"
proof -
  have "occ (jobs x @ [jb]) d = occ (jobs x) d" for d by (simp add: occ_def jb)
  then have "jobOk [] (x\<lparr>jobs := jobs x @ [jb], remaining := remaining x + 1\<rparr>) d" if "d < length (jobs x)" for d
    using einvD(1) [OF inv that] that by (auto simp: jobOk_def Let_def nth_append split: jstate.splits)
  then show "einv {length (jobs x)} [] (x\<lparr>jobs := jobs x @ [jb], remaining := remaining x + 1\<rparr>)"
    using einvD(2,4-7) [OF inv] jb
    by (fastforce simp: einv_def idsIn_def actives_def undones_def isActive_def isDone_def less_Suc_eq)
  have "count_list (dependants k) (length (jobs x)) = 0" if "k \<in> set (jobs x)" for k
    using einvD(2) [OF inv that] by (auto simp: count_list_0_iff)
  then show "occ (jobs x @ [jb]) (length (jobs x)) = 0"
    by (auto simp: occ_def sumOf_def jb)
qed

text \<open>What \<open>addJob\<close> does not touch.\<close>

definition grows :: "exec \<Rightarrow> exec \<Rightarrow> bool" where
  "grows x x' \<longleftrightarrow> length (jobs x) \<le> length (jobs x') \<and> ecfg x' = ecfg x
     \<and> (\<forall>j < length (jobs x). isDone (jst (jobs x ! j)) \<longrightarrow> jst (jobs x' ! j) = jst (jobs x ! j))"

lemma keeps_grows: "keeps x x' \<Longrightarrow> grows x x'"
  by (simp add: keeps_def grows_def)

text \<open>The state of a blocked job gets its counter.\<close>

lemma adding_done:
  assumes a: "adding x j n y" and j: "j < length (jobs x)"
  shows "wp (bnd (jobAt j) (\<lambda>jb. bnd (putJob j (jb\<lparr>jst := Blocked n\<rparr>)) (\<lambda>_.
     if n = 0 then release j else ret ()))) (\<lambda>_. good x) noThrow y"
proof -
  have y: "einv {j} [] y" "keeps x y" "jst (jobs y ! j) = Blocked 0" "occ (jobs y) j = n" "length (jobs y) = length (jobs x)"
    "j \<notin> set (wantable y)" using a by (simp_all add: adding_def keeps_def)
  have jy: "j < length (jobs y)" using j y(5) by simp
  let ?jb = "(jobs y ! j)\<lparr>jst := Blocked n\<rparr>"
  let ?z = "y\<lparr>jobs := (jobs y)[j := ?jb]\<rparr>"
  have z: "einv {j} [] ?z" "keeps y ?z"
    using einv_put [OF y(1) jy, of ?jb] y(3) by (simp_all add: isDone_def isActive_def)
  have o: "occ (jobs ?z) j = n" using occ_update [OF jy, of ?jb] y(3,4) by (simp add: isDone_def)
  show ?thesis
  proof (cases "n = 0")
    case True
    have "wp (release j) (\<lambda>_. good ?z) noThrow ?z"
      using release_ok [OF z(1)] jy o y(6) True by simp
    then have "wp (release j) (\<lambda>_. good x) noThrow ?z"
      by (rule wp_mono) (use keeps_trans [OF keeps_trans [OF y(2) z(2)]] in auto)
    then show ?thesis using jy True by (simp add: wp_simps)
  next
    case False
    have "einv {} [] ?z"
      by (rule einv_unex [of j]) (use z(1) o jy y(6) False in \<open>simp_all add: jobOk_def\<close>)
    then show ?thesis using jy False keeps_trans [OF y(2) z(2)] by (simp add: wp_simps)
  qed
qed

lemma addJob_ok:
  assumes inv: "einv {} [] x" and n: "length (jobs x) < 2 ^ 32" and ins: "set ins \<subseteq> {..<length (jobs x)}"
  shows "wp (addJob pr ins) (\<lambda>j x'. einv {} [] x' \<and> grows x x' \<and> j = length (jobs x) \<and> length (jobs x') = Suc j) noThrow x"
proof -
  let ?j = "length (jobs x)" and ?jb = "\<lparr>jst = Blocked 0, prio = pr, dependants = [], failedInput = None, jbounced = 0, followed = False\<rparr>"
  let ?y = "x\<lparr>jobs := jobs x @ [?jb], remaining := remaining x + 1\<rparr>"
  have "adding ?y ?j 0 ?y" using einv_append [OF inv, of ?jb] einvD(4) [OF inv] by (auto simp: adding_def idsIn_def)
  then have "wp (addInputs ?j ins 0) (\<lambda>n z. adding ?y ?j n z) noThrow ?y"
    using ins by (intro addInputs_ok) auto
  then have "wp (bnd (addInputs ?j ins 0) (\<lambda>n. bnd (jobAt ?j) (\<lambda>jb. bnd (putJob ?j (jb\<lparr>jst := Blocked n\<rparr>)) (\<lambda>_.
     if n = 0 then release ?j else ret ())))) (\<lambda>_. good ?y) noThrow ?y"
    unfolding wp_bnd [of "addInputs _ _ _"] by (rule wp_mono) (simp_all add: adding_done)
  then have "wp (bnd (addInputs ?j ins 0) (\<lambda>n. bnd (jobAt ?j) (\<lambda>jb. bnd (putJob ?j (jb\<lparr>jst := Blocked n\<rparr>)) (\<lambda>_.
     if n = 0 then release ?j else ret ())))) (\<lambda>_ x'. einv {} [] x' \<and> grows x x' \<and> length (jobs x') = Suc ?j) noThrow ?y"
    by (rule wp_mono) (auto simp: keeps_def grows_def nth_append)
  moreover have "length (jobs x) mod 2 ^ 32 = ?j" using n by simp
  ultimately show ?thesis unfolding addJob_def wp_bnd wp_gets wp_upd wp_ret by (simp only: simp_thms)
qed

lemma jobOk_clear:
  assumes "einv {} [] x" "j < length (jobs x)" "\<not> isDone (jst (jobs x ! j))" "\<And>n. jst (jobs x ! j) \<noteq> Blocked n"
  shows "occ (jobs x) j = 0" and "failedInput (jobs x ! j) = None"
    and "jst (jobs x ! j) \<noteq> Wantable \<Longrightarrow> j \<notin> set (wantable x)"
  using einvD(1) [OF assms(1,2)] assms(3,4) by (auto simp: jobOk_def Let_def isDone_def split: jstate.splits)

text \<open>A job goes back to be released.\<close>

lemma reblock_ok:
  assumes inv: "einv {j} [] x" and j: "j < length (jobs x)" and nd: "\<not> isDone (jst (jobs x ! j))" and o: "occ (jobs x) j = 0" "j \<notin> set (wantable x)"
  shows "wp (bnd (toState j (Blocked 0)) (\<lambda>_. release j)) (\<lambda>_. good x) noThrow x"
proof -
  let ?y = "toSt j (Blocked 0) x"
  have "einv {j} [] ?y \<and> keeps x ?y"
    by (rule einv_toSt [OF inv j nd, where w = "[]" and r = "[]"]) (simp_all add: isDone_def isActive_def toSt_def)
  moreover have "occ (jobs ?y) j = 0" "jst (jobs ?y ! j) = Blocked 0" "j < length (jobs ?y)" "j \<notin> set (wantable ?y)"
    using occ_update [OF j, of "(jobs x ! j)\<lparr>jst := Blocked 0\<rparr>" j] nd o j by (simp_all add: toSt_def isDone_def)
  ultimately have "wp (release j) (\<lambda>_. good x) noThrow ?y"
    using keeps_trans by (intro wp_mono [OF release_ok [of j ?y]]) auto
  then show ?thesis by (simp add: wp_bnd wp_toState [OF einvD(5) [OF inv] j])
qed

lemma blockOn_ok:
  assumes inv: "einv {} [] x" and j: "j < length (jobs x)" and i: "i < length (jobs x)"
  shows "wp (blockOn j i) (\<lambda>_. good x) noThrow x"
proof (cases "isRunning (jst (jobs x ! j))")
  case run: True
  then have nd: "\<not> isDone (jst (jobs x ! j))" and nb: "\<And>n. jst (jobs x ! j) \<noteq> Blocked n" "jst (jobs x ! j) \<noteq> Wantable"
    by (auto simp: isRunning_def isDone_def split: jstate.splits)
  have o: "occ (jobs x) j = 0" "j \<notin> set (wantable x)" using jobOk_clear [OF inv j nd nb(1)] nb(2) by simp_all
  have inv': "einv {j} [] x" using einv_mono [OF inv] by simp
  let ?f = "(jobs x ! j)\<lparr>failedInput := Some i\<rparr>"
  let ?x = "x\<lparr>jobs := (jobs x)[j := ?f]\<rparr>"
  have x: "einv {j} [] ?x" "keeps x ?x" using einv_put [OF inv' j, of ?f] by simp_all
  have "wp (bnd (toState j (Blocked 0)) (\<lambda>_. release j)) (\<lambda>_. good ?x) noThrow ?x"
    by (rule reblock_ok [OF x(1)]) (use j nd o occ_update [OF j, of ?f j] in simp_all)
  then have f: "wp (bnd (toState j (Blocked 0)) (\<lambda>_. release j)) (\<lambda>_. good x) noThrow ?x"
    by (rule wp_mono) (use keeps_trans [OF x(2)] in auto)
  let ?d = "(jobs x ! i)\<lparr>dependants := dependants (jobs x ! i) @ [j]\<rparr>"
  let ?y = "x\<lparr>jobs := (jobs x)[i := ?d]\<rparr>"
  have y: "einv {j} [] ?y" "j < length (jobs ?y)" using einv_addDep [OF inv' _ j i] j by simp_all
  have ky: "keeps x ?y" by (rule keeps_update [where j = i and jb = ?d]) simp_all
  have sy: "jst (jobs ?y ! j) = jst (jobs x ! j)" using j by (cases "i = j") simp_all
  have d: "wp (bnd (unfollow j) (\<lambda>_. toState j (Blocked 1))) (\<lambda>_. good x) noThrow ?y" if "\<not> isDone (jst (jobs x ! i))"
    unfolding wp_bnd
  proof (rule wp_mono [OF unfollow_ok [OF y]], goal_cases)
    case (1 _ z)
    then have z: "einv {j} [] z" "keeps ?y z" "jst (jobs z ! j) = jst (jobs x ! j)" "occ (jobs z) j = 1" "j \<notin> set (wantable z)"
      using sy occ_addDep [OF i, of j j] o that by simp_all
    have jz: "j < length (jobs z)" using z(2) j by (simp add: keeps_def)
    have "einv {} [] (toSt j (Blocked 1) z) \<and> keeps z (toSt j (Blocked 1) z)"
    proof (rule einv_toSt [OF z(1) jz, where w = "[]" and r = "[]"])
      show "jobOk [] (toSt j (Blocked 1) z) j"
        using occ_update [OF jz, of "(jobs z ! j)\<lparr>jst := Blocked 1\<rparr>" j] z(3,4,5) nd jz
        by (simp add: jobOk_def toSt_def isDone_def)
    qed (use z(3) nd in \<open>simp_all add: isDone_def isActive_def toSt_def\<close>)
    then show ?case
      using keeps_trans [OF keeps_trans [OF ky z(2)]] by (simp add: wp_toState [OF einvD(5) [OF z(1)] jz])
  qed simp
  show ?thesis
  proof (cases "jst (jobs x ! i)")
    case (Done dn)
    have "wp (if succeeded dn then ret () else putJob j ?f) (\<lambda>_. wp (bnd (toState j (Blocked 0)) (\<lambda>_. release j)) (\<lambda>_. good x) noThrow) noThrow x"
      using f reblock_ok [OF inv' j nd o] by (simp add: wp_ret wp_putJob)
    then show ?thesis using j i run Done by (simp add: blockOn_def wp_bnd wp_jobAt)
  qed (use d j i run in \<open>simp_all add: blockOn_def wp_bnd wp_jobAt wp_putJob isDone_def\<close>)
qed (use inv j in \<open>simp add: blockOn_def wp_simps\<close>)

section \<open>The scheduler's stream\<close>

text \<open>A job moves to a state of the same rank: wanted, placed or wantable again.\<close>

lemma move_ok:
  assumes inv: "einv {} [] x" and j: "j < length (jobs x)"
    and a: "isActive (jst (jobs x ! j))" and st: "isActive st \<or> st = Wantable"
    and w: "w = (if st = Wantable then [j] else [])" and r: "\<And>pl. st = Assigned pl \<Longrightarrow> r = [j]" "set r \<subseteq> {j}"
    and x': "x' = (toSt j st x)\<lparr>wantable := wantable x @ w, ready := ready x @ r\<rparr>"
  shows "good x x'"
proof -
  have nd: "\<not> isDone (jst (jobs x ! j))" "\<not> isDone st" "\<And>n. jst (jobs x ! j) \<noteq> Blocked n" "\<And>n. st \<noteq> Blocked n" "jst (jobs x ! j) \<noteq> Wantable"
    using a st by (auto simp: isActive_def isDone_def split: jstate.splits)
  note c = jobOk_clear [OF inv j nd(1,3)]
  have "occ (jobs x') j = 0" "failedInput (jobs x' ! j) = None" "jst (jobs x' ! j) = st"
    using occ_update [OF j, of "(jobs x ! j)\<lparr>jst := st\<rparr>" j] nd c j by (simp_all add: x' toSt_def)
  then have "jobOk [] x' j" using w r nd(2,4) c(3) [OF nd(5)] by (auto simp: jobOk_def Let_def x' isDone_def split: jstate.splits)
  moreover have "set w \<subseteq> {j}" by (auto simp: w)
  ultimately show ?thesis using einv_toSt [OF inv j nd(1,2) _ x' _ r(2)] a by blast
qed

lemma rewant_ok:
  assumes inv: "einv {} [] x" and j: "j < length (jobs x)" and a: "isActive (jst (jobs x ! j))"
  shows "wp (bnd (toState j Wantable) (\<lambda>_. upd (\<lambda>x. x\<lparr>wantable := wantable x @ [j]\<rparr>))) (\<lambda>_. good x) noThrow x"
  using move_ok [OF inv j a, of Wantable "[j]" "[]"]
  by (simp add: wp_bnd wp_upd wp_toState [OF einvD(5) [OF inv] j]) (simp add: toSt_def)

lemma good_trans: "good x y \<Longrightarrow> good y z \<Longrightarrow> good x z"
  using keeps_trans by blast

lemma good_frame:
  assumes "einv {} [] x" and "jobs x' = jobs x" "ecfg x' = ecfg x" "active x' = active x" "remaining x' = remaining x"
    "wantable x' = wantable x" "ready x' = ready x" "set (rewant x') \<union> set (cancels x') \<subseteq> {..<length (jobs x)}"
  shows "good x x'"
  using einv_frame [OF assms(1), of x' "{}"] einvD(4) [OF assms(1)] assms(2-8) by (simp add: idsIn_def keeps_def)

lemma idsInD:
  assumes "einv ex debt x"
  shows "set (wantable x) \<subseteq> {..<length (jobs x)}" "set (ready x) \<subseteq> {..<length (jobs x)}"
    "set (rewant x) \<subseteq> {..<length (jobs x)}" "set (cancels x) \<subseteq> {..<length (jobs x)}"
  using einvD(4) [OF assms] by (simp_all add: idsIn_def)

text \<open>A loop whose body keeps the invariant for every job.\<close>

lemma forEach_good:
  assumes "einv {} [] x" and "set ids \<subseteq> {..<length (jobs x)}"
    and "\<And>y j. einv {} [] y \<Longrightarrow> j < length (jobs y) \<Longrightarrow> wp (body j) (\<lambda>_. good y) noThrow y"
  shows "wp (forEach ids body) (\<lambda>_. good x) noThrow x"
proof (rule wp_forEach)
  fix j y assume "j \<in> set ids" "good x y"
  then show "wp (body j) (\<lambda>_. good x) noThrow y"
    using assms(2) by (intro wp_mono [OF assms(3)]) (auto simp: keeps_def intro: keeps_trans)
qed (use assms(1) in simp)

lemma connectJob_ok:
  assumes inv: "einv {} [] x" and j: "j < length (jobs x)"
  shows "wp (connectJob j) (\<lambda>_. good x) noThrow x"
proof (cases "jst (jobs x ! j)")
  case (Wanted s r)
  then show ?thesis using rewant_ok [OF inv j] j by (simp add: connectJob_def wp_bnd wp_jobAt isActive_def)
next
  case (Assigned pl)
  then show ?thesis using good_frame [OF inv] idsInD [OF inv] j by (simp add: connectJob_def wp_simps)
next
  case (Running pl pl')
  then show ?thesis using good_frame [OF inv] idsInD [OF inv] j by (simp add: connectJob_def wp_simps)
qed (use inv j in \<open>simp_all add: connectJob_def wp_simps\<close>)

lemma connected_ok:
  assumes inv: "einv {} [] x"
  shows "wp connected (\<lambda>_. good x) noThrow x"
proof -
  have g: "good x (x\<lparr>stream := True\<rparr>)" using good_frame [OF inv] idsInD [OF inv] by simp
  have "wp (forEach [0..<length (jobs x)] connectJob) (\<lambda>_. good (x\<lparr>stream := True\<rparr>)) noThrow (x\<lparr>stream := True\<rparr>)"
    by (rule forEach_good) (use g connectJob_ok in auto)
  then have "wp (forEach [0..<length (jobs x)] connectJob) (\<lambda>_. good x) noThrow (x\<lparr>stream := True\<rparr>)"
    by (rule wp_mono) (use good_trans [OF g] in auto)
  then show ?thesis by (simp add: connected_def wp_simps)
qed

lemma disconnected_ok:
  assumes inv: "einv {} [] x"
  shows "wp disconnected (\<lambda>_. good x) noThrow x"
proof -
  let ?x = "x\<lparr>stream := False, jobs := map (\<lambda>jb. jb\<lparr>followed := False\<rparr>) (jobs x)\<rparr>"
  have c: "occ (jobs ?x) d = occ (jobs x) d" "actives (jobs ?x) = actives (jobs x)" "undones (jobs ?x) = undones (jobs x)" for d
    by (simp_all add: occ_def actives_def undones_def sumOf_def comp_def cong: if_cong)
  have "jobOk [] ?x d" if "d < length (jobs x)" for d
    using einvD(1) [OF inv that] that c(1) [of d] by (auto simp: jobOk_def Let_def split: jstate.splits)
  then have "einv {} [] ?x" using einvD(2-7) [OF inv] c(2,3) by (auto simp: einv_def idsIn_def)
  then show ?thesis by (simp add: disconnected_def wp_simps keeps_def)
qed

lemma unsent_ok:
  assumes inv: "einv {} [] x" and ids: "set ids \<subseteq> {..<length (jobs x)}"
  shows "wp (unsent ids) (\<lambda>_. good x) noThrow x"
  unfolding unsent_def
proof (rule forEach_good [OF inv ids], goal_cases)
  case (1 y j)
  let ?y = "y\<lparr>jobs := (jobs y)[j := (jobs y ! j)\<lparr>followed := False\<rparr>]\<rparr>"
  have g: "good y ?y" using einv_same [OF 1, of "(jobs y ! j)\<lparr>followed := False\<rparr>"] by simp
  have "wp (bnd (toState j Wantable) (\<lambda>_. upd (\<lambda>x. x\<lparr>wantable := wantable x @ [j]\<rparr>))) (\<lambda>_. good y) noThrow ?y"
    if "isActive (jst (jobs y ! j))"
    by (rule wp_mono [OF rewant_ok [of ?y]]) (use g 1 that good_trans [OF g] in auto)
  then show ?case using g 1 by (simp add: wp_bnd wp_jobAt wp_putJob wp_ret isActive_def split: jstate.split)
qed

lemma takeCancels_ok:
  assumes "einv {} [] x"
  shows "wp takeCancels (\<lambda>r x'. good x x' \<and> r = cancels x \<and> cancels x' = []) noThrow x"
  using good_frame [OF assms, of "x\<lparr>cancels := []\<rparr>"] idsInD [OF assms] by (simp add: takeCancels_def wp_simps)

lemma onAssigned_ok:
  assumes inv: "einv {} [] x" and j: "j < length (jobs x)"
  shows "wp (onAssigned j pl) (\<lambda>_. good x) noThrow x"
proof (cases "jst (jobs x ! j)")
  case (Wanted s r)
  let ?x = "x\<lparr>progressed := progressed x + 1\<rparr>"
  have g: "good x ?x" using good_frame [OF inv] idsInD [OF inv] by simp
  have "good ?x ((toSt j (Assigned pl) ?x)\<lparr>wantable := wantable ?x @ [], ready := ready ?x @ [j]\<rparr>)"
    by (rule move_ok [OF _ _ _ _ _ _ _ refl]) (use g j Wanted in \<open>auto simp: isActive_def\<close>)
  from good_trans [OF g this] show ?thesis
    using Wanted j g inv by (simp add: onAssigned_def wp_simps wp_toState einvD(5) [of "{}" "[]"]) (simp add: toSt_def)
next
  case (Assigned pl')
  have "good x (x\<lparr>jobs := (jobs x)[j := (jobs x ! j)\<lparr>jst := Assigned pl\<rparr>]\<rparr>)"
    by (rule einv_put [OF inv j])
       (use Assigned j einvD(1) [OF inv j] occ_update [OF j, of "(jobs x ! j)\<lparr>jst := Assigned pl\<rparr>"] in
         \<open>simp_all add: isDone_def isActive_def jobOk_def\<close>)
  then show ?thesis using Assigned j inv by (simp add: onAssigned_def wp_simps)
next
  case (Running here rd)
  have "good x (x\<lparr>jobs := (jobs x)[j := (jobs x ! j)\<lparr>jst := Running here (Some pl)\<rparr>]\<rparr>)"
    by (rule einv_put [OF inv j])
       (use Running j einvD(1) [OF inv j] occ_update [OF j, of "(jobs x ! j)\<lparr>jst := Running here (Some pl)\<rparr>"] in
         \<open>simp_all add: isDone_def isActive_def jobOk_def\<close>)
  then show ?thesis using Running j inv by (simp add: onAssigned_def wp_simps)
qed (use inv j in \<open>simp_all add: onAssigned_def wp_simps\<close>)

lemma settle_good:
  assumes "einv {} [] x" "j < length (jobs x)"
  shows "wp (settle j dn) (\<lambda>_. good x) noThrow x"
  by (rule wp_mono [OF settle_ok [OF einv_mono [OF assms(1)] assms(2)]]) auto

lemma onCached_ok: "einv {} [] x \<Longrightarrow> j < length (jobs x) \<Longrightarrow> wp (onCached j) (\<lambda>_. good x) noThrow x"
  using settle_good by (simp add: onCached_def wp_simps split: jstate.split)

lemma rewanted:
  assumes inv: "einv {} [] x" and j: "j < length (jobs x)" and w: "jst (jobs x ! j) = Wanted s r"
  shows "good x (x\<lparr>jobs := (jobs x)[j := (jobs x ! j)\<lparr>jst := Wanted s' r'\<rparr>]\<rparr>)"
  by (rule einv_put [OF inv j])
     (use w j einvD(1) [OF inv j] occ_update [OF j, of "(jobs x ! j)\<lparr>jst := Wanted s' r'\<rparr>"] in
       \<open>simp_all add: isDone_def isActive_def jobOk_def\<close>)

lemma onUnplaceable_ok: "einv {} [] x \<Longrightarrow> j < length (jobs x) \<Longrightarrow> wp (onUnplaceable j r now) (\<lambda>_. good x) noThrow x"
  using rewanted by (simp add: onUnplaceable_def wp_simps split: jstate.split)

lemma onPlaceable_ok: "einv {} [] x \<Longrightarrow> j < length (jobs x) \<Longrightarrow> wp (onPlaceable j) (\<lambda>_. good x) noThrow x"
  using rewanted by (simp add: onPlaceable_def wp_simps split: jstate.split)

lemma reapJob_ok: "einv {} [] x \<Longrightarrow> j < length (jobs x) \<Longrightarrow> wp (reapJob now g j wake) (\<lambda>_. good x) noThrow x"
  using settle_good by (simp add: reapJob_def wp_simps split: jstate.split option.split)

lemma reapJobs_ok:
  "einv {} [] x \<Longrightarrow> set ids \<subseteq> {..<length (jobs x)} \<Longrightarrow> wp (reapJobs now g ids wake) (\<lambda>_. good x) noThrow x"
proof (induction ids arbitrary: wake x)
  case (Cons j ids)
  then have "wp (reapJob now g j wake) (\<lambda>_. good x) noThrow x" using reapJob_ok by simp
  then show ?case unfolding reapJobs.simps wp_bnd
  proof (rule wp_mono, goal_cases)
    case (1 wake' y)
    then have "length (jobs y) = length (jobs x)" by (simp add: keeps_def)
    then have "wp (reapJobs now g ids wake') (\<lambda>_. good y) noThrow y" using Cons.IH [of y wake'] Cons.prems(2) 1 by simp
    then show ?case by (rule wp_mono) (use 1 good_trans in auto)
  qed simp
qed (simp add: wp_simps)

lemma reap_ok: "einv {} [] x \<Longrightarrow> wp (reap now g) (\<lambda>_. good x) noThrow x"
  by (simp add: reap_def wp_bnd wp_gets reapJobs_ok atLeast0LessThan)

section \<open>Choosing what to want\<close>

definition wantSt :: "job_id \<Rightarrow> exec \<Rightarrow> exec" where
  "wantSt j x = x\<lparr>active := active x + 1, jobs := (jobs x)[j := (jobs x ! j)\<lparr>jst := Wanted None [], followed := True\<rparr>]\<rparr>"

lemma wantJob_run:
  assumes "active x = actives (jobs x)" "j < length (jobs x)" "jst (jobs x ! j) = Wantable"
  shows "wp (wantJob j) Q E x = Q () (wantSt j x)"
  using assms actives_update [OF assms(2), of "(jobs x ! j)\<lparr>jst := Wanted None []\<rparr>"]
  by (simp add: wantJob_def wp_simps wp_toState wantSt_def toSt_def isActive_def)

lemma wantSt_ok:
  assumes inv: "einv ex [] x" and j: "j < length (jobs x)" "jst (jobs x ! j) = Wantable" and room: "active x < threads (ecfg x)"
  shows "einv (insert j ex) [] (wantSt j x) \<and> keeps x (wantSt j x) \<and> (\<forall>d. occ (jobs (wantSt j x)) d = occ (jobs x) d)"
proof -
  let ?jb = "(jobs x ! j)\<lparr>jst := Wanted None [], followed := True\<rparr>"
  have js: "jobs (wantSt j x) = (jobs x)[j := ?jb]" by (simp add: wantSt_def)
  have o: "occ (jobs (wantSt j x)) d = occ (jobs x) d" for d
    unfolding js by (rule occ_update [OF j(1)]) (simp_all add: j isDone_def)
  have c: "actives (jobs (wantSt j x)) = actives (jobs x) + 1" "undones (jobs (wantSt j x)) = undones (jobs x)"
    using actives_update [OF j(1), of ?jb] undones_update [OF j(1), of ?jb] j by (simp_all add: js isActive_def isDone_def)
  have "einv (insert j ex) [] (wantSt j x)"
    by (rule einv_change [OF inv j(1) js]) (use o c einvD(4-7) [OF inv] room in \<open>auto simp: wantSt_def idsIn_def\<close>)
  moreover have "keeps x (wantSt j x)" by (rule keeps_update [OF js]) (simp_all add: wantSt_def j isDone_def)
  ultimately show ?thesis using o by blast
qed

text \<open>The state after all the chosen jobs have been turned into wanted ones.\<close>

definition wantedAll :: "job_id list \<Rightarrow> exec \<Rightarrow> exec \<Rightarrow> bool" where
  "wantedAll ids x y \<longleftrightarrow> y = x\<lparr>active := active x + length ids, jobs := jobs y\<rparr>
     \<and> (\<forall>d. jobs y ! d = (if d \<in> set ids then (jobs x ! d)\<lparr>jst := Wanted None [], followed := True\<rparr> else jobs x ! d))
     \<and> (\<forall>d. occ (jobs y) d = occ (jobs x) d)"

lemma wantAll_ok:
  assumes "einv ex [] x" "distinct ids" "\<forall>j \<in> set ids. j < length (jobs x) \<and> jst (jobs x ! j) = Wantable"
    "active x + length ids \<le> threads (ecfg x)"
  shows "wp (forEach ids wantJob) (\<lambda>_ y. einv (ex \<union> set ids) [] y \<and> keeps x y \<and> wantedAll ids x y) noThrow x"
  using assms
proof (induction ids arbitrary: ex x)
  case (Cons j ids)
  let ?y = "wantSt j x"
  have j: "j < length (jobs x)" "jst (jobs x ! j) = Wantable" "j \<notin> set ids" using Cons.prems by simp_all
  have y: "einv (insert j ex) [] ?y" "keeps x ?y" "\<And>d. occ (jobs ?y) d = occ (jobs x) d"
    using wantSt_ok [OF Cons.prems(1) j(1,2)] Cons.prems(4) by simp_all
  have yd: "jobs ?y ! d = (if d = j then (jobs x ! j)\<lparr>jst := Wanted None [], followed := True\<rparr> else jobs x ! d)"
    "length (jobs ?y) = length (jobs x)" "active ?y = active x + 1" "ecfg ?y = ecfg x" for d
    using j(1) by (simp_all add: wantSt_def)
  have "wp (forEach ids wantJob) (\<lambda>_ z. einv (insert j ex \<union> set ids) [] z \<and> keeps ?y z \<and> wantedAll ids ?y z) noThrow ?y"
    by (rule Cons.IH [OF y(1)]) (use Cons.prems yd j(3) in auto)
  then have "wp (forEach ids wantJob) (\<lambda>_ z. einv (ex \<union> set (j # ids)) [] z \<and> keeps x z \<and> wantedAll (j # ids) x z) noThrow ?y"
  proof (rule wp_mono, goal_cases)
    case (1 _ z)
    have "z = x\<lparr>active := active x + length (j # ids), jobs := jobs z\<rparr>"
      using 1 by (cases x; cases z) (simp add: wantedAll_def wantSt_def)
    then have "wantedAll (j # ids) x z" using 1 y(3) yd(1) j(3) by (auto simp: wantedAll_def)
    then show ?case using 1 keeps_trans [OF y(2)] by simp
  qed simp
  then show ?case using wantJob_run [OF einvD(5) [OF Cons.prems(1)] j(1,2)] by (simp add: wp_simps)
qed (simp add: wp_simps wantedAll_def)

text \<open>Replacing the list of wantable jobs.\<close>

lemma einv_wantable:
  assumes inv: "einv ex [] x" and ws: "set ws \<subseteq> {..<length (jobs x)}"
    and old: "\<And>d. d < length (jobs x) \<Longrightarrow> d \<notin> ex \<Longrightarrow> \<not> isDone (jst (jobs x ! d)) \<Longrightarrow> count_list ws d = count_list (wantable x) d"
    and new: "\<And>d. d \<in> ex \<Longrightarrow> jobOk [] (x\<lparr>wantable := ws\<rparr>) d"
  shows "einv {} [] (x\<lparr>wantable := ws\<rparr>)"
proof -
  have "jobOk [] (x\<lparr>wantable := ws\<rparr>) d" if d: "d < length (jobs x)" for d
  proof (cases "d \<in> ex \<or> isDone (jst (jobs x ! d))")
    case True
    then show ?thesis using new jobOk_isDone [of "x\<lparr>wantable := ws\<rparr>" d] by auto
  next
    case False
    then have "count_list ws d = count_list (wantable x) d" using old d by blast
    moreover from this have "d \<in> set ws \<longleftrightarrow> d \<in> set (wantable x)" by (metis count_list_0_iff)
    ultimately show ?thesis
      using einvD(1) [OF inv d] False by (auto simp: jobOk_def Let_def split: jstate.splits)
  qed
  then show ?thesis using einvD(2-7) [OF inv] ws by (auto simp: einv_def idsIn_def)
qed

lemma follow_ok:
  assumes inv: "einv {} [] x" and ids: "set ids \<subseteq> {..<length (jobs x)}"
  shows "wp (forEach ids (\<lambda>jid. bnd (jobAt jid) (\<lambda>jb. putJob jid (jb\<lparr>followed := True\<rparr>))))
    (\<lambda>_ y. good x y \<and> y = x\<lparr>jobs := jobs y\<rparr> \<and> (\<forall>d. jst (jobs y ! d) = jst (jobs x ! d) \<and> prio (jobs y ! d) = prio (jobs x ! d))) noThrow x"
proof (rule wp_forEach, goal_cases)
  case (2 j y)
  have l: "j < length (jobs y)" using 2 ids by (auto simp: keeps_def)
  let ?jb = "(jobs y ! j)\<lparr>followed := True\<rparr>"
  have "good y (y\<lparr>jobs := (jobs y)[j := ?jb]\<rparr>)" using einv_same [of "{}" y j ?jb] 2 l by simp
  then have "good x (y\<lparr>jobs := (jobs y)[j := ?jb]\<rparr>)" using 2 good_trans by blast
  moreover have "y\<lparr>jobs := (jobs y)[j := ?jb]\<rparr> = x\<lparr>jobs := (jobs y)[j := ?jb]\<rparr>"
    using 2 by (cases x; cases y) simp
  moreover have "jst ((jobs y)[j := ?jb] ! d) = jst (jobs y ! d)" "prio ((jobs y)[j := ?jb] ! d) = prio (jobs y ! d)" for d
    using l by (cases "d = j"; simp)+
  ultimately show ?case using l 2 by (simp add: wp_simps)
qed (use inv in simp)

lemma check_ok:
  "set ids \<subseteq> {..<length (jobs x)} \<Longrightarrow> wp (forEach ids (\<lambda>jid. bnd (jobAt jid) (\<lambda>_. ret ()))) (\<lambda>_ y. y = x) noThrow x"
  by (rule wp_forEach) (auto simp: wp_simps)

text \<open>The jobs to choose from, most urgent first.\<close>

definition wantCands :: "exec \<Rightarrow> job_id list" where
  "wantCands x = byPrio (jobs x) (filter (\<lambda>j. jst (jobs x ! j) = Wantable) (wantable x))"

lemma wantCands_ok:
  assumes inv: "einv {} [] x"
  shows "set (wantCands x) = {d. d < length (jobs x) \<and> jst (jobs x ! d) = Wantable}" and "distinct (wantCands x)"
    and "d < length (jobs x) \<Longrightarrow> \<not> isDone (jst (jobs x ! d)) \<Longrightarrow> count_list (wantCands x) d = count_list (wantable x) d"
    and "j \<in> set (take n (wantCands x)) \<Longrightarrow> d \<in> set (drop n (wantCands x)) \<Longrightarrow> prio (jobs x ! d) \<le> prio (jobs x ! j)"
proof -
  have ok: "jobOk [] x d" if "d < length (jobs x)" for d using einvD(1) [OF inv that] by simp
  have w: "count_list (wantable x) d = 1" if "d < length (jobs x)" "jst (jobs x ! d) = Wantable" for d
    using ok [OF that(1)] that(2) by (simp add: jobOk_def Let_def)
  have cnt: "count_list (wantCands x) d = (if jst (jobs x ! d) = Wantable then count_list (wantable x) d else 0)" for d
    by (simp add: wantCands_def byPrio_def flip: count_mset)
  have "d \<in> set (wantCands x) \<longleftrightarrow> d \<in> set (wantable x) \<and> jst (jobs x ! d) = Wantable" for d
    by (auto simp: wantCands_def byPrio_def)
  moreover have "d \<in> set (wantable x)" if "d < length (jobs x)" "jst (jobs x ! d) = Wantable" for d
    using w [OF that] count_notin [of d "wantable x"] by fastforce
  ultimately show st: "set (wantCands x) = {d. d < length (jobs x) \<and> jst (jobs x ! d) = Wantable}"
    using idsInD(1) [OF inv] by auto
  have "count_list (wantCands x) d = 1" if "d \<in> set (wantCands x)" for d using that cnt w unfolding st by simp
  then show "distinct (wantCands x)" by (auto simp: distinct_count_atmost_1 count_mset count_list_0_iff)
  show "count_list (wantCands x) d = count_list (wantable x) d" if "d < length (jobs x)" "\<not> isDone (jst (jobs x ! d))" for d
    using cnt [of d] ok [OF that(1)] that(2) by (auto simp: jobOk_def Let_def isDone_def count_list_0_iff split: jstate.splits)
  have "sorted (map (\<lambda>j. - prio (jobs x ! j)) (take n (wantCands x) @ drop n (wantCands x)))"
    unfolding append_take_drop_id by (simp add: wantCands_def byPrio_def)
  then show "prio (jobs x ! d) \<le> prio (jobs x ! j)" if "j \<in> set (take n (wantCands x))" "d \<in> set (drop n (wantCands x))" for j d
    using that unfolding map_append sorted_append by fastforce
qed

text \<open>What \<open>takeWants\<close> promises: the chosen jobs are the most urgent of those that may be wanted, and none is left out
  while a build thread has nothing to do.\<close>

definition picks :: "job_id list \<Rightarrow> exec \<Rightarrow> exec \<Rightarrow> bool" where
  "picks chosen x x' \<longleftrightarrow> distinct chosen \<and> active x' = active x + length chosen
     \<and> (\<forall>d < length (jobs x). if d \<in> set chosen then jst (jobs x ! d) = Wantable \<and> jst (jobs x' ! d) = Wanted None [] \<and> followed (jobs x' ! d)
          else jst (jobs x' ! d) = jst (jobs x ! d))
     \<and> (\<forall>d < length (jobs x). jst (jobs x' ! d) = Wantable \<longrightarrow>
          active x' = threads (ecfg x) \<and> (\<forall>j \<in> set chosen. prio (jobs x ! d) \<le> prio (jobs x ! j)))"

lemma picks_cong:
  assumes "picks ch z t" "active z = active x" "ecfg z = ecfg x" "length (jobs z) = length (jobs x)"
    "\<And>d. jst (jobs z ! d) = jst (jobs x ! d)" "\<And>d. prio (jobs z ! d) = prio (jobs x ! d)"
  shows "picks ch x t"
  using assms(1) unfolding picks_def assms(2-6) .

lemma choose_ok:
  assumes inv: "einv {} [] x" and ws: "ws = wantCands x" and room: "room = min (length ws) (threads (ecfg x) - active x)"
  shows "wp (forEach (take room ws) wantJob) (\<lambda>_ y. good x (y\<lparr>wantable := drop room ws\<rparr>) \<and> picks (take room ws) x y
    \<and> wantable y = ws \<and> rewant y = rewant x) noThrow (x\<lparr>wantable := ws\<rparr>)"
proof -
  let ?x = "x\<lparr>wantable := ws\<rparr>" and ?ch = "take room ws"
  note c = wantCands_ok [OF inv, folded ws]
  have x: "einv {} [] ?x" by (rule einv_wantable [OF inv]) (use c(1,3) in auto)
  have ch: "\<forall>j \<in> set ?ch. j < length (jobs x) \<and> jst (jobs x ! j) = Wantable" "distinct ?ch"
    using c(1,2) by (auto dest!: in_set_takeD)
  have le: "active x + length ?ch \<le> threads (ecfg x)" using einvD(7) [OF inv] by (simp add: room)
  have dr: "d \<notin> set (drop room ws)" if "d \<in> set ?ch" for d
    using c(2) that set_take_disj_set_drop_if_distinct [of ws room room] by blast
  show ?thesis
  proof (rule wp_mono [OF wantAll_ok [OF x ch(2)]], goal_cases)
    case (3 _ y)
    then have y: "einv (set ?ch) [] y" "keeps ?x y" "y = ?x\<lparr>active := active x + length ?ch, jobs := jobs y\<rparr>"
      "\<And>d. jobs y ! d = (if d \<in> set ?ch then (jobs x ! d)\<lparr>jst := Wanted None [], followed := True\<rparr> else jobs x ! d)"
      "\<And>d. occ (jobs y) d = occ (jobs x) d" by (simp_all add: wantedAll_def)
    have ya: "active y = active x + length ?ch" "wantable y = ws" "rewant y = rewant x" by (subst y(3), simp)+
    have "einv {} [] (y\<lparr>wantable := drop room ws\<rparr>)"
    proof (rule einv_wantable [OF y(1)])
      show "set (drop room ws) \<subseteq> {..<length (jobs y)}" using c(1) y(2) by (auto simp: keeps_def dest!: in_set_dropD)
      show "count_list (drop room ws) d = count_list (wantable y) d" if "d \<notin> set ?ch" for d
        using that count_list_append [of ?ch "drop room ws" d] by (simp add: ya)
      show "jobOk [] (y\<lparr>wantable := drop room ws\<rparr>) d" if "d \<in> set ?ch" for d
        using einvD(1) [OF inv, of d] ch(1) that dr [OF that] y(4,5) by (auto simp: jobOk_def Let_def)
    qed
    moreover have "keeps x (y\<lparr>wantable := drop room ws\<rparr>)" using y(2) by (simp add: keeps_def)
    moreover have "active y = threads (ecfg x) \<and> (\<forall>j \<in> set ?ch. prio (jobs x ! d) \<le> prio (jobs x ! j))"
      if d: "d < length (jobs x)" "jst (jobs y ! d) = Wantable" for d
    proof -
      have "d \<in> set ws" "d \<notin> set ?ch" using d y(4) [of d] c(1) by (auto split: if_splits)
      then have "d \<in> set (drop room ws)" using append_take_drop_id [of room ws] by (metis Un_iff set_append)
      moreover from this have "room < length ws" by (cases "room < length ws") simp_all
      ultimately show ?thesis using c(4) ya(1) einvD(7) [OF inv] by (simp add: room)
    qed
    ultimately show ?case using ch y(4) ya unfolding picks_def by simp
  qed (use ch le in simp_all)
qed

lemma chooseWants_ok:
  assumes inv: "einv {} [] x"
  shows "wp chooseWants (\<lambda>ch x'. good x x' \<and> picks ch x x' \<and> rewant x' = rewant x) noThrow x"
proof -
  define ws where "ws = wantCands x"
  define room where "room = min (length ws) (threads (ecfg x) - active x)"
  have len: "length ws = length (filter (\<lambda>jid. jst (jobs x ! jid) = Wantable) (wantable x))"
    by (simp add: ws_def wantCands_def byPrio_def)
  have main: "wp (forEach (take room ws) wantJob) (\<lambda>_ y. good x (y\<lparr>wantable := drop room (wantable y)\<rparr>)
      \<and> picks (take room ws) x (y\<lparr>wantable := drop room (wantable y)\<rparr>) \<and> rewant y = rewant x) noThrow (x\<lparr>wantable := ws\<rparr>)"
    by (rule wp_mono [OF choose_ok [OF inv ws_def room_def]]) (auto simp: picks_def)
  show ?thesis unfolding chooseWants_def wp_bnd wp_gets wp_upd wp_ret
  proof (rule wp_mono [OF check_ok [OF idsInD(1) [OF inv]]], goal_cases)
    case (1 _ y)
    show ?case using main unfolding 1
      by (cases "active x < threads (ecfg x)") (simp_all add: len [symmetric] room_def flip: wantCands_def ws_def)
  qed simp
qed

lemma takeWants_ok:
  assumes inv: "einv {} [] x"
  shows "wp takeWants (\<lambda>r x'. good x x' \<and> (if stream x then \<exists>chosen. r = rewant x @ chosen \<and> rewant x' = [] \<and> picks chosen x x'
    else r = [] \<and> x' = x)) noThrow x"
proof (cases "stream x")
  case True
  let ?y = "x\<lparr>rewant := []\<rparr>"
  let ?Q = "\<lambda>ch x'. good x x' \<and> rewant x' = [] \<and> picks ch x x'"
  have g: "good x ?y" using good_frame [OF inv] idsInD [OF inv] by simp
  have "wp (forEach (rewant x) (\<lambda>jid. bnd (jobAt jid) (\<lambda>jb. putJob jid (jb\<lparr>followed := True\<rparr>)))) (\<lambda>_. wp chooseWants ?Q noThrow) noThrow ?y"
  proof (rule wp_mono [OF follow_ok [of ?y]], goal_cases)
    case (3 _ z)
    then have z: "z = ?y\<lparr>jobs := jobs z\<rparr>" "good ?y z" by blast+
    have za: "active z = active x" "ecfg z = ecfg x" "rewant z = []" "length (jobs z) = length (jobs x)"
      using z(2) by (subst z(1), simp, subst z(1), simp, subst z(1), simp, simp add: keeps_def)
    show ?case
    proof (rule wp_mono [OF chooseWants_ok], goal_cases)
      case (2 ch t)
      then have "good x t" using good_trans [OF good_trans [OF g z(2)]] by blast
      moreover have "picks ch x t" by (rule picks_cong [of ch z]) (use 2 3 za in auto)
      ultimately show ?case using 2 za(3) by simp
    qed (use z in simp_all)
  qed (use g idsInD(3) [OF inv] in simp_all)
  then have "wp (forEach (rewant x) (\<lambda>jid. bnd (jobAt jid) (\<lambda>jb. putJob jid (jb\<lparr>followed := True\<rparr>)))) (\<lambda>_. wp chooseWants
     (\<lambda>ch x'. good x x' \<and> (\<exists>chosen. rewant x @ ch = rewant x @ chosen \<and> rewant x' = [] \<and> picks chosen x x')) noThrow) noThrow ?y"
    by (rule wp_mono) (auto elim!: wp_mono)
  then show ?thesis using True by (simp add: takeWants_def wp_bnd wp_gets wp_upd wp_ret)
qed (use inv in \<open>simp add: takeWants_def wp_simps\<close>)

section \<open>Build threads\<close>

lemma einv_ready:
  assumes inv: "einv {} [] x" and rs: "ready x = j # rs" and nx: "\<And>pl. jst (jobs x ! j) = Assigned pl \<Longrightarrow> j \<in> ex"
  shows "einv ex [] (x\<lparr>ready := rs\<rparr>)"
proof -
  have "jobOk [] (x\<lparr>ready := rs\<rparr>) d" if "d < length (jobs x)" "d \<notin> ex" for d
    using einvD(1) [OF inv that(1)] nx that(2) rs by (auto simp: jobOk_def Let_def split: jstate.splits)
  then show ?thesis using einvD(2-7) [OF inv] rs by (auto simp: einv_def idsIn_def)
qed

text \<open>\<open>nextJob\<close> starts the first placed job of the queue, and finds one whenever a job is placed.\<close>

lemma nextJob_ok:
  "einv {} [] x \<Longrightarrow> wp nextJob (\<lambda>r x'. good x x' \<and> (case r of
       Some (j, pl) \<Rightarrow> j < length (jobs x) \<and> jst (jobs x ! j) = Assigned pl \<and> jst (jobs x' ! j) = Running pl None
     | None \<Rightarrow> jobs x' = jobs x \<and> (\<forall>d < length (jobs x). \<forall>pl. jst (jobs x ! d) \<noteq> Assigned pl))) noThrow x"
proof (induction x rule: measure_induct_rule [where f = "\<lambda>x. length (ready x)"])
  case (less x)
  show ?case
  proof (cases "ready x")
    case Nil
    have "jst (jobs x ! d) \<noteq> Assigned pl" if "d < length (jobs x)" for d pl
      using einvD(1) [OF less.prems that] Nil by (auto simp: jobOk_def Let_def split: jstate.splits)
    then show ?thesis using less.prems Nil by (simp add: wp_def nextJob.simps)
  next
    case (Cons j rs)
    let ?y = "x\<lparr>ready := rs\<rparr>"
    have j: "j < length (jobs x)" using idsInD(2) [OF less.prems] Cons by simp
    show ?thesis
    proof (cases "\<exists>pl. jst (jobs x ! j) = Assigned pl")
      case True
      then obtain pl where pl: "jst (jobs x ! j) = Assigned pl" by blast
      have y: "einv {j} [] ?y" using einv_ready [OF less.prems Cons] by simp
      let ?z = "toSt j (Running pl None) ?y"
      have z: "?z = ?z\<lparr>wantable := wantable ?y @ [], ready := ready ?y @ []\<rparr>" by (cases x) (simp add: toSt_def)
      have "einv {} [] ?z \<and> keeps ?y ?z"
      proof (rule einv_toSt [OF y _ _ _ _ z])
        show "jobOk [] ?z j"
          using occ_update [OF j, of "(jobs x ! j)\<lparr>jst := Running pl None\<rparr>" j] einvD(1) [OF less.prems j] pl j
          by (simp add: jobOk_def toSt_def isDone_def)
      qed (use pl j in \<open>simp_all add: isDone_def isActive_def toSt_def\<close>)
      moreover have "keeps ?y z = keeps x z" for z by (simp add: keeps_def)
      moreover have "nextJob x = bnd (toState j (Running pl None)) (\<lambda>_. ret (Some (j, pl))) ?y"
        by (subst nextJob.simps) (simp add: Cons j pl)
      moreover have "jst (jobs ?z ! j) = Running pl None" using j by (simp add: toSt_def)
      moreover have "wp (bnd (toState j (Running pl None)) (\<lambda>_. ret (Some (j, pl)))) Q noThrow ?y = Q (Some (j, pl)) ?z" for Q
        using wp_toState [OF einvD(5) [OF y]] j by (simp add: wp_simps)
      ultimately show ?thesis using j pl unfolding wp_def by simp
    next
      case False
      then have y: "einv {} [] ?y" using einv_ready [OF less.prems Cons] by blast
      have "nextJob x = nextJob ?y"
        by (subst nextJob.simps) (use False in \<open>simp add: Cons j Let_def split: jstate.split\<close>)
      moreover have "wp nextJob (\<lambda>r x'. good ?y x' \<and> (case r of
         Some (j, pl) \<Rightarrow> j < length (jobs x) \<and> jst (jobs x ! j) = Assigned pl \<and> jst (jobs x' ! j) = Running pl None
       | None \<Rightarrow> jobs x' = jobs x \<and> (\<forall>d < length (jobs x). \<forall>pl. jst (jobs x ! d) \<noteq> Assigned pl))) noThrow ?y"
        by (rule wp_mono [OF less.IH [of ?y]]) (use y Cons in \<open>auto split: option.splits\<close>)
      moreover have "keeps ?y z = keeps x z" for z by (simp add: keeps_def)
      ultimately show ?thesis by (simp add: wp_def)
    qed
  qed
qed

lemma finished_ok: "einv {} [] x \<Longrightarrow> j < length (jobs x) \<Longrightarrow> wp (Executor.finished j ok) (\<lambda>_. good x) noThrow x"
  using settle_good by (simp add: Executor.finished_def wp_simps)

lemma bounced_ok:
  assumes inv: "einv {} [] x" and j: "j < length (jobs x)"
  shows "wp (bounced j) (\<lambda>_. good x) noThrow x"
proof (cases "jst (jobs x ! j)")
  case (Running here rd)
  show ?thesis
  proof (cases rd)
    case None
    define n where "n = (jbounced (jobs x ! j) + 1) mod 2 ^ 32"
    let ?x = "x\<lparr>jobs := (jobs x)[j := (jobs x ! j)\<lparr>jbounced := n\<rparr>]\<rparr>"
    have g: "good x ?x" using einv_same [OF inv j, of "(jobs x ! j)\<lparr>jbounced := n\<rparr>"] by simp
    have st: "jst (jobs ?x ! j) = Running here None" using Running None j by simp
    have l: "j < length (jobs ?x)" using j by simp
    have c: "occ (jobs ?x) j = 0" "j \<notin> set (wantable ?x)"
      using jobOk_clear [OF conjunct1 [OF g] l] st by (simp_all add: isDone_def)
    have "wp (settle j dn) (\<lambda>_. good x) noThrow ?x" for dn
      by (rule wp_mono [OF settle_good [OF conjunct1 [OF g] l]]) (use good_trans [OF g] in auto)
    moreover have "wp (bnd (toState j (Blocked 0)) (\<lambda>_. release j)) (\<lambda>_. good x) noThrow ?x"
      by (rule wp_mono [OF reblock_ok [OF einv_mono [OF conjunct1 [OF g]] l _ c]])
         (use st good_trans [OF g] in \<open>auto simp: isDone_def\<close>)
    ultimately show ?thesis
      using Running None j by (simp add: bounced_def wp_bnd wp_jobAt wp_putJob wp_gets n_def)
  next
    case (Some pl)
    have "good x ((toSt j (Assigned pl) x)\<lparr>wantable := wantable x @ [], ready := ready x @ [j]\<rparr>)"
      by (rule move_ok [OF inv j _ _ _ _ _ refl]) (use Running in \<open>auto simp: isActive_def\<close>)
    then show ?thesis
      using Running Some j inv by (simp add: bounced_def wp_simps wp_toState [OF einvD(5) [OF inv] j]) (simp add: toSt_def)
  qed
qed (use inv j in \<open>simp_all add: bounced_def wp_simps\<close>)

lemma abandonJob_ok: "einv {} [] x \<Longrightarrow> j < length (jobs x) \<Longrightarrow> wp (abandonJob j) (\<lambda>_. good x) noThrow x"
  using settle_good by (simp add: abandonJob_def wp_simps split: jstate.split)

lemma abandon_ok:
  assumes inv: "einv {} [] x"
  shows "wp abandon (\<lambda>_. good x) noThrow x"
proof -
  have g: "good x (x\<lparr>abandoned := True\<rparr>)" using good_frame [OF inv] idsInD [OF inv] by simp
  have "wp (forEach [0..<length (jobs x)] abandonJob) (\<lambda>_. good (x\<lparr>abandoned := True\<rparr>)) noThrow (x\<lparr>abandoned := True\<rparr>)"
    by (rule forEach_good) (use g abandonJob_ok in auto)
  then have "wp (forEach [0..<length (jobs x)] abandonJob) (\<lambda>_. good x) noThrow (x\<lparr>abandoned := True\<rparr>)"
    by (rule wp_mono) (use good_trans [OF g] in auto)
  then show ?thesis by (simp add: abandon_def wp_simps)
qed

end
