(* ===== verification/ExecReach.thy ===== *)
theory ExecReach
  imports ExecInv
begin

text \<open>
  Runs of the client's executor: every sequence of calls a client may make on a fresh \<open>Executor\<close>
  (\<^verbatim>\<open>src/client/executor.hh\<close>), with job ids the executor has handed out.  In every state such a run reaches the
  counters are exact, no call throws, a finished job stays finished, and the run cannot get stuck while the
  waits-for relation has no cycle.
\<close>

section \<open>Calls\<close>

datatype ecall =
    CAdd real "job_id list"
  | CBlockOn job_id job_id
  | CConnected
  | CDisconnected
  | CTakeWants
  | CUnsent "job_id list"
  | CTakeCancels
  | CAssigned job_id placement
  | CCached job_id
  | CUnplaceable job_id string int
  | CPlaceable job_id
  | CReap int int
  | CNextJob
  | CFinished job_id bool
  | CBounced job_id
  | CAbandon

fun runCall :: "ecall \<Rightarrow> (exec, unit) prog" where
  "runCall (CAdd pr ins) = bnd (addJob pr ins) (\<lambda>_. ret ())"
| "runCall (CBlockOn j i) = blockOn j i"
| "runCall CConnected = connected"
| "runCall CDisconnected = disconnected"
| "runCall CTakeWants = bnd takeWants (\<lambda>_. ret ())"
| "runCall (CUnsent ids) = unsent ids"
| "runCall CTakeCancels = bnd takeCancels (\<lambda>_. ret ())"
| "runCall (CAssigned j pl) = onAssigned j pl"
| "runCall (CCached j) = onCached j"
| "runCall (CUnplaceable j r now) = bnd (onUnplaceable j r now) (\<lambda>_. ret ())"
| "runCall (CPlaceable j) = onPlaceable j"
| "runCall (CReap now grace) = bnd (reap now grace) (\<lambda>_. ret ())"
| "runCall CNextJob = bnd nextJob (\<lambda>_. ret ())"
| "runCall (CFinished j ok) = Executor.finished j ok"
| "runCall (CBounced j) = bounced j"
| "runCall CAbandon = abandon"

text \<open>The ids of a call; \<open>add\<close> also needs a fresh \<open>uint32_t\<close>.\<close>

fun callIds :: "ecall \<Rightarrow> job_id set" where
  "callIds (CAdd pr ins) = set ins"
| "callIds (CBlockOn j i) = {j, i}"
| "callIds (CUnsent ids) = set ids"
| "callIds (CAssigned j pl) = {j}"
| "callIds (CCached j) = {j}"
| "callIds (CUnplaceable j r now) = {j}"
| "callIds (CPlaceable j) = {j}"
| "callIds (CFinished j ok) = {j}"
| "callIds (CBounced j) = {j}"
| "callIds _ = {}"

definition validCall :: "ecall \<Rightarrow> exec \<Rightarrow> bool" where
  "validCall c x \<longleftrightarrow> callIds c \<subseteq> {..<length (jobs x)} \<and> length (jobs x) < 2 ^ 32"

inductive execReach :: "econfig \<Rightarrow> exec \<Rightarrow> bool" for cf where
  start: "execReach cf (exec0 cf)"
| call: "execReach cf x \<Longrightarrow> validCall c x \<Longrightarrow> runCall c x = (r, x') \<Longrightarrow> execReach cf x'"

lemma runCall_ok:
  assumes inv: "einv {} [] x" and v: "validCall c x"
  shows "wp (runCall c) (\<lambda>_ x'. einv {} [] x' \<and> grows x x') noThrow x"
proof -
  have g: "wp m (\<lambda>_ x'. einv {} [] x' \<and> grows x x') noThrow x" if "wp m (\<lambda>_. good x) noThrow x" for m :: "(exec, unit) prog"
    by (rule wp_mono [OF that]) (auto intro: keeps_grows)
  have drop: "wp (bnd m (\<lambda>_. ret ())) (\<lambda>_ x'. einv {} [] x' \<and> grows x x') noThrow x"
    if "wp m (\<lambda>_ x'. einv {} [] x' \<and> grows x x') noThrow x" for m :: "(exec, 'a) prog" using that by (simp add: wp_simps)
  have gd: "wp (bnd m (\<lambda>_. ret ())) (\<lambda>_ x'. einv {} [] x' \<and> grows x x') noThrow x"
    if "wp m P noThrow x" "\<And>r x'. P r x' \<Longrightarrow> good x x'" for m :: "(exec, 'a) prog" and P
    by (rule drop, rule wp_mono [OF that(1)]) (use that(2) keeps_grows in auto)
  show ?thesis
  proof (cases c)
    case (CAdd pr ins)
    show ?thesis unfolding CAdd runCall.simps
      by (rule drop, rule wp_mono [OF addJob_ok [OF inv]]) (use v CAdd in \<open>auto simp: validCall_def\<close>)
  next
    case CTakeWants
    then show ?thesis using gd [OF takeWants_ok [OF inv]] by simp
  next
    case CTakeCancels
    then show ?thesis using gd [OF takeCancels_ok [OF inv]] by simp
  next
    case CNextJob
    then show ?thesis using gd [OF nextJob_ok [OF inv]] by simp
  next
    case (CReap now grace)
    then show ?thesis using gd [OF reap_ok [OF inv]] by simp
  next
    case (CUnplaceable j r now)
    then show ?thesis using gd [OF onUnplaceable_ok [OF inv]] v by (simp add: validCall_def)
  qed (use v g [OF blockOn_ok [OF inv]] g [OF connected_ok [OF inv]] g [OF disconnected_ok [OF inv]] g [OF unsent_ok [OF inv]]
      g [OF onAssigned_ok [OF inv]] g [OF onCached_ok [OF inv]] g [OF onPlaceable_ok [OF inv]] g [OF finished_ok [OF inv]]
      g [OF bounced_ok [OF inv]] g [OF abandon_ok [OF inv]] in \<open>simp_all add: validCall_def\<close>)
qed

lemma execReach_inv: "execReach cf x \<Longrightarrow> einv {} [] x \<and> ecfg x = cf"
proof (induction rule: execReach.induct)
  case (call x c r x')
  then obtain u y where "runCall c x = (Inr u, y)" "einv {} [] y \<and> grows x y"
    using wp_noThrowD [OF runCall_ok [of x c]] by blast
  then show ?case using call by (simp add: grows_def)
qed (simp add: exec0_def einv_def idsIn_def actives_def undones_def)

section \<open>Reading the invariant\<close>

lemma sumOf_card: "sumOf (\<lambda>jb. of_bool (P jb)) js = card {d. d < length js \<and> P (js ! d)}"
proof (induction js rule: rev_induct)
  case (snoc jb js)
  have "{d. d < length (js @ [jb]) \<and> P ((js @ [jb]) ! d)}
      = {d. d < length js \<and> P (js ! d)} \<union> (if P jb then {length js} else {})"
    by (auto simp: nth_append less_Suc_eq)
  then show ?case using snoc by (simp add: card_insert_if)
qed simp

lemma sumOf_sum: "sumOf f js = (\<Sum>i < length js. f (js ! i))"
  by (simp add: sumOf_def sum_list_sum_nth atLeast0LessThan)

text \<open>How many inputs of job \<open>d\<close> are not done, an input that was named twice counted twice.\<close>

definition waitsFor :: "exec \<Rightarrow> job_id \<Rightarrow> nat" where
  "waitsFor x d = (\<Sum>i < length (jobs x). if isDone (jst (jobs x ! i)) then 0 else count_list (dependants (jobs x ! i)) d)"

lemma waitsFor_occ: "waitsFor x d = occ (jobs x) d"
  by (simp add: waitsFor_def occ_def sumOf_sum)

definition waitEdges :: "exec \<Rightarrow> (job_id \<times> job_id) set" where
  "waitEdges x = {(i, d). i < length (jobs x) \<and> \<not> isDone (jst (jobs x ! i)) \<and> d \<in> set (dependants (jobs x ! i))}"

lemma some_unblocked:
  assumes inv: "einv {} [] x" and ac: "acyclic (waitEdges x)" and rem: "0 < remaining x"
  shows "\<exists>d < length (jobs x). jst (jobs x ! d) = Wantable \<or> isActive (jst (jobs x ! d))"
proof -
  let ?U = "{d. d < length (jobs x) \<and> \<not> isDone (jst (jobs x ! d))}"
  have "?U \<noteq> {}" using rem einvD(6) [OF inv] unfolding undones_def sumOf_card by (metis card.empty less_irrefl)
  have "waitEdges x \<subseteq> {..<length (jobs x)} \<times> {..<length (jobs x)}"
    using einvD(2) [OF inv nth_mem] by (auto simp: waitEdges_def)
  then have "wf (waitEdges x)" by (intro finite_acyclic_wf ac) (rule finite_subset, auto)
  from wfE_min' [OF this \<open>?U \<noteq> {}\<close>] obtain d where d: "d \<in> ?U" "\<And>i. (i, d) \<in> waitEdges x \<Longrightarrow> i \<notin> ?U" by blast
  have "waitsFor x d = 0"
    using d(2) by (auto simp: waitsFor_def waitEdges_def count_list_0_iff)
  then have "occ (jobs x) d = 0" by (simp add: waitsFor_occ)
  then show ?thesis
    using einvD(1) [OF inv, of d] d(1) by (intro exI [of _ d]) (auto simp: jobOk_def Let_def isDone_def isActive_def split: jstate.splits)
qed

section \<open>A run to look at\<close>

text \<open>One build thread, a connected stream, and two builds of which the second needs the first.\<close>

definition demoCfg :: econfig where
  "demoCfg = \<lparr>threads = 1, rescheduleRetries = 8, keepGoing = True\<rparr>"

definition demoExec :: exec where
  "demoExec = \<lparr>ecfg = demoCfg,
     jobs = [\<lparr>jst = Wantable, prio = 1, dependants = [1], failedInput = None, jbounced = 0, followed = False\<rparr>,
       \<lparr>jst = Blocked 1, prio = 2, dependants = [], failedInput = None, jbounced = 0, followed = False\<rparr>],
     wantable = [0], rewant = [], cancels = [], ready = [], remaining = 2, active = 0,
     progressed = 0, stream = True, abandoned = False, stopping = False\<rparr>"

lemmas exec_run = bnd_def ret_def gets_def upd_def vat_def jobAt_def putJob_def addJob_def addInput_def release_def unblock_def
  toState_def connected_def connectJob_def isActive_def isDone_def

lemma demoExec_reach: "execReach demoCfg demoExec"
proof -
  obtain r1 x1 where 1: "runCall (CAdd 1 []) (exec0 demoCfg) = (r1, x1)" by fastforce
  obtain r2 x2 where 2: "runCall (CAdd 2 [0]) x1 = (r2, x2)" by fastforce
  have x1: "x1 = demoExec\<lparr>jobs := [(jobs demoExec ! 0)\<lparr>dependants := []\<rparr>], remaining := 1, stream := False\<rparr>"
    using 1 by (simp add: exec_run exec0_def demoExec_def)
  have x2: "x2 = demoExec\<lparr>stream := False\<rparr>" using 2 unfolding x1 by (auto simp: exec_run demoExec_def)
  have 3: "runCall CConnected x2 = (Inr (), demoExec)" unfolding x2 by (simp add: exec_run demoExec_def)
  show ?thesis
    by (rule execReach.call [OF execReach.call [OF execReach.call [OF execReach.start _ 1] _ 2] _ 3])
       (simp_all add: validCall_def x1 x2 exec0_def demoExec_def)
qed


section \<open>Properties\<close>



text \<open>C21: No call on a reachable executor throws when its job ids are ones the executor has handed out, in particular the
  loop that settles a job and everything it releases ends; and a job that is done keeps its result for ever.\<close>

theorem exec_total:
  assumes "execReach cf x" "validCall c x"
  shows "\<exists>x'. runCall c x = (Inr (), x') \<and> length (jobs x) \<le> length (jobs x')
    \<and> (\<forall>j < length (jobs x). \<forall>dn. jst (jobs x ! j) = Done dn \<longrightarrow> jst (jobs x' ! j) = Done dn)"
proof -
  obtain u x' where "runCall c x = (Inr u, x')" "grows x x'"
    using wp_noThrowD [OF runCall_ok [of x c]] execReach_inv [OF assms(1)] assms(2) by blast
  then show ?thesis by (auto simp: grows_def isDone_def)
qed

theorem exec_total_witness: "\<exists>x'. runCall (CCached 1) demoExec = (Inr (), x')"
  using exec_total [OF demoExec_reach, of "CCached 1"] by (auto simp: validCall_def demoExec_def)

text \<open>C20: With a connected stream, taking the wants asks again for what the scheduler must be told again, and adds distinct
  wantable jobs, which become wanted; it never exceeds the number of build threads, leaves a wantable job out only
  when all threads are taken, and never prefers a job to a more urgent one.\<close>

theorem takeWants_picks:
  assumes "execReach cf x" "stream x"
  shows "\<exists>chosen x'. takeWants x = (Inr (rewant x @ chosen), x') \<and> rewant x' = [] \<and> distinct chosen
    \<and> active x' = active x + length chosen \<and> active x' \<le> threads cf
    \<and> (\<forall>j \<in> set chosen. j < length (jobs x) \<longrightarrow> jst (jobs x ! j) = Wantable \<and> jst (jobs x' ! j) = Wanted None [])
    \<and> (\<forall>d < length (jobs x). jst (jobs x' ! d) = Wantable \<longrightarrow> active x' = threads cf
         \<and> (\<forall>j \<in> set chosen. prio (jobs x ! d) \<le> prio (jobs x ! j)))"
proof -
  have inv: "einv {} [] x" "ecfg x = cf" using execReach_inv [OF assms(1)] by simp_all
  from wp_noThrowD [OF takeWants_ok [OF inv(1)]] obtain chosen x' where
    "takeWants x = (Inr (rewant x @ chosen), x')" "rewant x' = []" "picks chosen x x'" "good x x'"
    using assms(2) by auto
  then show ?thesis
    using inv(2) einvD(7) [of "{}" "[]" x'] by (intro exI [of _ chosen] exI [of _ x']) (auto simp: picks_def keeps_def)
qed

theorem takeWants_picks_witness: "\<exists>chosen x'. takeWants demoExec = (Inr chosen, x') \<and> active x' = length chosen"
  using takeWants_picks [OF demoExec_reach] by (auto simp: demoExec_def)

text \<open>C19: The executor cannot get stuck: when jobs remain, the waits-for relation has no cycle and the stream is connected,
  then after taking the wants some job is wanted, placed or running.\<close>

theorem exec_progress:
  assumes "execReach cf x" "stream x" "0 < threads cf" "0 < remaining x" "acyclic (waitEdges x)"
  shows "\<exists>wants x'. takeWants x = (Inr wants, x') \<and> (\<exists>d < length (jobs x'). isActive (jst (jobs x' ! d)))"
proof -
  have inv: "einv {} [] x" "ecfg x = cf" using execReach_inv [OF assms(1)] by simp_all
  from wp_noThrowD [OF takeWants_ok [OF inv(1)]] obtain chosen x' where
    run: "takeWants x = (Inr (rewant x @ chosen), x')" and p: "picks chosen x x'" and g: "good x x'"
    using assms(2) by auto
  obtain d where d: "d < length (jobs x)" "jst (jobs x ! d) = Wantable \<or> isActive (jst (jobs x ! d))"
    using some_unblocked [OF inv(1) assms(5,4)] by blast
  have "0 < active x'"
  proof (cases "jst (jobs x' ! d) = Wantable")
    case True
    then have "active x' = threads cf" using p d(1) inv(2) unfolding picks_def by blast
    then show ?thesis using assms(3) by simp
  next
    case False
    have "0 < length chosen \<or> isActive (jst (jobs x ! d))" using p d False by (auto simp: picks_def split: if_splits)
    moreover have "0 < active x" if "isActive (jst (jobs x ! d))"
      using einvD(5) [OF inv(1)] sumOf_pos [OF d(1), of "\<lambda>jb. of_bool (isActive (jst jb))"] that by (simp add: actives_def)
    ultimately show ?thesis using p by (auto simp: picks_def)
  qed
  then have "{d. d < length (jobs x') \<and> isActive (jst (jobs x' ! d))} \<noteq> {}"
    using einvD(5) [OF conjunct1 [OF g]] unfolding actives_def sumOf_card by (metis card.empty less_irrefl)
  then show ?thesis using run by blast
qed

lemma demoExec_acyclic: "acyclic (waitEdges demoExec)"
proof -
  have "waitEdges demoExec \<subseteq> less_than" by (auto simp: waitEdges_def demoExec_def less_Suc_eq)
  then show ?thesis using wf_acyclic [OF wf_less_than] acyclic_subset by blast
qed

theorem exec_progress_witness: "\<exists>wants x'. takeWants demoExec = (Inr wants, x') \<and> (\<exists>d < length (jobs x'). isActive (jst (jobs x' ! d)))"
  by (rule exec_progress [OF demoExec_reach _ _ _ demoExec_acyclic]) (simp_all add: demoExec_def demoCfg_def)

end
