(* ===== verification/Access.thy ===== *)
theory Access
  imports Prelude
begin

text \<open>
  Who may call what: roles and access rules (\<^verbatim>\<open>src/daemon/acl.hh\<close>), the client identity a
  proxy forwards in \<open>x-forwarded-client-cert\<close> (\<^verbatim>\<open>src/daemon/xfcc.hh\<close>), and the decision for a
  call (\<^verbatim>\<open>src/daemon/auth.cc\<close>).

  A \<open>Cursor\<close> is the rest of the input; its methods return the new rest.  \<open>fnmatch\<close> of the C
  library is the parameter \<open>fnm\<close> (pattern, then name); the verifier of bearer tokens is a
  parameter of \<open>identify\<close>.  A gRPC server context is its peer's certificate name and its
  metadata.
\<close>

section \<open>Roles and rules\<close>

datatype role = ReadOnly | Write | Trusted

instantiation role :: linorder
begin

definition less_eq_role :: "role \<Rightarrow> role \<Rightarrow> bool" where
  "less_eq_role a b = (case a of ReadOnly \<Rightarrow> True | Write \<Rightarrow> b \<noteq> ReadOnly | Trusted \<Rightarrow> b = Trusted)"

definition less_role :: "role \<Rightarrow> role \<Rightarrow> bool" where
  "less_role a b = (a \<le> b \<and> \<not> b \<le> a)"

instance
  by standard (auto simp: less_eq_role_def less_role_def split: role.splits)

end

definition roleNames :: "(string \<times> role) list" where
  "roleNames = [(''read-only'', ReadOnly), (''write'', Write), (''trusted'', Trusted)]"

definition roleName :: "role \<Rightarrow> string" where
  "roleName r = (case find (\<lambda>(name, value). value = r) roleNames of None \<Rightarrow> ''unknown'' | Some (name, _) \<Rightarrow> name)"

definition parseRole :: "string \<Rightarrow> exn + role" where
  "parseRole name =
     (case find (\<lambda>(candidate, r). name = candidate) roleNames of
        None \<Rightarrow> Inl (NixError (''unknown role '' @ name))
      | Some (_, r) \<Rightarrow> Inr r)"

record acl =
  rules :: "(string \<times> role) list"
  anonRole :: "role option"
  identityRequired :: bool
  clientsTrusted :: bool

definition acl0 :: acl where
  "acl0 = \<lparr>rules = [], anonRole = None, identityRequired = False, clientsTrusted = False\<rparr>"

definition capped :: "acl \<Rightarrow> role \<Rightarrow> role" where
  "capped a r = (if clientsTrusted a then r else min r Write)"

text \<open>\<open>rfind('=')\<close>: what is before and after the last equals sign.\<close>

definition splitLast :: "char \<Rightarrow> string \<Rightarrow> (string \<times> string) option" where
  "splitLast ch s =
     (if ch \<notin> set s then None
      else Some (rev (drop 1 (dropWhile (\<lambda>x. x \<noteq> ch) (rev s))), rev (takeWhile (\<lambda>x. x \<noteq> ch) (rev s))))"

definition addRule :: "string \<Rightarrow> acl \<Rightarrow> exn + acl" where
  "addRule spec a =
     (case splitLast (CHR ''='') spec of
        None \<Rightarrow> Inl (NixError (''--allow must be cn-pattern=role, got '' @ spec))
      | Some (pattern, name) \<Rightarrow>
          if pattern = [] then Inl (NixError (''--allow must be cn-pattern=role, got '' @ spec))
          else
            (case parseRole name of
               Inl e \<Rightarrow> Inl e
             | Inr r \<Rightarrow> Inr (a\<lparr>rules := rules a @ [(pattern, r)]\<rparr>)))"

definition allowAnonymous :: "role \<Rightarrow> acl \<Rightarrow> acl" where
  "allowAnonymous r a = a\<lparr>anonRole := Some r\<rparr>"

definition requireIdentity :: "acl \<Rightarrow> acl" where
  "requireIdentity a = a\<lparr>identityRequired := True\<rparr>"

definition trustClients :: "acl \<Rightarrow> acl" where
  "trustClients a = a\<lparr>clientsTrusted := True\<rparr>"

definition roleFor :: "(string \<Rightarrow> string \<Rightarrow> bool) \<Rightarrow> acl \<Rightarrow> string option \<Rightarrow> role option" where
  "roleFor fnm a commonName =
     (case commonName of
        None \<Rightarrow>
          if anonRole a \<noteq> None then anonRole a
          else if identityRequired a \<or> rules a \<noteq> [] then None
          else Some (capped a Trusted)
      | Some name \<Rightarrow>
          if rules a = [] then Some (capped a Trusted)
          else if CHR 0x00 \<in> set name then None
          else map_option snd (find (\<lambda>(pattern, r). fnm pattern name) (rules a)))"

section \<open>The forwarded certificate\<close>

definition maxHeaderBytes :: nat where
  "maxHeaderBytes = 16384"

definition maxCommonNameBytes :: nat where
  "maxCommonNameBytes = 256"

definition peek :: "string \<Rightarrow> char" where
  "peek rest = (case rest of [] \<Rightarrow> CHR 0x00 | ch # _ \<Rightarrow> ch)"

definition takeChar :: "string \<Rightarrow> char \<times> string" where
  "takeChar rest = (case rest of [] \<Rightarrow> (CHR 0x00, []) | ch # rest' \<Rightarrow> (ch, rest'))"

definition untilAny :: "char set \<Rightarrow> string \<Rightarrow> (string \<times> string) option" where
  "untilAny stops rest =
     (if \<exists>ch \<in> set rest. ch \<in> stops then Some (takeWhile (\<lambda>ch. ch \<notin> stops) rest, dropWhile (\<lambda>ch. ch \<notin> stops) rest)
      else None)"

fun readQuoted :: "string \<Rightarrow> string \<Rightarrow> (string \<times> string) option" where
  "readQuoted [] out = None"
| "readQuoted [ch] out = (if ch = CHR 0x22 then Some (out, []) else None)"
| "readQuoted (ch # ch' # rest) out =
     (if ch = CHR 0x22 then Some (out, ch' # rest)
      else if ch = CHR 0x5C then readQuoted rest (out @ [ch, ch'])
      else readQuoted (ch' # rest) (out @ [ch]))"

definition readPairValue :: "string \<Rightarrow> (string \<times> string) option" where
  "readPairValue cur =
     (if peek cur \<noteq> CHR 0x22 then
        (case untilAny {CHR '';'', CHR '',''} cur of Some (plain, rest) \<Rightarrow> Some (plain, rest) | None \<Rightarrow> Some (cur, []))
      else readQuoted (snd (takeChar cur)) [])"

text \<open>One attribute of a distinguished name, without its escapes, and what follows it.\<close>

fun readAttr :: "char \<Rightarrow> string \<Rightarrow> string \<Rightarrow> string \<times> string" where
  "readAttr sep [] attr = (attr, [])"
| "readAttr sep [ch] attr = (if ch = sep then (attr, [ch]) else (attr @ [ch], []))"
| "readAttr sep (ch # ch' # rest) attr =
     (if ch = sep then (attr, ch # ch' # rest)
      else if ch = CHR 0x5C then readAttr sep rest (attr @ [ch'])
      else readAttr sep (ch' # rest) (attr @ [ch]))"

lemma readAttr_length: "length (snd (readAttr sep cur attr)) \<le> length cur"
  by (induction sep cur attr rule: readAttr.induct) auto

lemma readAttr_stops: "snd (readAttr sep cur attr) = [] \<or> hd (snd (readAttr sep cur attr)) = sep"
  by (induction sep cur attr rule: readAttr.induct) auto

lemma readAttr_progress: "cur \<noteq> [] \<Longrightarrow> length (snd (takeChar (snd (readAttr sep cur attr)))) < length cur"
  using readAttr_length [of sep cur attr] by (auto simp: takeChar_def split: list.split)

function cnLoop :: "char \<Rightarrow> string \<Rightarrow> string option" where
  "cnLoop sep cur =
     (if cur = [] then None
      else
        (case readAttr sep cur [] of
           (attr, rest) \<Rightarrow>
             if take 3 attr = ''CN='' \<or> take 3 attr = ''cn='' then Some (drop 3 attr)
             else cnLoop sep (snd (takeChar rest))))"
  by pat_completeness auto
termination
proof (relation "measure (\<lambda>(sep, cur). length cur)", goal_cases)
  case (2 sep cur attr rest)
  then have "rest = snd (readAttr sep cur [])" by (metis snd_conv)
  with readAttr_progress [OF 2(1)] show ?case by simp
qed simp

declare cnLoop.simps [simp del]

definition commonNameOfDn :: "string \<Rightarrow> string option" where
  "commonNameOfDn name =
     (let sep = (if peek name = CHR ''/'' then CHR ''/'' else CHR '','') in
      cnLoop sep (if sep = CHR ''/'' then snd (takeChar name) else name))"

definition saneCommonName :: "string \<Rightarrow> bool" where
  "saneCommonName name \<longleftrightarrow>
     name \<noteq> [] \<and> length name \<le> maxCommonNameBytes \<and>
     list_all (\<lambda>ch. 32 \<le> (of_char ch :: nat) \<and> (of_char ch :: nat) \<noteq> 127) name"

lemma untilAny_length: "untilAny stops cur = Some (a, rest) \<Longrightarrow> length rest \<le> length cur \<and> rest \<noteq> []"
  by (auto simp: untilAny_def dropWhile_eq_Nil_conv length_dropWhile_le split: if_splits)

lemma readQuoted_length: "readQuoted cur out = Some (v, rest) \<Longrightarrow> length rest < length cur"
  by (induction cur out rule: readQuoted.induct) (auto split: if_splits)

lemma readPairValue_length: "readPairValue cur = Some (v, rest) \<Longrightarrow> length rest \<le> length cur"
  by (auto simp: readPairValue_def takeChar_def split: if_splits option.splits list.splits
      dest: untilAny_length readQuoted_length)

function subjectLoop :: "string \<Rightarrow> string option" where
  "subjectLoop cur =
     (if cur = [] then None
      else
        (case untilAny {CHR ''=''} cur of
           None \<Rightarrow> None
         | Some (key, rest) \<Rightarrow>
             (case readPairValue (snd (takeChar rest)) of
                None \<Rightarrow> None
              | Some (val, rest') \<Rightarrow>
                  if key = ''Subject'' then
                    (case commonNameOfDn val of
                       None \<Rightarrow> None
                     | Some name \<Rightarrow> if saneCommonName name then Some name else None)
                  else if peek rest' \<noteq> CHR '';'' then None
                  else subjectLoop (snd (takeChar rest')))))"
  by pat_completeness auto
termination
proof (relation "measure length", goal_cases)
  case (2 cur p key rest q val rest')
  then have "length rest \<le> length cur" "rest \<noteq> []" by (auto dest: untilAny_length)
  then have "length (snd (takeChar rest)) < length cur" by (cases rest) (auto simp: takeChar_def)
  moreover have "length (snd (takeChar rest')) \<le> length rest'" by (simp add: takeChar_def split: list.split)
  moreover have "length rest' \<le> length (snd (takeChar rest))" using 2 by (auto dest: readPairValue_length)
  ultimately show ?case by simp
qed simp

declare subjectLoop.simps [simp del]

definition subjectCommonName :: "string \<Rightarrow> string option" where
  "subjectCommonName value =
     (if value = [] \<or> length value > maxHeaderBytes then None else subjectLoop value)"

record callCtx =
  peerCommonName :: "string option"
  metadata :: "(string \<times> string) list"

definition xfccHeader :: string where
  "xfccHeader = ''x-forwarded-client-cert''"

definition forwardedCommonName :: "callCtx \<Rightarrow> string option" where
  "forwardedCommonName ctx =
     (case filter (\<lambda>(k, v). k = xfccHeader) (metadata ctx) of
        [(_, v)] \<Rightarrow> subjectCommonName v
      | _ \<Rightarrow> None)"

definition addProxy :: "string \<Rightarrow> string list \<Rightarrow> exn + string list" where
  "addProxy pattern patterns =
     (if pattern = [] then Inl (NixError ''--trusted-proxy: empty pattern'') else Inr (patterns @ [pattern]))"

definition proxyMatches :: "(string \<Rightarrow> string \<Rightarrow> bool) \<Rightarrow> string list \<Rightarrow> string option \<Rightarrow> bool" where
  "proxyMatches fnm patterns cn =
     (case cn of
        None \<Rightarrow> False
      | Some name \<Rightarrow> saneCommonName name \<and> list_ex (\<lambda>pattern. fnm pattern name) patterns)"

section \<open>The decision\<close>

datatype callerKind = Anonymous | Named | BadToken

record caller =
  cname :: string
  crole :: "role option"
  ckind :: callerKind

record identity =
  subject :: string
  idRole :: "role option"   \<comment> \<open>\<open>None\<close>: verified, but no rule matched\<close>

record auth =
  aacl :: acl
  proxies :: "string list"

definition callerOfCert :: "(string \<Rightarrow> string \<Rightarrow> bool) \<Rightarrow> auth \<Rightarrow> string option \<Rightarrow> caller" where
  "callerOfCert fnm au cert =
     \<lparr>cname = (case cert of None \<Rightarrow> ''-'' | Some n \<Rightarrow> n), crole = roleFor fnm (aacl au) cert,
      ckind = (if cert = None then Anonymous else Named)\<rparr>"

text \<open>\<open>oidc\<close> is the configured verifier, if any, with the reader of the bearer token of a call;
  a verifier returns an identity or nothing.\<close>

definition identify :: "(string \<Rightarrow> string \<Rightarrow> bool) \<Rightarrow> auth \<Rightarrow> (string \<Rightarrow> identity option) option
    \<Rightarrow> (callCtx \<Rightarrow> string option) \<Rightarrow> callCtx \<Rightarrow> caller" where
  "identify fnm au oidc bearerToken ctx =
     (let cert = (if proxyMatches fnm (proxies au) (peerCommonName ctx) then forwardedCommonName ctx else peerCommonName ctx);
          certKnown = cert \<noteq> None \<and> roleFor fnm (aacl au) cert \<noteq> None
      in
      case (if certKnown then None else oidc) of
        None \<Rightarrow> callerOfCert fnm au cert
      | Some verify \<Rightarrow>
          (case bearerToken ctx of
             None \<Rightarrow> callerOfCert fnm au cert
           | Some token \<Rightarrow>
               (case verify token of
                  None \<Rightarrow> \<lparr>cname = ''-'', crole = None, ckind = BadToken\<rparr>
                | Some ident \<Rightarrow> \<lparr>cname = subject ident, crole = idRole ident, ckind = Named\<rparr>)))"

definition identifyDirect :: "(string \<Rightarrow> string \<Rightarrow> bool) \<Rightarrow> auth \<Rightarrow> callCtx \<Rightarrow> caller" where
  "identifyDirect fnm au ctx = callerOfCert fnm au (peerCommonName ctx)"

datatype status = OK | PermissionDenied string | Unauthenticated string

definition authorize :: "caller \<Rightarrow> string \<Rightarrow> role \<Rightarrow> status" where
  "authorize c meth minRole =
     (case crole c of
        Some r \<Rightarrow>
          if minRole \<le> r then OK
          else PermissionDenied (''role '' @ [CHR 0x27] @ roleName r @ [CHR 0x27] @ '' may not call '' @ meth)
      | None \<Rightarrow>
          (case ckind c of
             Anonymous \<Rightarrow> Unauthenticated ''server requires a TLS client certificate or bearer token''
           | BadToken \<Rightarrow> Unauthenticated ''bearer token rejected''
           | Named \<Rightarrow> PermissionDenied (''no access rule matches '' @ [CHR 0x27] @ cname c @ [CHR 0x27])))"

text \<open>The build mode for repairs is a constant of the Nix library.\<close>

definition authorizeBuild :: "nat \<Rightarrow> caller \<Rightarrow> string \<Rightarrow> role \<Rightarrow> nat \<Rightarrow> status" where
  "authorizeBuild bmRepair c meth minRole buildMode =
     (let st = authorize c meth minRole in
      if st = OK \<and> buildMode = bmRepair then authorize c (meth @ ''(repair)'') Trusted else st)"

section \<open>Distinguished names are read back as written\<close>

text \<open>How a proxy writes the header: pairs of a key and a plain or quoted value, separated by semicolons,
  and in the value of the Subject a distinguished name, its attributes separated by \<open>sep\<close>, with a
  backslash before every separator, backslash and quote inside one.  These are the reference of
  the theorem on reading, they translate no code.\<close>

definition escDn :: "char \<Rightarrow> string \<Rightarrow> string" where
  "escDn sep attr = concat (map (\<lambda>ch. if ch \<in> {sep, CHR 0x5C, CHR 0x22} then [CHR 0x5C, ch] else [ch]) attr)"

fun printDn :: "char \<Rightarrow> string list \<Rightarrow> string" where
  "printDn sep [] = []"
| "printDn sep [attr] = escDn sep attr"
| "printDn sep (attr # attrs) = escDn sep attr @ [sep] @ printDn sep attrs"

definition printSubject :: "char \<Rightarrow> string list \<Rightarrow> string" where
  "printSubject sep attrs = (if sep = CHR ''/'' then ''/'' else []) @ printDn sep attrs"

datatype pairValue = Plain string | Quoted string

definition printPair :: "string \<times> pairValue \<Rightarrow> string" where
  "printPair p = fst p @ ''='' @
     (case snd p of Plain v \<Rightarrow> v | Quoted v \<Rightarrow> [CHR 0x22] @ escDn (CHR 0x22) v @ [CHR 0x22])"

definition otherPair :: "string \<times> pairValue \<Rightarrow> bool" where
  "otherPair p \<longleftrightarrow> fst p \<noteq> ''Subject'' \<and> CHR ''='' \<notin> set (fst p) \<and>
     (case snd p of
        Plain v \<Rightarrow> peek v \<noteq> CHR 0x22 \<and> CHR '';'' \<notin> set v \<and> CHR '','' \<notin> set v
      | Quoted _ \<Rightarrow> True)"

definition printPairs :: "(string \<times> pairValue) list \<Rightarrow> string" where
  "printPairs ps = concat (map (\<lambda>p. printPair p @ '';'') ps)"

definition isCn :: "string \<Rightarrow> bool" where
  "isCn attr \<longleftrightarrow> take 3 attr = ''CN='' \<or> take 3 attr = ''cn=''"

lemma readAttr_plain:
  "ch \<noteq> sep \<Longrightarrow> ch \<noteq> CHR 0x5C \<Longrightarrow> readAttr sep (ch # rest) attr = readAttr sep rest (attr @ [ch])"
  by (cases rest) simp_all

lemma readAttr_esc:
  assumes "sep \<noteq> CHR 0x5C"
  shows "readAttr sep (escDn sep a @ rest) attr = readAttr sep rest (attr @ a)"
  using assms by (induction a arbitrary: attr) (auto simp: escDn_def readAttr_plain)

lemma readQuoted_plain:
  "ch \<noteq> CHR 0x22 \<Longrightarrow> ch \<noteq> CHR 0x5C \<Longrightarrow> rest \<noteq> [] \<Longrightarrow> readQuoted (ch # rest) out = readQuoted rest (out @ [ch])"
  by (cases rest) simp_all

lemma readQuoted_end: "readQuoted (CHR 0x22 # rest) out = Some (out, rest)"
  by (cases rest) simp_all

lemma readQuoted_esc: "rest \<noteq> [] \<Longrightarrow> readQuoted (escDn sep a @ rest) out = readQuoted rest (out @ escDn sep a)"
  by (induction a arbitrary: out) (auto simp: escDn_def readQuoted_plain)

lemma readQuoted_dn:
  assumes "sep \<noteq> CHR 0x22" and "sep \<noteq> CHR 0x5C"
  shows "readQuoted (printDn sep attrs @ CHR 0x22 # rest) out = Some (out @ printDn sep attrs, rest)"
  using assms
  by (induction sep attrs arbitrary: out rule: printDn.induct) (simp_all add: readQuoted_esc readQuoted_plain readQuoted_end)

lemma readQuoted_subject:
  assumes "sep \<noteq> CHR 0x22" and "sep \<noteq> CHR 0x5C"
  shows "readQuoted (printSubject sep attrs @ CHR 0x22 # rest) [] = Some (printSubject sep attrs, rest)"
  using readQuoted_dn [OF assms] by (auto simp: printSubject_def readQuoted_plain)

lemma cnLoop_dn:
  assumes "sep \<noteq> CHR 0x5C"
  shows "cnLoop sep (printDn sep attrs) = map_option (drop 3) (find isCn attrs)"
  using assms
proof (induction sep attrs rule: printDn.induct)
  case (1 sep)
  show ?case by (simp add: cnLoop.simps)
next
  case (2 sep attr)
  have "escDn sep attr = [] \<Longrightarrow> attr = []" by (cases attr) (auto simp: escDn_def split: if_splits)
  then show ?case
    using readAttr_esc [OF 2, of attr "[]" "[]"]
    by (auto simp: cnLoop.simps [of _ "escDn _ _"] isCn_def takeChar_def cnLoop.simps [of _ "[]"])
next
  case (3 sep attr b attrs)
  have "readAttr sep (escDn sep attr @ [sep] @ printDn sep (b # attrs)) [] = (attr, sep # printDn sep (b # attrs))"
    using readAttr_esc [OF 3(2), of attr "[sep] @ printDn sep (b # attrs)" "[]"]
    by (cases "printDn sep (b # attrs)") simp_all
  then show ?case using 3 by (auto simp: cnLoop.simps [of _ "escDn _ _ @ _"] isCn_def takeChar_def)
qed

lemma commonName_subject:
  assumes "sep \<in> {CHR '','', CHR ''/''}" and "sep = CHR '','' \<longrightarrow> take 1 (hd attrs) \<noteq> ''/''" and "attrs \<noteq> []"
  shows "commonNameOfDn (printSubject sep attrs) = map_option (drop 3) (find isCn attrs)"
proof (cases "sep = CHR ''/''")
  case True
  then show ?thesis using cnLoop_dn [of sep attrs] by (simp add: commonNameOfDn_def printSubject_def peek_def takeChar_def)
next
  case False
  then have sep: "sep = CHR '',''" using assms(1) by simp
  obtain a as where attrs: "attrs = a # as" using assms(3) by (cases attrs) auto
  have "peek (printDn sep attrs) \<noteq> CHR ''/''"
    using assms(2) sep attrs by (cases as; cases a) (auto simp: peek_def escDn_def)
  then show ?thesis using cnLoop_dn [of sep attrs] sep by (simp add: commonNameOfDn_def printSubject_def)
qed

lemma untilAny_hit: "set a \<inter> stops = {} \<Longrightarrow> ch \<in> stops \<Longrightarrow> untilAny stops (a @ ch # rest) = Some (a, ch # rest)"
proof -
  assume a: "set a \<inter> stops = {}" and ch: "ch \<in> stops"
  have "takeWhile (\<lambda>ch. ch \<notin> stops) (a @ ch # rest) = a" "dropWhile (\<lambda>ch. ch \<notin> stops) (a @ ch # rest) = ch # rest"
    using a ch by (subst takeWhile_append2 dropWhile_append2; auto)+
  with ch show ?thesis by (auto simp: untilAny_def)
qed

lemma readPairValue_other:
  assumes "otherPair (k, v)"
  shows "\<exists>val. readPairValue (drop (Suc (length k)) (printPair (k, v)) @ CHR '';'' # rest) = Some (val, CHR '';'' # rest)"
proof (cases v)
  case (Plain x)
  then have "set x \<inter> {CHR '';'', CHR '',''} = {}" "peek (x @ CHR '';'' # rest) \<noteq> CHR 0x22"
    using assms by (cases x; auto simp: otherPair_def peek_def)+
  then show ?thesis using Plain untilAny_hit [of x "{CHR '';'', CHR '',''}" "CHR '';''" rest]
    by (simp add: printPair_def readPairValue_def)
next
  case (Quoted x)
  then show ?thesis by (simp add: printPair_def readPairValue_def peek_def takeChar_def readQuoted_esc readQuoted_end)
qed

lemma subjectLoop_other:
  assumes "otherPair p"
  shows "subjectLoop (printPair p @ CHR '';'' # rest) = subjectLoop rest"
proof -
  obtain k v where p: "p = (k, v)" by (cases p)
  let ?v = "drop (Suc (length k)) (printPair (k, v)) @ CHR '';'' # rest"
  have pp: "printPair p @ CHR '';'' # rest = k @ CHR ''='' # ?v" by (simp add: p printPair_def)
  have "untilAny {CHR ''=''} (k @ CHR ''='' # ?v) = Some (k, CHR ''='' # ?v)"
    using assms by (intro untilAny_hit) (auto simp: p otherPair_def)
  moreover obtain val where "readPairValue ?v = Some (val, CHR '';'' # rest)"
    using readPairValue_other [of k v rest] assms p by blast
  moreover have "k \<noteq> ''Subject''" using assms by (simp add: p otherPair_def)
  ultimately show ?thesis unfolding pp by (simp add: subjectLoop.simps [of "k @ _"] takeChar_def peek_def)
qed

lemma subjectLoop_others: "list_all otherPair ps \<Longrightarrow> subjectLoop (printPairs ps @ rest) = subjectLoop rest"
  by (induction ps) (simp_all add: printPairs_def subjectLoop_other)

text \<open>C27: A name forwarded by a proxy is read back as it was written.  Take a header with any pairs
  before the Subject, each plain or quoted, and with a quoted distinguished name as the Subject,
  in the form with commas or in the older form with slashes.  Then the common name found is that
  of the first CN attribute, if it is a sane one, and otherwise there is none.  No comma, slash,
  quote or backslash inside an attribute can make another attribute of it, nothing in the pairs
  before is taken for the Subject, and what follows it does not matter.  Assumed: the header is
  within its size limit, and a name in the form with commas does not begin with a slash, which
  is how the reader tells the two forms apart.  A Subject that is not quoted is not covered.\<close>

theorem subject_roundtrip:
  assumes "length header \<le> maxHeaderBytes" and "list_all otherPair ps"
    and "sep \<in> {CHR '','', CHR ''/''}" and "sep = CHR '','' \<longrightarrow> take 1 (hd attrs) \<noteq> ''/''" and "attrs \<noteq> []"
    and "header = printPairs ps @ ''Subject='' @ [CHR 0x22] @ printSubject sep attrs @ [CHR 0x22] @ rest"
  shows "subjectCommonName header =
    (case find isCn attrs of
       None \<Rightarrow> None
     | Some attr \<Rightarrow> if saneCommonName (drop 3 attr) then Some (drop 3 attr) else None)"
proof -
  let ?v = "CHR 0x22 # printSubject sep attrs @ CHR 0x22 # rest"
  have key: "untilAny {CHR ''=''} (''Subject='' @ ?v) = Some (''Subject'', CHR ''='' # ?v)"
    by (simp add: untilAny_def)
  have "readPairValue ?v = Some (printSubject sep attrs, rest)"
    using readQuoted_subject [of sep attrs rest] assms(3) by (auto simp: readPairValue_def peek_def takeChar_def)
  then have "subjectLoop (''Subject='' @ ?v) =
    (case find isCn attrs of None \<Rightarrow> None | Some attr \<Rightarrow> if saneCommonName (drop 3 attr) then Some (drop 3 attr) else None)"
    using commonName_subject [OF assms(3-5)]
    by (simp add: subjectLoop.simps [of "''Subject='' @ ?v"] key takeChar_def del: append_Cons append.simps split: option.split)
  moreover have "header \<noteq> []" "header = printPairs ps @ ''Subject='' @ ?v" by (simp_all add: assms(6))
  ultimately show ?thesis using assms(1) subjectLoop_others [OF assms(2)] by (simp add: subjectCommonName_def)
qed

definition demoPairs :: "(string \<times> pairValue) list" where
  "demoPairs = [(''By'', Plain ''spiffe://lb''), (''Cert'', Quoted '';Subject=CN=root'')]"

theorem subject_roundtrip_witness:
  "subjectCommonName (printPairs demoPairs @ ''Subject='' @ [CHR 0x22] @
     printSubject (CHR '','') [''O=x,CN=admin'', ''CN=ci-1''] @ [CHR 0x22] @ '';URI=u'') = Some ''ci-1''"
  using subject_roundtrip [of "printPairs demoPairs @ ''Subject='' @ [CHR 0x22] @
      printSubject (CHR '','') [''O=x,CN=admin'', ''CN=ci-1''] @ [CHR 0x22] @ '';URI=u''" demoPairs "CHR '',''"
      "[''O=x,CN=admin'', ''CN=ci-1'']" "'';URI=u''"]
  by (simp add: demoPairs_def printPairs_def printPair_def otherPair_def peek_def printSubject_def escDn_def
      maxHeaderBytes_def isCn_def saneCommonName_def maxCommonNameBytes_def)

section \<open>Access\<close>

lemma subjectLoop_sane: "subjectLoop cur = Some n \<Longrightarrow> saneCommonName n"
proof (induction cur rule: subjectLoop.induct)
  case (1 cur)
  from 1(2) show ?case
    by (subst (asm) subjectLoop.simps) (auto split: if_splits option.splits prod.splits dest: 1(1))
qed

lemma forwarded_sane: "forwardedCommonName ctx = Some n \<Longrightarrow> saneCommonName n"
  by (auto simp: forwardedCommonName_def subjectCommonName_def subjectLoop_sane split: list.splits prod.splits if_splits)

text \<open>C28: The forwarded-certificate header means nothing unless a trusted proxy sent it: for any other
  peer two calls with the same certificate and the same bearer token are the same caller,
  whatever their headers; and a name that was forwarded is never empty, never longer than 256
  bytes and has no control characters.\<close>

theorem identify_ignores_untrusted_header:
  assumes "\<not> proxyMatches fnm (proxies au) (peerCommonName ctx)"
    and "peerCommonName ctx' = peerCommonName ctx" and "bearerToken ctx' = bearerToken ctx"
  shows "identify fnm au oidc bearerToken ctx' = identify fnm au oidc bearerToken ctx \<and>
    (\<forall>name. forwardedCommonName ctx = Some name \<longrightarrow> saneCommonName name)"
  using assms(1) forwarded_sane [of ctx] unfolding identify_def assms(2,3) by simp

definition demoCtx :: "string \<Rightarrow> callCtx" where
  "demoCtx header = \<lparr>peerCommonName = Some ''mallory'', metadata = [(xfccHeader, header)]\<rparr>"

theorem identify_ignores_untrusted_header_witness:
  "identify (\<lambda>p n. p = n) \<lparr>aacl = acl0\<lparr>rules := [(''ci'', Trusted)]\<rparr>, proxies = [''envoy'']\<rparr> None (\<lambda>_. None) (demoCtx ''Subject=CN=ci'') =
   identify (\<lambda>p n. p = n) \<lparr>aacl = acl0\<lparr>rules := [(''ci'', Trusted)]\<rparr>, proxies = [''envoy'']\<rparr> None (\<lambda>_. None) (demoCtx [])"
proof -
  have "\<not> proxyMatches (\<lambda>p n. p = n) [''envoy''] (peerCommonName (demoCtx []))"
    by (simp add: proxyMatches_def demoCtx_def)
  then show ?thesis
    using identify_ignores_untrusted_header [of "\<lambda>p n. p = n"
        "\<lparr>aacl = acl0\<lparr>rules := [(''ci'', Trusted)]\<rparr>, proxies = [''envoy'']\<rparr>" "demoCtx []" "demoCtx ''Subject=CN=ci''" "\<lambda>_. None" None]
    by (simp add: demoCtx_def)
qed

lemma roleFor_trusted:
  assumes "roleFor fnm a cn = Some Trusted"
  shows "clientsTrusted a \<and> rules a = [] \<or> cn = None \<and> anonRole a = Some Trusted \<or>
    (\<exists>name pattern. cn = Some name \<and> (pattern, Trusted) \<in> set (rules a) \<and> fnm pattern name)"
proof (cases cn)
  case None
  with assms show ?thesis by (auto simp: roleFor_def capped_def less_eq_role_def min_def split: if_splits)
next
  case (Some name)
  show ?thesis
  proof (cases "rules a = []")
    case True
    with assms Some show ?thesis by (auto simp: roleFor_def capped_def less_eq_role_def min_def split: if_splits)
  next
    case False
    with assms Some obtain p where "find (\<lambda>(pattern, r). fnm pattern name) (rules a) = Some p" "snd p = Trusted"
      by (auto simp: roleFor_def split: if_splits)
    then have "p \<in> set (rules a)" "(\<lambda>(pattern, r). fnm pattern name) p" by (metis find_Some_iff nth_mem)+
    with Some \<open>snd p = Trusted\<close> show ?thesis by (cases p) auto
  qed
qed

definition certOf :: "(string \<Rightarrow> string \<Rightarrow> bool) \<Rightarrow> auth \<Rightarrow> callCtx \<Rightarrow> string option" where
  "certOf fnm au ctx =
     (if proxyMatches fnm (proxies au) (peerCommonName ctx) then forwardedCommonName ctx else peerCommonName ctx)"

lemma identify_role:
  "crole (identify fnm au oidc bearerToken ctx) = Some r \<Longrightarrow>
    roleFor fnm (aacl au) (certOf fnm au ctx) = Some r \<or>
    (\<exists>verify token ident. oidc = Some verify \<and> bearerToken ctx = Some token \<and> verify token = Some ident \<and>
       idRole ident = Some r \<and> (certOf fnm au ctx = None \<or> roleFor fnm (aacl au) (certOf fnm au ctx) = None))"
  unfolding identify_def Let_def certOf_def [symmetric]
  by (auto simp: callerOfCert_def split: option.splits if_splits)

text \<open>A certificate decides only when a rule matches its name: without one, the token does.\<close>

lemma token_over_unmatched_cert:
  assumes "\<not> proxyMatches fnm (proxies au) (peerCommonName ctx)" and "peerCommonName ctx = Some cn"
    and "roleFor fnm (aacl au) (Some cn) = None" and "bearerToken ctx = Some token" and "verify token = Some ident"
  shows "identify fnm au (Some verify) bearerToken ctx = \<lparr>cname = subject ident, crole = idRole ident, ckind = Named\<rparr>"
  using assms by (simp add: identify_def)

text \<open>C29: Nobody is trusted by accident.  The name of a caller is that of its own certificate, or, when
  that is a trusted proxy's, the forwarded one.  A caller that may repair a store path, or do
  anything that needs the trusted role, was granted it in one of four ways: by the verified
  identity of its bearer token, and then its name, if it has one, has no role; by a rule that
  gives the trusted role to its name; by the explicit anonymous role, and then it has no name at
  all; or because all clients are trusted, and then there are no rules.  And once there are
  rules, a caller without a name gets nothing from them, not even from a pattern that matches
  every name.\<close>

theorem trusted_is_granted:
  assumes "authorizeBuild repair (identify fnm au oidc bearerToken ctx) meth minRole mode = OK"
    and "minRole = Trusted \<or> mode = repair"
    and "cert = (if proxyMatches fnm (proxies au) (peerCommonName ctx) then forwardedCommonName ctx else peerCommonName ctx)"
  shows "((\<exists>verify token ident. oidc = Some verify \<and> bearerToken ctx = Some token \<and> verify token = Some ident \<and>
        idRole ident = Some Trusted \<and> (cert = None \<or> roleFor fnm (aacl au) cert = None)) \<or>
     (\<exists>name pattern. cert = Some name \<and> (pattern, Trusted) \<in> set (rules (aacl au)) \<and> fnm pattern name) \<or>
     (cert = None \<and> anonRole (aacl au) = Some Trusted) \<or>
     (clientsTrusted (aacl au) \<and> rules (aacl au) = [])) \<and>
    (rules (aacl au) \<noteq> [] \<longrightarrow> roleFor fnm (aacl au) None = anonRole (aacl au))"
proof -
  have cert: "certOf fnm au ctx = cert" by (simp add: certOf_def assms(3))
  have top: "Trusted \<le> r \<longleftrightarrow> r = Trusted" for r by (simp add: less_eq_role_def)
  have "crole (identify fnm au oidc bearerToken ctx) = Some Trusted"
    using assms(1,2) by (auto simp: authorizeBuild_def authorize_def Let_def top split: option.splits if_splits callerKind.splits)
  from identify_role [OF this] have "roleFor fnm (aacl au) cert = Some Trusted \<or>
    (\<exists>verify token ident. oidc = Some verify \<and> bearerToken ctx = Some token \<and> verify token = Some ident \<and>
       idRole ident = Some Trusted \<and> (cert = None \<or> roleFor fnm (aacl au) cert = None))"
    by (simp only: cert)
  moreover have "rules (aacl au) \<noteq> [] \<longrightarrow> roleFor fnm (aacl au) None = anonRole (aacl au)" by (simp add: roleFor_def)
  ultimately show ?thesis using roleFor_trusted [of fnm "aacl au" cert] by blast
qed

theorem trusted_is_granted_witness:
  "authorizeBuild 1 (identify (\<lambda>p n. p = n) \<lparr>aacl = acl0\<lparr>rules := [(''ci'', Trusted)]\<rparr>, proxies = []\<rparr> None (\<lambda>_. None)
     \<lparr>peerCommonName = Some ''ci'', metadata = []\<rparr>) ''BuildDerivation'' Write 1 = OK \<and>
   (\<exists>pattern. (pattern, Trusted) \<in> set [(''ci'', Trusted)] \<and> pattern = ''ci'')"
proof -
  let ?au = "\<lparr>aacl = acl0\<lparr>rules := [(''ci'', Trusted)]\<rparr>, proxies = []\<rparr>"
  have ok: "authorizeBuild 1 (identify (\<lambda>p n. p = n) ?au None (\<lambda>_. None) \<lparr>peerCommonName = Some ''ci'', metadata = []\<rparr>) ''BuildDerivation'' Write 1 = OK"
    by (simp add: identify_def proxyMatches_def roleFor_def callerOfCert_def authorizeBuild_def authorize_def less_eq_role_def acl0_def)
  from trusted_is_granted [OF ok _ refl] ok show ?thesis by (simp add: acl0_def proxyMatches_def)
qed

text \<open>C40: A call is let through exactly when the caller has a role of at least the method's, and for a
  repair the trusted role; and a refused caller is asked to authenticate exactly when it has no
  role and came without certificate or with a token that was rejected.\<close>

theorem authorize_exact:
  "(authorizeBuild repair c meth minRole mode = OK \<longleftrightarrow>
     (\<exists>r. crole c = Some r \<and> minRole \<le> r \<and> \<not> (mode = repair \<and> r \<noteq> Trusted))) \<and>
   ((\<exists>why. authorizeBuild repair c meth minRole mode = Unauthenticated why) \<longleftrightarrow> crole c = None \<and> ckind c \<noteq> Named)"
  by (auto simp: authorizeBuild_def authorize_def Let_def less_eq_role_def split: option.splits callerKind.splits role.splits if_splits)

end
