(* ===== verification/Oidc.thy ===== *)
theory Oidc
  imports Access
begin

text \<open>
  Bearer tokens (\<^verbatim>\<open>src/daemon/oidc.hh\<close>): the configuration of providers and their rules, which
  claims of a token satisfy a rule, which keys may verify it, and the identity it stands for.

  JSON values are a datatype, with the accessors of the JSON library the source uses by their
  documented behaviour: a missing key gives the default, a value of another type throws.
  What other libraries do is in the parameter \<open>lib\<close>: decoding a token, checking it against
  a verifier, making a public key of its components, printing a JSON value, reading the
  issuer of a token file, and fetching a URL.  \<open>fnmatch\<close> is the parameter \<open>fnm\<close>.  The signing
  keys of the providers are the state; clocks are arguments, in seconds.
\<close>

section \<open>JSON\<close>

datatype json = JNull | JBool bool | JNum int | JStr string | JArr "json list" | JObj "(string \<times> json) list"

definition typeError :: exn where
  "typeError = NixError ''type error''"

definition jget :: "json \<Rightarrow> string \<Rightarrow> exn + json option" where
  "jget j key = (case j of JObj kvs \<Rightarrow> Inr (map_of kvs key) | _ \<Rightarrow> Inl typeError)"

definition asStr :: "json \<Rightarrow> exn + string" where
  "asStr j = (case j of JStr s \<Rightarrow> Inr s | _ \<Rightarrow> Inl typeError)"

definition asStrs :: "json \<Rightarrow> exn + string list" where
  "asStrs j = (case j of JArr js \<Rightarrow> emap asStr js | _ \<Rightarrow> Inl typeError)"

definition jvalue :: "(json \<Rightarrow> exn + 'a) \<Rightarrow> json \<Rightarrow> string \<Rightarrow> 'a \<Rightarrow> exn + 'a" where
  "jvalue conv j key dflt = ebnd (jget j key) (\<lambda>v. case v of None \<Rightarrow> Inr dflt | Some x \<Rightarrow> conv x)"

definition jat :: "json \<Rightarrow> string \<Rightarrow> exn + json" where
  "jat j key = ebnd (jget j key) (\<lambda>v. case v of None \<Rightarrow> Inl OutOfRange | Some x \<Rightarrow> Inr x)"

definition jcontains :: "json \<Rightarrow> string \<Rightarrow> bool" where
  "jcontains j key = (case j of JObj kvs \<Rightarrow> map_of kvs key \<noteq> None | _ \<Rightarrow> False)"

text \<open>Iterating over a value, and \<open>items()\<close>, which names the elements.\<close>

definition jitems :: "json \<Rightarrow> (string \<times> json) list" where
  "jitems j =
     (case j of
        JNull \<Rightarrow> []
      | JObj kvs \<Rightarrow> kvs
      | JArr js \<Rightarrow> zip (map decimal [0..<length js]) js
      | _ \<Rightarrow> [([], j)])"

section \<open>Configuration\<close>

record oidcRule =
  boundClaims :: "(string \<times> string list) list"
  ruleRole :: role

record provider =
  pname :: string
  issuer :: string
  jwksUrl :: string
  audience :: string
  caFile :: string
  bearerTokenFile :: string
  prules :: "oidcRule list"

record oidcConfig =
  providers :: "provider list"
  allowInsecure :: bool

record decodedToken =
  tokIssuer :: "string option"
  tokAlg :: "string option"
  tokKid :: "string option"
  tokExp :: "int option"
  tokPayload :: json

record verifierSpec =
  vIssuer :: string
  vAudience :: string
  vLeeway :: nat
  vAlg :: string
  vPem :: string
  vNow :: int

record oidcLib =
  jwtDecode :: "string \<Rightarrow> decodedToken option"
  jwtVerify :: "verifierSpec \<Rightarrow> decodedToken \<Rightarrow> string option"   \<comment> \<open>\<open>None\<close>: accepted, else the error\<close>
  rsaPem :: "string \<Rightarrow> string \<Rightarrow> string option"
  ecPem :: "string \<Rightarrow> string \<Rightarrow> string \<Rightarrow> string option"
  base64urlDecode :: "string \<Rightarrow> string option"   \<comment> \<open>padding included; \<open>None\<close>: it throws\<close>
  ed25519PublicKey :: "string \<Rightarrow> string option"   \<comment> \<open>OpenSSL: the raw key as PEM, \<open>None\<close> when it refuses it\<close>
  jsonDump :: "json \<Rightarrow> string"
  readTokenFile :: "string \<Rightarrow> exn + string"
  httpGet :: "provider \<Rightarrow> string \<Rightarrow> exn + json"

definition maxTokenBytes :: nat where
  "maxTokenBytes = 16 * 1024"

definition parseToken :: "oidcLib \<Rightarrow> string \<Rightarrow> decodedToken option" where
  "parseToken lib token = (if token = [] \<or> length token > maxTokenBytes then None else jwtDecode lib token)"

definition scopeRole :: "string \<Rightarrow> exn + role" where
  "scopeRole scope =
     (if scope = ''read'' then Inr ReadOnly
      else if scope = ''write'' then Inr Write
      else if scope = ''admin'' then Inr Trusted
      else Inl (NixError (''unknown OIDC scope '' @ scope)))"

definition asClaims :: "json \<Rightarrow> exn + (string \<times> string list) list" where
  "asClaims j =
     (case j of
        JObj kvs \<Rightarrow> emap (\<lambda>(key, v). ebnd (asStrs v) (\<lambda>strs. Inr (key, strs))) kvs
      | _ \<Rightarrow> Inl typeError)"

definition ruleFrom :: "json \<Rightarrow> exn + oidcRule" where
  "ruleFrom j =
     ebnd (jvalue asClaims j ''bound_claims'' []) (\<lambda>claims.
     ebnd (jvalue asStrs j ''bound_subject'' []) (\<lambda>sub.
     ebnd (jvalue asStrs j ''scopes'' [''write'']) (\<lambda>scopes.
     if scopes = [] then Inl (NixError ''OIDC rule: scopes must not be empty'')
     else
       ebnd (emap scopeRole scopes) (\<lambda>roles.
       Inr \<lparr>boundClaims = (if sub = [] then claims else AList.update ''sub'' sub claims),
            ruleRole = foldl max ReadOnly roles\<rparr>))))"

definition issuerFromTokenFile :: "oidcLib \<Rightarrow> string \<Rightarrow> exn + string" where
  "issuerFromTokenFile lib path =
     ebnd (readTokenFile lib path) (\<lambda>content.
     case parseToken lib content of
       None \<Rightarrow> Inl (NixError (path @ '': not a JWT with an issuer''))
     | Some tok \<Rightarrow> (case tokIssuer tok of None \<Rightarrow> Inl (NixError (path @ '': not a JWT with an issuer'')) | Some iss \<Rightarrow> Inr iss))"

definition isHttps :: "string \<Rightarrow> bool" where
  "isHttps url \<longleftrightarrow> take 8 url = ''https://''"

definition urlOk :: "bool \<Rightarrow> string \<Rightarrow> bool" where
  "urlOk insecure url \<longleftrightarrow> url = [] \<or> isHttps url \<or> insecure"

definition providerRules :: "string \<Rightarrow> json \<Rightarrow> exn + oidcRule list" where
  "providerRules name prov =
     (if \<not> jcontains prov ''rules'' then ebnd (ruleFrom prov) (\<lambda>rule. Inr [rule])
      else if jcontains prov ''bound_claims'' \<or> jcontains prov ''bound_subject'' \<or> jcontains prov ''scopes'' then
        Inl (NixError (''OIDC provider '' @ name @ '': rules exclude top-level bound_*/scopes''))
      else
        ebnd (jat prov ''rules'') (\<lambda>rs.
        emap (\<lambda>rule. if \<not> jcontains rule ''scopes'' then Inl (NixError (''OIDC provider '' @ name @ '': every rule needs scopes''))
                     else ruleFrom rule) (map snd (jitems rs))))"

definition providerFrom :: "oidcLib \<Rightarrow> string \<Rightarrow> json \<Rightarrow> bool \<Rightarrow> exn + provider" where
  "providerFrom lib name prov insecure =
     ebnd (jvalue asStr prov ''issuer'' []) (\<lambda>iss.
     ebnd (jvalue asStr prov ''jwks_url'' []) (\<lambda>jwks.
     ebnd (ebnd (jat prov ''audience'') asStr) (\<lambda>aud.
     ebnd (jvalue asStr prov ''ca_file'' []) (\<lambda>ca.
     ebnd (jvalue asStr prov ''bearer_token_file'' []) (\<lambda>btf.
     ebnd (if iss = [] \<and> btf \<noteq> [] then issuerFromTokenFile lib btf else Inr iss) (\<lambda>iss.
     if iss = [] \<or> aud = [] then Inl (NixError (''OIDC provider '' @ name @ '': issuer and audience are required''))
     else case find (\<lambda>url. \<not> urlOk insecure url) [iss, jwks] of
       Some url \<Rightarrow> Inl (NixError (''OIDC provider '' @ name @ '': '' @ url @ '' must be https''))
     | None \<Rightarrow>
       ebnd (providerRules name prov) (\<lambda>rs.
       Inr \<lparr>pname = name, issuer = iss, jwksUrl = jwks, audience = aud, caFile = ca, bearerTokenFile = btf, prules = rs\<rparr>)))))))"

fun loadProviders :: "oidcLib \<Rightarrow> bool \<Rightarrow> (string \<times> json) list \<Rightarrow> provider list \<Rightarrow> exn + provider list" where
  "loadProviders lib insecure [] ps = Inr ps"
| "loadProviders lib insecure ((name, prov) # rest) ps =
     ebnd (providerFrom lib name prov insecure) (\<lambda>p.
     if list_ex (\<lambda>other. issuer other = issuer p) ps then Inl (NixError (''providers share issuer '' @ issuer p))
     else loadProviders lib insecure rest (ps @ [p]))"

text \<open>\<open>loadConfig\<close> after the file is parsed; every other exception is turned into a \<open>nix::Error\<close>.\<close>

definition asBool :: "json \<Rightarrow> exn + bool" where
  "asBool j = (case j of JBool b \<Rightarrow> Inr b | _ \<Rightarrow> Inl typeError)"

definition loadConfig :: "oidcLib \<Rightarrow> json \<Rightarrow> exn + oidcConfig" where
  "loadConfig lib j =
     ebnd (jvalue asBool j ''allow_insecure'' False) (\<lambda>insecure.
     ebnd (jat j ''providers'') (\<lambda>ps.
     ebnd (loadProviders lib insecure (jitems ps) []) (\<lambda>loaded.
     if loaded = [] then Inl (NixError ''no providers'')
     else Inr \<lparr>providers = loaded, allowInsecure = insecure\<rparr>)))"

section \<open>Claims and rules\<close>

definition globAny :: "(string \<Rightarrow> string \<Rightarrow> bool) \<Rightarrow> string list \<Rightarrow> string list \<Rightarrow> bool" where
  "globAny fnm patterns vals \<longleftrightarrow>
     list_ex (\<lambda>val. CHR 0x00 \<notin> set val \<and> list_ex (\<lambda>pat. fnm pat val) patterns) vals"

text \<open>The loop over prefixes: \<open>dot\<close> walks back over the dots of \<open>name\<close>.  \<open>rfindDot\<close> is
  \<open>name.rfind('.', dot - 1)\<close>.\<close>

definition rfindDot :: "string \<Rightarrow> nat \<Rightarrow> nat option" where
  "rfindDot name dot =
     (if dot = 0 then None
      else find (\<lambda>i. i < length name \<and> name ! i = CHR ''.'') (rev [0..<dot]))"

lemma rfindDot_less: "rfindDot name dot = Some d \<Longrightarrow> d < dot"
  by (auto simp: rfindDot_def find_Some_iff rev_nth split: if_splits)

function longestKey :: "(string \<times> json) list \<Rightarrow> string \<Rightarrow> nat \<Rightarrow> (nat \<times> json) option" where
  "longestKey kvs name dot =
     (case map_of kvs (take dot name) of
        Some v \<Rightarrow> Some (dot, v)
      | None \<Rightarrow> (case rfindDot name dot of None \<Rightarrow> None | Some d \<Rightarrow> longestKey kvs name d))"
  by pat_completeness auto
termination
  by (relation "measure (\<lambda>(kvs, name, dot). dot)") (auto dest: rfindDot_less)

declare longestKey.simps [simp del]

function lookupClaim :: "json \<Rightarrow> string \<Rightarrow> json option" where
  "lookupClaim cur name =
     (case cur of
        JObj kvs \<Rightarrow>
          if name = [] then None
          else
            (case longestKey kvs name (length name) of
               None \<Rightarrow> None
             | Some (dot, v) \<Rightarrow> if dot = length name then Some v else lookupClaim v (drop (dot + 1) name))
      | _ \<Rightarrow> None)"
  by pat_completeness auto
termination
  by (relation "measure (\<lambda>(cur, name). length name)") auto

declare lookupClaim.simps [simp del]

definition claimStrings :: "oidcLib \<Rightarrow> json \<Rightarrow> string list" where
  "claimStrings lib v =
     (case v of
        JStr s \<Rightarrow> [s]
      | JArr js \<Rightarrow> concat (map (\<lambda>item. case item of JStr s \<Rightarrow> [s] | _ \<Rightarrow> []) js)
      | _ \<Rightarrow> [jsonDump lib v])"

definition ruleMatches :: "(string \<Rightarrow> string \<Rightarrow> bool) \<Rightarrow> oidcLib \<Rightarrow> oidcRule \<Rightarrow> json \<Rightarrow> bool" where
  "ruleMatches fnm lib rule claims \<longleftrightarrow>
     list_all (\<lambda>(name, patterns). case lookupClaim claims name of None \<Rightarrow> False
       | Some v \<Rightarrow> globAny fnm patterns (claimStrings lib v)) (boundClaims rule)"

definition tokenRole :: "(string \<Rightarrow> string \<Rightarrow> bool) \<Rightarrow> oidcLib \<Rightarrow> provider \<Rightarrow> json \<Rightarrow> role option" where
  "tokenRole fnm lib prov claims =
     foldl (\<lambda>acc rule. if ruleMatches fnm lib rule claims
       then Some (case acc of None \<Rightarrow> ruleRole rule | Some r \<Rightarrow> max r (ruleRole rule)) else acc) None (prules prov)"

section \<open>Keys\<close>

record jwk =
  kid :: string
  kty :: string
  crv :: string
  pem :: string

text \<open>\<open>None\<close> is an exception, the empty string a key OpenSSL refuses.\<close>

definition ed25519Pem :: "oidcLib \<Rightarrow> string \<Rightarrow> string option" where
  "ed25519Pem lib xB64 =
     (case base64urlDecode lib xB64 of
        None \<Rightarrow> None
      | Some raw \<Rightarrow> Some (case ed25519PublicKey lib raw of None \<Rightarrow> [] | Some text \<Rightarrow> text))"

definition jwkPem :: "oidcLib \<Rightarrow> json \<Rightarrow> string \<Rightarrow> string \<Rightarrow> exn + string option" where
  "jwkPem lib j ty cv =
     (let str = (\<lambda>name. ebnd (jat j name) asStr) in
      if ty = ''RSA'' then ebnd (str ''n'') (\<lambda>n. ebnd (str ''e'') (\<lambda>e. Inr (rsaPem lib n e)))
      else if ty = ''EC'' then ebnd (str ''x'') (\<lambda>x. ebnd (str ''y'') (\<lambda>y. Inr (ecPem lib cv x y)))
      else if ty = ''OKP'' \<and> cv = ''Ed25519'' then ebnd (str ''x'') (\<lambda>x. Inr (ed25519Pem lib x))
      else Inr None)"

definition parseJwk :: "oidcLib \<Rightarrow> json \<Rightarrow> jwk option" where
  "parseJwk lib j =
     (case
        ebnd (jvalue asStr j ''use'' ''sig'') (\<lambda>use.
        if use \<noteq> ''sig'' then Inr None
        else
          ebnd (jvalue asStr j ''kid'' []) (\<lambda>k.
          ebnd (jvalue asStr j ''kty'' []) (\<lambda>ty.
          ebnd (jvalue asStr j ''crv'' []) (\<lambda>cv.
          ebnd (jwkPem lib j ty cv) (\<lambda>p.
          Inr (case p of None \<Rightarrow> None | Some text \<Rightarrow>
            if text = [] then None else Some \<lparr>kid = k, kty = ty, crv = cv, pem = text\<rparr>))))))
      of Inl _ \<Rightarrow> None | Inr r \<Rightarrow> r)"

definition allowKey :: "string \<Rightarrow> jwk \<Rightarrow> bool" where
  "allowKey alg key \<longleftrightarrow>
     alg \<in> {''RS256'', ''RS384'', ''RS512'', ''PS256'', ''PS384'', ''PS512''} \<and> kty key = ''RSA'' \<or>
     alg = ''ES256'' \<and> kty key = ''EC'' \<and> crv key = ''P-256'' \<or>
     alg = ''ES384'' \<and> kty key = ''EC'' \<and> crv key = ''P-384'' \<or>
     alg = ''ES512'' \<and> kty key = ''EC'' \<and> crv key = ''P-521'' \<or>
     alg = ''EdDSA'' \<and> kty key = ''OKP''"

definition clockSkewSecs :: nat where
  "clockSkewSecs = 60"

definition refetchAfter :: int where
  "refetchAfter = 60 * 60"

record keySet =
  skeys :: "jwk list"
  fetched :: "int option"
  attempted :: "int option"

record verifier =
  vconfig :: oidcConfig
  refetchOnMiss :: int
  keySets :: "keySet list"

definition newVerifier :: "oidcConfig \<Rightarrow> int \<Rightarrow> verifier" where
  "newVerifier cf miss = \<lparr>vconfig = cf, refetchOnMiss = miss,
     keySets = replicate (length (providers cf)) \<lparr>skeys = [], fetched = None, attempted = None\<rparr>\<rparr>"

definition oidcGet :: "oidcLib \<Rightarrow> oidcConfig \<Rightarrow> provider \<Rightarrow> string \<Rightarrow> exn + json" where
  "oidcGet lib cf prov url =
     (if \<not> isHttps url \<and> \<not> allowInsecure cf then Inl (NixError (''refusing non-https OIDC URL '' @ url))
      else httpGet lib prov url)"

definition stripSlashes :: "string \<Rightarrow> string" where
  "stripSlashes s = rev (dropWhile (\<lambda>ch. ch = CHR ''/'') (rev s))"

definition fetchKeys :: "oidcLib \<Rightarrow> oidcConfig \<Rightarrow> provider \<Rightarrow> exn + jwk list" where
  "fetchKeys lib cf prov =
     ebnd (if jwksUrl prov \<noteq> [] then Inr (jwksUrl prov)
           else ebnd (oidcGet lib cf prov (stripSlashes (issuer prov) @ ''/.well-known/openid-configuration'')) (\<lambda>j.
             ebnd (jat j ''jwks_uri'') asStr)) (\<lambda>url.
     ebnd (oidcGet lib cf prov url) (\<lambda>j.
     ebnd (jat j ''keys'') (\<lambda>ks.
     let fresh = List.map_filter (\<lambda>(_, k). parseJwk lib k) (jitems ks) in
     if fresh = [] then Inl (NixError (url @ '': no usable keys'')) else Inr fresh)))"

definition fetchDue :: "int option \<Rightarrow> int option \<Rightarrow> int \<Rightarrow> bool \<Rightarrow> int \<Rightarrow> bool" where
  "fetchDue ftch att now haveKey miss \<longleftrightarrow>
     \<not> (case att of None \<Rightarrow> False | Some t \<Rightarrow> now - t \<le> miss) \<and>
     (case ftch of None \<Rightarrow> True | Some t \<Rightarrow> \<not> haveKey \<or> now - t > refetchAfter)"

definition optStr :: "string option \<Rightarrow> string" where
  "optStr s = (case s of None \<Rightarrow> [] | Some t \<Rightarrow> t)"

definition pickKeys :: "provider \<Rightarrow> jwk list \<Rightarrow> decodedToken \<Rightarrow> int \<Rightarrow> verifierSpec list" where
  "pickKeys prov ks tok now =
     (let alg = optStr (tokAlg tok); wanted = optStr (tokKid tok) in
      map (\<lambda>key. \<lparr>vIssuer = issuer prov, vAudience = audience prov, vLeeway = clockSkewSecs, vAlg = alg, vPem = pem key, vNow = now\<rparr>)
        (filter (\<lambda>key. (wanted = [] \<or> kid key = wanted) \<and> allowKey alg key) ks))"

text \<open>\<open>mclk\<close> is the steady clock before a fetch, \<open>after\<close> when it ended.\<close>

definition candidates :: "oidcLib \<Rightarrow> oidcConfig \<Rightarrow> int \<Rightarrow> provider \<Rightarrow> keySet \<Rightarrow> decodedToken \<Rightarrow> int \<Rightarrow> int \<Rightarrow> int
    \<Rightarrow> (exn + verifierSpec list) \<times> keySet" where
  "candidates lib cf miss prov ks tok now mclk after =
     (let res = pickKeys prov (skeys ks) tok now;
          due = fetchDue (fetched ks) (attempted ks) mclk (res \<noteq> []) miss;
          ks' = (if due then
                   (case fetchKeys lib cf prov of
                      Inl _ \<Rightarrow> ks\<lparr>attempted := Some after\<rparr>
                    | Inr fresh \<Rightarrow> ks\<lparr>skeys := fresh, fetched := Some mclk, attempted := Some after\<rparr>)
                 else ks);
          res' = (if due then pickKeys prov (skeys ks') tok now else res)
      in (if res' = [] then Inl (NixError (''no signing keys for provider '' @ pname prov)) else Inr res', ks'))"

text \<open>The loop over the verifiers keeps the error of the last one it tried.\<close>

fun tryVerifiers :: "oidcLib \<Rightarrow> decodedToken \<Rightarrow> verifierSpec list \<Rightarrow> string option \<Rightarrow> string option" where
  "tryVerifiers lib tok [] err = err"
| "tryVerifiers lib tok (v # vs) err =
     (case jwtVerify lib v tok of None \<Rightarrow> None | Some e \<Rightarrow> tryVerifiers lib tok vs (Some e))"

definition tokenIdentity :: "(string \<Rightarrow> string \<Rightarrow> bool) \<Rightarrow> oidcLib \<Rightarrow> provider \<Rightarrow> decodedToken \<Rightarrow> identity option" where
  "tokenIdentity fnm lib prov tok =
     (case jvalue asStr (tokPayload tok) ''sub'' [] of
        Inl _ \<Rightarrow> None
      | Inr sub \<Rightarrow>
          if sub = [] \<or> CHR 0x00 \<in> set sub then None
          else Some \<lparr>subject = ''oidc:'' @ pname prov @ '':'' @ sub, idRole = tokenRole fnm lib prov (tokPayload tok)\<rparr>)"

definition indexOf :: "(provider \<Rightarrow> bool) \<Rightarrow> provider list \<Rightarrow> nat option" where
  "indexOf P ps = find (\<lambda>i. P (ps ! i)) [0..<length ps]"

definition verifyToken :: "(string \<Rightarrow> string \<Rightarrow> bool) \<Rightarrow> oidcLib \<Rightarrow> string \<Rightarrow> int \<Rightarrow> int \<Rightarrow> int \<Rightarrow> verifier
    \<Rightarrow> identity option \<times> verifier" where
  "verifyToken fnm lib token now mclk after vf =
     (case parseToken lib token of
        None \<Rightarrow> (None, vf)
      | Some tok \<Rightarrow>
          (case indexOf (\<lambda>p. issuer p = optStr (tokIssuer tok)) (providers (vconfig vf)) of
             None \<Rightarrow> (None, vf)
           | Some idx \<Rightarrow>
               if tokExp tok = None then (None, vf)
               else
                 (let prov = providers (vconfig vf) ! idx in
                  case candidates lib (vconfig vf) (refetchOnMiss vf) prov (keySets vf ! idx) tok now mclk after of
                    (r, ks) \<Rightarrow>
                      (let vf' = vf\<lparr>keySets := (keySets vf)[idx := ks]\<rparr> in
                       case r of
                         Inl _ \<Rightarrow> (None, vf')
                       | Inr vs \<Rightarrow>
                           if tryVerifiers lib tok vs None \<noteq> None then (None, vf')
                           else (tokenIdentity fnm lib prov tok, vf')))))"

definition bearerToken :: "callCtx \<Rightarrow> string option" where
  "bearerToken ctx =
     (case find (\<lambda>(k, v). k = ''authorization'') (metadata ctx) of
        None \<Rightarrow> None
      | Some (_, v) \<Rightarrow> if take 7 v \<noteq> ''Bearer '' \<or> length v = 7 then None else Some (drop 7 v))"

section \<open>What a verified token stands for\<close>

lemma tryVerifiers_ok:
  "tryVerifiers lib tok vs (Some e) = None \<Longrightarrow> \<exists>v \<in> set vs. jwtVerify lib v tok = None"
  by (induction vs arbitrary: e) (auto split: option.splits)

lemma tryVerifiers_start:
  "vs \<noteq> [] \<Longrightarrow> tryVerifiers lib tok vs None = None \<Longrightarrow> \<exists>v \<in> set vs. jwtVerify lib v tok = None"
  by (cases vs) (auto split: option.splits dest: tryVerifiers_ok)

lemma foldl_max_Some:
  "foldl (\<lambda>acc rule. if P rule then Some (case acc of None \<Rightarrow> f rule | Some r \<Rightarrow> max r (f rule)) else acc) (Some a) rs =
    Some (foldl max a (map f (filter P rs)))"
  by (induction rs arbitrary: a) simp_all

lemma foldl_max_None:
  "foldl (\<lambda>acc rule. if P rule then Some (case acc of None \<Rightarrow> f rule | Some r \<Rightarrow> max r (f rule)) else acc) None rs =
    (case map f (filter P rs) of [] \<Rightarrow> None | r # rest \<Rightarrow> Some (foldl max r rest))"
  by (induction rs) (simp_all add: foldl_max_Some)

lemma foldl_max: "foldl max a rs = Max (set (a # rs))" for a :: "'a::linorder"
proof -
  have "foldl max a rs = fold max rs a" by (simp add: foldl_conv_fold max.commute)
  then show ?thesis by (simp only: Max.set_eq_fold)
qed

lemma tokenRole_max:
  "tokenRole fnm lib prov claims =
    (let granted = ruleRole ` {rule \<in> set (prules prov). ruleMatches fnm lib rule claims} in
     if granted = {} then None else Some (Max granted))"
proof -
  let ?P = "\<lambda>rule. ruleMatches fnm lib rule claims"
  have set_eq: "set (map ruleRole (filter ?P (prules prov))) = ruleRole ` {rule \<in> set (prules prov). ?P rule}" by simp
  show ?thesis
  proof (cases "map ruleRole (filter ?P (prules prov))")
    case Nil
    then have "ruleRole ` {rule \<in> set (prules prov). ?P rule} = {}" using set_eq by simp
    with Nil show ?thesis by (simp add: tokenRole_def foldl_max_None Let_def del: image_is_empty)
  next
    case (Cons r rest)
    then have "ruleRole ` {rule \<in> set (prules prov). ?P rule} = set (r # rest)" using set_eq by simp
    with Cons show ?thesis unfolding tokenRole_def foldl_max_None foldl_max Let_def by simp
  qed
qed

lemma indexOf_Some: "indexOf P ps = Some i \<Longrightarrow> i < length ps \<and> P (ps ! i)"
  by (auto simp: indexOf_def find_Some_iff)

lemma candidates_keys:
  assumes "candidates lib cf miss prov ks tok now mclk after = (Inr vs, ks')"
  shows "vs \<noteq> [] \<and> vs = pickKeys prov (skeys ks') tok now"
  using assms by (auto simp: candidates_def Let_def split: if_splits sum.splits)

text \<open>C30: An identity is given only for a token that the issuer's provider vouches for: it names the
  issuer of a configured provider, has an expiry, and was accepted with that provider's issuer
  and audience, one minute of leeway and one of its current signing keys, of the key id the
  token names if it names one and of a type its algorithm fits.  The subject is not empty, has
  no NUL and is prefixed with the provider; the role is the highest of the rules that match.\<close>

theorem verified_identity:
  assumes "verifyToken fnm lib token now mclk after vf = (Some ident, vf')"
  shows "\<exists>tok idx key sub. parseToken lib token = Some tok \<and> idx < length (providers (vconfig vf)) \<and> tokExp tok \<noteq> None \<and>
    (let prov = providers (vconfig vf) ! idx;
         granted = ruleRole ` {rule \<in> set (prules prov). ruleMatches fnm lib rule (tokPayload tok)} in
      issuer prov = optStr (tokIssuer tok) \<and> (idx < length (keySets vf) \<longrightarrow> key \<in> set (skeys (keySets vf' ! idx))) \<and>
      (optStr (tokKid tok) = [] \<or> kid key = optStr (tokKid tok)) \<and> allowKey (optStr (tokAlg tok)) key \<and>
      jwtVerify lib \<lparr>vIssuer = issuer prov, vAudience = audience prov, vLeeway = 60, vAlg = optStr (tokAlg tok), vPem = pem key, vNow = now\<rparr> tok = None \<and>
      sub \<noteq> [] \<and> CHR 0x00 \<notin> set sub \<and> subject ident = ''oidc:'' @ pname prov @ '':'' @ sub \<and>
      idRole ident = (if granted = {} then None else Some (Max granted)))"
proof -
  obtain tok where tok: "parseToken lib token = Some tok" using assms by (auto simp: verifyToken_def split: option.splits)
  obtain idx where idx: "indexOf (\<lambda>p. issuer p = optStr (tokIssuer tok)) (providers (vconfig vf)) = Some idx"
    using assms tok by (auto simp: verifyToken_def split: option.splits)
  define prov where "prov = providers (vconfig vf) ! idx"
  have exp: "tokExp tok \<noteq> None" using assms by (auto simp: verifyToken_def tok idx split: if_splits)
  obtain r ks where cand: "candidates lib (vconfig vf) (refetchOnMiss vf) prov (keySets vf ! idx) tok now mclk after = (r, ks)" by fastforce
  have run: "(case r of Inl _ \<Rightarrow> (None, vf\<lparr>keySets := (keySets vf)[idx := ks]\<rparr>)
     | Inr vs \<Rightarrow> if tryVerifiers lib tok vs None \<noteq> None then (None, vf\<lparr>keySets := (keySets vf)[idx := ks]\<rparr>)
         else (tokenIdentity fnm lib prov tok, vf\<lparr>keySets := (keySets vf)[idx := ks]\<rparr>)) = (Some ident, vf')"
    using assms exp cand by (simp add: verifyToken_def tok idx prov_def [symmetric] Let_def)
  then obtain vs where vs: "r = Inr vs" "tryVerifiers lib tok vs None = None" "tokenIdentity fnm lib prov tok = Some ident"
    and vf': "vf' = vf\<lparr>keySets := (keySets vf)[idx := ks]\<rparr>" by (auto split: sum.splits if_splits)
  from candidates_keys [OF cand [unfolded vs(1)]] have pk: "vs \<noteq> []" "vs = pickKeys prov (skeys ks) tok now" by blast+
  from tryVerifiers_start [OF pk(1) vs(2)] obtain v where v: "v \<in> set vs" "jwtVerify lib v tok = None" by blast
  from v(1) obtain key where key: "key \<in> set (skeys ks)" "optStr (tokKid tok) = [] \<or> kid key = optStr (tokKid tok)"
    "allowKey (optStr (tokAlg tok)) key"
    "v = \<lparr>vIssuer = issuer prov, vAudience = audience prov, vLeeway = 60, vAlg = optStr (tokAlg tok), vPem = pem key, vNow = now\<rparr>"
    unfolding pk(2) by (auto simp: pickKeys_def Let_def clockSkewSecs_def)
  from vs(3) obtain sub where sub: "sub \<noteq> []" "CHR 0x00 \<notin> set sub" "subject ident = ''oidc:'' @ pname prov @ '':'' @ sub"
    "idRole ident = tokenRole fnm lib prov (tokPayload tok)"
    by (auto simp: tokenIdentity_def split: sum.splits if_splits)
  show ?thesis
    using tok indexOf_Some [OF idx] exp key v(2) sub vf'
    by (intro exI [of _ tok] exI [of _ idx] exI [of _ key] exI [of _ sub]) (simp add: prov_def [symmetric] Let_def tokenRole_max)
qed

text \<open>A provider with one Ed25519 key, and a library that accepts its tokens.\<close>

definition demoProvider :: provider where
  "demoProvider = \<lparr>pname = ''ci'', issuer = ''https://i'', jwksUrl = ''https://i/k'', audience = ''nix'', caFile = [],
     bearerTokenFile = [], prules = [\<lparr>boundClaims = [(''sub'', [''bob''])], ruleRole = Write\<rparr>]\<rparr>"

definition demoLib :: oidcLib where
  "demoLib = \<lparr>jwtDecode = (\<lambda>_. Some \<lparr>tokIssuer = Some ''https://i'', tokAlg = Some ''EdDSA'', tokKid = None, tokExp = Some 9,
       tokPayload = JObj [(''sub'', JStr ''bob'')]\<rparr>),
     jwtVerify = (\<lambda>v tok. if vPem v = ''P'' then None else Some ''bad''), rsaPem = (\<lambda>_ _. None), ecPem = (\<lambda>_ _ _. None),
     base64urlDecode = Some, ed25519PublicKey = (\<lambda>_. Some ''P''), jsonDump = (\<lambda>_. []), readTokenFile = (\<lambda>_. Inl OutOfRange),
     httpGet = (\<lambda>_ _. Inr (JObj [(''keys'', JArr [JObj [(''kty'', JStr ''OKP''), (''crv'', JStr ''Ed25519''), (''x'', JStr ''A'')]])]))\<rparr>"

definition demoVerifier :: verifier where
  "demoVerifier = newVerifier \<lparr>providers = [demoProvider], allowInsecure = False\<rparr> 30"

lemmas oidc_eval = demoVerifier_def newVerifier_def verifyToken_def parseToken_def maxTokenBytes_def indexOf_def demoProvider_def
  demoLib_def optStr_def candidates_def Let_def pickKeys_def fetchDue_def fetchKeys_def oidcGet_def isHttps_def ebnd_def jat_def
  jget_def jitems_def parseJwk_def jvalue_def jwkPem_def ed25519Pem_def asStr_def decimal.simps map_filter_def allowKey_def tokenIdentity_def
  tokenRole_def ruleMatches_def lookupClaim.simps longestKey.simps globAny_def claimStrings_def

theorem verified_identity_witness:
  "\<exists>ident vf. verifyToken (\<lambda>p n. p = n) demoLib ''t'' 0 0 0 demoVerifier = (Some ident, vf) \<and> idRole ident = Some Write \<and>
     (\<exists>tok. parseToken demoLib ''t'' = Some tok \<and> tokExp tok \<noteq> None)"
proof -
  have eval: "\<exists>vf. verifyToken (\<lambda>p n. p = n) demoLib ''t'' 0 0 0 demoVerifier = (Some \<lparr>subject = ''oidc:ci:bob'', idRole = Some Write\<rparr>, vf)"
    by (simp add: oidc_eval)
  then obtain vf where run: "verifyToken (\<lambda>p n. p = n) demoLib ''t'' 0 0 0 demoVerifier = (Some \<lparr>subject = ''oidc:ci:bob'', idRole = Some Write\<rparr>, vf)" ..
  from verified_identity [OF run] have "\<exists>tok. parseToken demoLib ''t'' = Some tok \<and> tokExp tok \<noteq> None" by blast
  with run show ?thesis by (intro exI [of _ "\<lparr>subject = ''oidc:ci:bob'', idRole = Some Write\<rparr>"] exI [of _ vf]) simp
qed

section \<open>Configuration\<close>

definition provOk :: "bool \<Rightarrow> provider \<Rightarrow> bool" where
  "provOk insecure p \<longleftrightarrow> issuer p \<noteq> [] \<and> audience p \<noteq> [] \<and>
     (insecure \<or> isHttps (issuer p) \<and> (jwksUrl p = [] \<or> isHttps (jwksUrl p)))"

lemma providerFrom_ok: "providerFrom lib name prov insecure = Inr p \<Longrightarrow> provOk insecure p"
  by (auto simp: providerFrom_def provOk_def urlOk_def split: if_splits option.splits)

lemma loadProviders_ok:
  assumes "loadProviders lib insecure items ps = Inr out"
    and "distinct (map issuer ps)" "\<forall>p \<in> set ps. provOk insecure p"
  shows "distinct (map issuer out) \<and> (\<forall>p \<in> set out. provOk insecure p)"
  using assms
proof (induction items arbitrary: ps)
  case (Cons item items)
  obtain name prov where item: "item = (name, prov)" by fastforce
  from Cons.prems(1) obtain p where p: "providerFrom lib name prov insecure = Inr p" "\<forall>other \<in> set ps. issuer other \<noteq> issuer p"
    "loadProviders lib insecure items (ps @ [p]) = Inr out" by (auto simp: item list_ex_iff split: if_splits)
  show ?case by (rule Cons.IH [OF p(3)]) (use p(2) providerFrom_ok [OF p(1)] Cons.prems(2,3) in auto)
qed simp

text \<open>C31: A configuration that loads has at least one provider; no two providers share an issuer, so a
  token is checked against at most one; each has an issuer and an audience; and unless insecure
  URLs are allowed every issuer and key URL in it is https.\<close>

theorem loadConfig_ok:
  assumes "loadConfig lib j = Inr cf"
  shows "providers cf \<noteq> [] \<and> distinct (map issuer (providers cf)) \<and>
    (\<forall>p \<in> set (providers cf). issuer p \<noteq> [] \<and> audience p \<noteq> [] \<and>
      (allowInsecure cf \<or> isHttps (issuer p) \<and> (jwksUrl p = [] \<or> isHttps (jwksUrl p))))"
proof -
  from assms obtain items where "loadProviders lib (allowInsecure cf) items [] = Inr (providers cf)" "providers cf \<noteq> []"
    by (auto simp: loadConfig_def split: if_splits)
  with loadProviders_ok [OF this(1)] show ?thesis by (simp add: provOk_def)
qed

theorem loadConfig_ok_witness:
  "\<exists>cf. loadConfig demoLib (JObj [(''providers'', JObj [(''ci'', JObj [(''issuer'', JStr ''https://i''), (''audience'', JStr ''nix'')])])]) = Inr cf \<and>
     providers cf \<noteq> [] \<and> isHttps (issuer (hd (providers cf)))"
proof -
  let ?j = "JObj [(''providers'', JObj [(''ci'', JObj [(''issuer'', JStr ''https://i''), (''audience'', JStr ''nix'')])])]"
  have "\<exists>cf. loadConfig demoLib ?j = Inr cf \<and> \<not> allowInsecure cf"
    by (simp add: loadConfig_def jvalue_def jat_def jget_def ebnd_def jitems_def providerFrom_def asStr_def urlOk_def isHttps_def
        providerRules_def jcontains_def ruleFrom_def asClaims_def asStrs_def scopeRole_def)
  then obtain cf where cf: "loadConfig demoLib ?j = Inr cf" "\<not> allowInsecure cf" by blast
  from loadConfig_ok [OF cf(1)] cf show ?thesis by (intro exI [of _ cf]) simp
qed

text \<open>C32: Keys are fetched at most once per interval: either a check of a token does not fetch, so
  that its result and the keys do not depend on what a fetch would give, or the last
  attempt, failed or not, ended more than the interval ago, or there was none, and the
  attempt is on record afterwards; so nobody can make the daemon fetch with
  every token of an unknown key.\<close>

theorem fetch_throttled:
  "fst (candidates lib cf miss prov ks tok now mclk after) = fst (candidates lib' cf miss prov ks tok now mclk after) \<and>
     snd (candidates lib cf miss prov ks tok now mclk after) = ks \<or>
   (case attempted ks of None \<Rightarrow> True | Some t \<Rightarrow> mclk - t > miss) \<and>
     attempted (snd (candidates lib cf miss prov ks tok now mclk after)) = Some after"
proof (cases "fetchDue (fetched ks) (attempted ks) mclk (pickKeys prov (skeys ks) tok now \<noteq> []) miss")
  case True
  then have "case attempted ks of None \<Rightarrow> True | Some t \<Rightarrow> mclk - t > miss" by (auto simp: fetchDue_def split: option.splits)
  then show ?thesis using True by (simp add: candidates_def Let_def split: sum.split)
next
  case False
  then show ?thesis by (cases "pickKeys prov (skeys ks) tok now = []") (simp_all add: candidates_def Let_def)
qed

end
