(* ===== verification/TopDown.thy ===== *)
theory TopDown
  imports Prelude
begin

text \<open>
  The walks of \<^verbatim>\<open>src/top-down.hh\<close>: which nodes of a graph a store lacks (\<open>TopDownWalk\<close>), and
  which must be built (\<open>BuildWalk\<close>), asking the store in batches of about \<open>budget\<close> nodes.

  The template parameters are arguments: \<open>keys\<close>, \<open>children\<close>, \<open>uses\<close>, and the store as the
  functions \<open>query\<close> and \<open>fetch\<close> on sets of keys.  A \<open>std::set\<close> that is iterated over is a sorted
  list, others are sets; the maps of a \<open>BuildWalk\<close> are maps, and those of \<open>roots\<close> and
  \<open>uses\<close>, which are iterated over, association lists.  The outer loops run with fuel, since they
  need not end on an infinite graph; that enough fuel gives the result is proved.

  The lookups \<open>used.at\<close>, \<open>users.at\<close> and \<open>needs.at\<close> of a \<open>BuildWalk\<close> would throw on a missing node.
  Here they give the empty value; the invariant \<open>bwInv\<close> shows that the nodes they are asked for are
  always there.
\<close>

section \<open>Batches\<close>

definition topDownBudget :: nat where
  "topDownBudget = 64"

text \<open>The nodes below a level that were not queried yet.\<close>

definition below :: "('n::linorder \<Rightarrow> 'n list) \<Rightarrow> 'n set \<Rightarrow> 'n list \<Rightarrow> 'n list" where
  "below children queried current =
     sort (remdups (filter (\<lambda>child. child \<notin> queried) (concat (map children current))))"

function batchLoop :: "('n::linorder \<Rightarrow> 'n list) \<Rightarrow> nat \<Rightarrow> 'n list \<Rightarrow> 'n list \<Rightarrow> 'n set \<Rightarrow> 'n list \<times> 'n set" where
  "batchLoop children budget batch current queried =
     (if length batch < budget then
        (let low = below children queried current in
         if low = [] \<or> length batch + length low > budget then (batch, queried)
         else batchLoop children budget (batch @ low) low (queried \<union> set low))
      else (batch, queried))"
  by pat_completeness auto
termination
proof (relation "measure (\<lambda>(children, budget, batch, current, queried). budget - length batch)", goal_cases)
  case (2 children budget batch current queried low)
  then have "0 < length low" by simp
  with 2(1) show ?case unfolding in_measure prod.case length_append by linarith
qed simp_all

declare batchLoop.simps [simp del]

fun insertNew :: "'n list \<Rightarrow> 'n set \<Rightarrow> 'n list \<times> 'n set" where
  "insertNew [] queried = ([], queried)"
| "insertNew (node # rest) queried =
     (if node \<in> queried then insertNew rest queried
      else (case insertNew rest (insert node queried) of (batch, q) \<Rightarrow> (node # batch, q)))"

definition nextBatch :: "'n::linorder list \<Rightarrow> ('n \<Rightarrow> 'n list) \<Rightarrow> 'n set \<Rightarrow> nat \<Rightarrow> 'n list \<times> 'n set" where
  "nextBatch level children queried budget =
     (case insertNew level queried of (batch, q) \<Rightarrow> batchLoop children budget batch level q)"

section \<open>What a store lacks\<close>

record ('n, 'k) walk =
  wvalid :: "'k set"
  wqueried :: "'n set"
  wseen :: "'n set"
  wmissing :: "'n set"

definition walk0 :: "('n, 'k) walk" where
  "walk0 = \<lparr>wvalid = {}, wqueried = {}, wseen = {}, wmissing = {}\<rparr>"

definition queryBatch :: "('n \<Rightarrow> 'k list) \<Rightarrow> ('k set \<Rightarrow> 'k set) \<Rightarrow> 'n list \<Rightarrow> 'k set \<Rightarrow> 'k set" where
  "queryBatch keys query batch valid =
     (let wanted = set (concat (map keys batch)) in if wanted = {} then valid else valid \<union> query wanted)"

definition isHeld :: "('n \<Rightarrow> 'k list) \<Rightarrow> 'k set \<Rightarrow> 'n \<Rightarrow> bool" where
  "isHeld keys valid node \<longleftrightarrow> keys node \<noteq> [] \<and> list_all (\<lambda>key. key \<in> valid) (keys node)"

fun eraseSeen :: "'n list \<Rightarrow> 'n set \<Rightarrow> 'n list \<times> 'n set" where
  "eraseSeen [] seen = ([], seen)"
| "eraseSeen (node # rest) seen =
     (if node \<in> seen then eraseSeen rest seen
      else (case eraseSeen rest (insert node seen) of (level, s) \<Rightarrow> (node # level, s)))"

text \<open>The loop of \<open>run\<close>; \<open>None\<close> is running out of fuel.\<close>

fun walkRun :: "('n::linorder \<Rightarrow> 'k list) \<Rightarrow> ('n \<Rightarrow> 'n list) \<Rightarrow> ('k set \<Rightarrow> 'k set) \<Rightarrow> nat \<Rightarrow> nat
    \<Rightarrow> 'n list \<Rightarrow> ('n, 'k) walk \<Rightarrow> 'n set option" where
  "walkRun keys children query budget 0 level st = None"
| "walkRun keys children query budget (Suc fuel) level st =
     (case eraseSeen level (wseen st) of
        (level, seen) \<Rightarrow>
          if level = [] then Some (wmissing st)
          else
            (case nextBatch level children (wqueried st) budget of
               (batch, queried) \<Rightarrow>
                 (let valid = queryBatch keys query batch (wvalid st);
                      lacking = filter (\<lambda>node. \<not> isHeld keys valid node) level
                  in walkRun keys children query budget fuel (concat (map children lacking))
                       \<lparr>wvalid = valid, wqueried = queried, wseen = seen, wmissing = wmissing st \<union> set lacking\<rparr>)))"

definition missingTopDown :: "nat \<Rightarrow> 'n::linorder list \<Rightarrow> ('n \<Rightarrow> 'k list) \<Rightarrow> ('n \<Rightarrow> 'n list) \<Rightarrow> ('k set \<Rightarrow> 'k set) \<Rightarrow> nat
    \<Rightarrow> 'n set option" where
  "missingTopDown fuel roots keys children query budget = walkRun keys children query budget fuel roots walk0"

section \<open>What must be built\<close>

record ('n, 'k) bwalk =
  bbudget :: nat
  rebuilt :: "'n set"
  used :: "'n \<rightharpoonup> ('n \<times> 'k list) list"
  users :: "'n \<rightharpoonup> nat"
  needs :: "'n \<rightharpoonup> 'k set"
  anyNeeds :: "'n \<rightharpoonup> 'k set"
  blevel :: "'n list"
  bvalid :: "'k set"
  bqueried :: "'n set"
  bmissing :: "'n set"

definition addKeys :: "'k list \<Rightarrow> 'k set option \<Rightarrow> 'k set option" where
  "addKeys ks old = Some ((case old of None \<Rightarrow> {} | Some s \<Rightarrow> s) \<union> set ks)"

definition usedAt :: "('n, 'k) bwalk \<Rightarrow> 'n \<Rightarrow> ('n \<times> 'k list) list" where
  "usedAt b node = (case used b node of None \<Rightarrow> [] | Some cs \<Rightarrow> cs)"

definition isHeldB :: "('n, 'k) bwalk \<Rightarrow> 'n \<Rightarrow> bool" where
  "isHeldB b node \<longleftrightarrow>
     (case needs b node of None \<Rightarrow> False | Some ks \<Rightarrow> node \<notin> rebuilt b \<and> ks \<noteq> {} \<and> ks \<subseteq> bvalid b)"

definition queryAhead :: "('k set \<Rightarrow> 'k set) \<Rightarrow> 'n list \<Rightarrow> ('n::linorder, 'k) bwalk \<Rightarrow> ('n, 'k) bwalk" where
  "queryAhead query needed b =
     (case nextBatch needed (\<lambda>node. map fst (usedAt b node)) (bqueried b) (bbudget b) of
        (batch, queried) \<Rightarrow>
          (let ks = (\<Union>node \<in> set batch. case anyNeeds b node of None \<Rightarrow> {} | Some s \<Rightarrow> s) in
           b\<lparr>bvalid := (if ks = {} then bvalid b else bvalid b \<union> query ks), bqueried := queried\<rparr>))"

definition fetchLacking :: "('k set \<Rightarrow> 'k set) \<Rightarrow> 'n list \<Rightarrow> ('n, 'k) bwalk \<Rightarrow> ('n, 'k) bwalk" where
  "fetchLacking fetch needed b =
     (let lacking = (\<Union>node \<in> set needed. if node \<in> rebuilt b then {}
            else (case needs b node of None \<Rightarrow> {} | Some ks \<Rightarrow> ks) - bvalid b) in
      b\<lparr>bvalid := (if lacking = {} then bvalid b else bvalid b \<union> fetch lacking)\<rparr>)"

text \<open>One node of the level, and the children it was the last undecided user of.\<close>

definition markMissing :: "'n \<Rightarrow> ('n, 'k) bwalk \<Rightarrow> ('n, 'k) bwalk" where
  "markMissing node b =
     (if needs b node \<noteq> None \<and> \<not> isHeldB b node
      then b\<lparr>needs := foldl (\<lambda>m (child, ks). m(child := addKeys ks (m child))) (needs b) (usedAt b node),
             bmissing := insert node (bmissing b)\<rparr>
      else b)"

fun dropUsers :: "('n \<times> 'k list) list \<Rightarrow> ('n \<rightharpoonup> nat) \<Rightarrow> 'n list \<times> ('n \<rightharpoonup> nat)" where
  "dropUsers [] us = ([], us)"
| "dropUsers ((child, ks) # rest) us =
     (let n = (case us child of None \<Rightarrow> 0 | Some k \<Rightarrow> k) - 1 in
      case dropUsers rest (us(child \<mapsto> n)) of (next, us') \<Rightarrow> (if n = 0 then child # next else next, us'))"

fun decideNodes :: "'n list \<Rightarrow> ('n, 'k) bwalk \<Rightarrow> 'n list \<times> ('n, 'k) bwalk" where
  "decideNodes [] b = ([], b)"
| "decideNodes (node # rest) b =
     (let b = markMissing node b in
      case dropUsers (usedAt b node) (users b) of
        (next, us) \<Rightarrow> (case decideNodes rest (b\<lparr>users := us\<rparr>) of (later, b') \<Rightarrow> (next @ later, b')))"

definition decide :: "('n, 'k) bwalk \<Rightarrow> ('n, 'k) bwalk" where
  "decide b = (case decideNodes (blevel b) b of (next, b') \<Rightarrow> b'\<lparr>blevel := next\<rparr>)"

definition addRoot :: "bool \<Rightarrow> ('n, 'k) bwalk \<Rightarrow> 'n \<times> 'k list \<Rightarrow> ('n, 'k) bwalk" where
  "addRoot rebuildRoots b r =
     (case r of (node, wanted) \<Rightarrow>
        (let ks = (if rebuildRoots then {} else set wanted) in
         b\<lparr>rebuilt := (if rebuildRoots then insert node (rebuilt b) else rebuilt b),
           needs := (needs b)(node \<mapsto> ks), anyNeeds := (anyNeeds b)(node \<mapsto> ks)\<rparr>))"

definition addUse :: "('n, 'k) bwalk \<Rightarrow> 'n \<times> 'k list \<Rightarrow> ('n, 'k) bwalk" where
  "addUse b u =
     (case u of (child, ks) \<Rightarrow>
        b\<lparr>users := (users b)(child \<mapsto> (case users b child of None \<Rightarrow> 0 | Some n \<Rightarrow> n) + 1),
          anyNeeds := (anyNeeds b)(child := addKeys ks (anyNeeds b child))\<rparr>)"

fun exploreLoop :: "('n \<Rightarrow> ('n \<times> 'k list) list) \<Rightarrow> nat \<Rightarrow> 'n list \<Rightarrow> ('n, 'k) bwalk \<Rightarrow> ('n, 'k) bwalk option" where
  "exploreLoop uses 0 todo b = None"
| "exploreLoop uses (Suc fuel) todo b =
     (if todo = [] then Some b
      else
        (let node = last todo; todo = butlast todo in
         if used b node \<noteq> None then exploreLoop uses fuel todo b
         else exploreLoop uses fuel (todo @ map fst (uses node))
                (foldl addUse (b\<lparr>used := (used b)(node \<mapsto> uses node)\<rparr>) (uses node))))"

definition newBuildWalk :: "nat \<Rightarrow> ('n \<times> 'k list) list \<Rightarrow> bool \<Rightarrow> ('n \<Rightarrow> ('n \<times> 'k list) list) \<Rightarrow> nat \<Rightarrow> ('n, 'k) bwalk option" where
  "newBuildWalk fuel roots rebuildRoots uses budget =
     map_option (\<lambda>b. b\<lparr>blevel := filter (\<lambda>node. users b node = None) (map fst roots)\<rparr>)
       (exploreLoop uses fuel (map fst roots)
         (foldl (addRoot rebuildRoots)
           \<lparr>bbudget = budget, rebuilt = {}, used = Map.empty, users = Map.empty, needs = Map.empty, anyNeeds = Map.empty,
            blevel = [], bvalid = {}, bqueried = {}, bmissing = {}\<rparr> roots))"

fun buildRun :: "('k set \<Rightarrow> 'k set) \<Rightarrow> ('k set \<Rightarrow> 'k set) \<Rightarrow> nat \<Rightarrow> ('n::linorder, 'k) bwalk \<Rightarrow> 'n set option" where
  "buildRun query fetch 0 b = None"
| "buildRun query fetch (Suc fuel) b =
     (if blevel b = [] then Some (bmissing b)
      else
        (let needed = filter (\<lambda>node. needs b node \<noteq> None) (blevel b) in
         buildRun query fetch fuel (decide (fetchLacking fetch needed (queryAhead query needed b)))))"

definition missingForBuild :: "nat \<Rightarrow> ('n::linorder \<times> 'k list) list \<Rightarrow> bool \<Rightarrow> ('n \<Rightarrow> ('n \<times> 'k list) list)
    \<Rightarrow> ('k set \<Rightarrow> 'k set) \<Rightarrow> ('k set \<Rightarrow> 'k set) \<Rightarrow> nat \<Rightarrow> 'n set option" where
  "missingForBuild fuel roots rebuildRoots uses query fetch budget =
     (case newBuildWalk fuel roots rebuildRoots uses budget of None \<Rightarrow> None | Some b \<Rightarrow> buildRun query fetch fuel b)"

section \<open>The batches cover the level and stay within the budget\<close>

lemma set_below [simp]: "set (below children queried current) = (\<Union>n \<in> set current. set (children n)) - queried"
  by (auto simp: below_def)

lemma distinct_below [simp]: "distinct (below children queried current)"
  by (simp add: below_def)

lemma insertNew_props:
  assumes "insertNew level queried = (batch, q)"
  shows "set batch = set level - queried \<and> q = queried \<union> set level \<and> distinct batch \<and> length batch \<le> length level"
  using assms
  by (induction level queried arbitrary: batch q rule: insertNew.induct)
     (force split: if_splits prod.splits)+

lemma batchLoop_props:
  assumes "batchLoop children budget batch current queried = (batch', q)" "distinct batch" "set batch \<subseteq> queried"
  shows "set batch \<subseteq> set batch' \<and> q = queried \<union> set batch' \<and> distinct batch'
       \<and> (length batch' \<le> budget \<or> batch' = batch) \<and> set batch' \<inter> queried = set batch"
  using assms
proof (induction children budget batch current queried arbitrary: batch' q rule: batchLoop.induct)
  case (1 children budget batch current queried)
  let ?low = "below children queried current"
  show ?case
  proof (cases "length batch < budget \<and> \<not> (?low = [] \<or> length batch + length ?low > budget)")
    case True
    then have rec: "batchLoop children budget (batch @ ?low) ?low (queried \<union> set ?low) = (batch', q)"
      using 1(2) by (subst (asm) batchLoop.simps) (auto simp: Let_def)
    have "distinct (batch @ ?low)" using 1(3,4) by auto
    from 1(1) [OF _ refl _ rec this] True 1(4)
    have ih: "set (batch @ ?low) \<subseteq> set batch'" "q = queried \<union> set ?low \<union> set batch'" "distinct batch'"
      "length batch' \<le> budget \<or> batch' = batch @ ?low" "set batch' \<inter> (queried \<union> set ?low) = set (batch @ ?low)"
      by auto
    have "set batch' \<inter> queried = set batch"
      using ih(1,5) 1(4) by auto
    then show ?thesis using ih True by auto
  next
    case False
    then have "batch' = batch \<and> q = queried"
      using 1(2) by (subst (asm) batchLoop.simps) (auto simp: Let_def split: if_splits)
    then show ?thesis using 1(3,4) by auto
  qed
qed

lemma nextBatch_props:
  assumes "nextBatch level children queried budget = (batch, q)"
  shows "set level \<subseteq> q \<and> q = queried \<union> set batch \<and> distinct batch \<and> set batch \<inter> queried = {}
       \<and> length batch \<le> max budget (length level)"
proof -
  obtain b1 q1 where ins: "insertNew level queried = (b1, q1)" by fastforce
  then have b1: "set b1 = set level - queried" "q1 = queried \<union> set level" "distinct b1" "length b1 \<le> length level"
    using insertNew_props by blast+
  from assms ins have "batchLoop children budget b1 level q1 = (batch, q)" by (simp add: nextBatch_def)
  from batchLoop_props [OF this b1(3)] b1 show ?thesis by (auto simp: le_max_iff_disj)
qed

section \<open>The walk finds what the store lacks\<close>

text \<open>The nodes a walk reaches: the roots, and what is below a reached node the store does not hold.\<close>

definition holdsNode :: "('n \<Rightarrow> 'k list) \<Rightarrow> 'k set \<Rightarrow> 'n \<Rightarrow> bool" where
  "holdsNode keys held node \<longleftrightarrow> keys node \<noteq> [] \<and> set (keys node) \<subseteq> held"

inductive reached :: "('n \<Rightarrow> 'k list) \<Rightarrow> ('n \<Rightarrow> 'n list) \<Rightarrow> 'k set \<Rightarrow> 'n list \<Rightarrow> 'n \<Rightarrow> bool"
  for keys children held roots where
  reached_root: "n \<in> set roots \<Longrightarrow> reached keys children held roots n"
| reached_child: "reached keys children held roots n \<Longrightarrow> \<not> holdsNode keys held n \<Longrightarrow> c \<in> set (children n)
    \<Longrightarrow> reached keys children held roots c"

definition lackingBelow :: "('n \<Rightarrow> 'k list) \<Rightarrow> ('n \<Rightarrow> 'n list) \<Rightarrow> 'k set \<Rightarrow> 'n list \<Rightarrow> 'n set" where
  "lackingBelow keys children held roots = {n. reached keys children held roots n \<and> \<not> holdsNode keys held n}"

definition answersFor :: "('n \<Rightarrow> 'k list) \<Rightarrow> 'k set \<Rightarrow> 'n set \<Rightarrow> 'k set \<Rightarrow> bool" where
  "answersFor keys held queried valid \<longleftrightarrow> valid \<subseteq> held \<and> (\<forall>n \<in> queried. set (keys n) \<inter> held \<subseteq> valid)"

definition walkInv :: "('n \<Rightarrow> 'k list) \<Rightarrow> ('n \<Rightarrow> 'n list) \<Rightarrow> 'k set \<Rightarrow> 'n list \<Rightarrow> 'n list \<Rightarrow> ('n, 'k) walk \<Rightarrow> bool" where
  "walkInv keys children held roots level st \<longleftrightarrow>
     answersFor keys held (wqueried st) (wvalid st)
     \<and> (\<forall>n \<in> wseen st \<union> set level. reached keys children held roots n)
     \<and> set roots \<subseteq> wseen st \<union> set level
     \<and> wmissing st = {n \<in> wseen st. \<not> holdsNode keys held n}
     \<and> (\<forall>n \<in> wmissing st. set (children n) \<subseteq> wseen st \<union> set level)"

lemma isHeld_answers:
  "answersFor keys held queried valid \<Longrightarrow> n \<in> queried \<Longrightarrow> isHeld keys valid n \<longleftrightarrow> holdsNode keys held n"
  unfolding answersFor_def isHeld_def holdsNode_def list_all_iff by blast

lemma queryBatch_answers:
  assumes "answersFor keys held queried valid" "\<And>K. query K = K \<inter> held"
  shows "answersFor keys held (queried \<union> set batch) (queryBatch keys query batch valid)"
  using assms(1) unfolding answersFor_def queryBatch_def Let_def assms(2) by auto

lemma eraseSeen_props:
  assumes "eraseSeen level seen = (level', seen')"
  shows "set level' = set level - seen \<and> seen' = seen \<union> set level"
  using assms
  by (induction level seen arbitrary: level' seen' rule: eraseSeen.induct) (force split: if_splits prod.splits)+

lemma walkInv_done:
  assumes "walkInv keys children held roots level st" "set level \<subseteq> wseen st"
  shows "wmissing st = lackingBelow keys children held roots"
proof -
  have cl: "set roots \<subseteq> wseen st" "\<forall>n \<in> wseen st. \<not> holdsNode keys held n \<longrightarrow> set (children n) \<subseteq> wseen st"
    using assms unfolding walkInv_def by blast+
  have "n \<in> wseen st" if "reached keys children held roots n" for n
    using that by induction (use cl in blast)+
  with assms show ?thesis unfolding walkInv_def lackingBelow_def by blast
qed

lemma walkInv_step:
  assumes inv: "walkInv keys children held roots level st"
    and q: "\<And>K. query K = K \<inter> held"
    and e: "eraseSeen level (wseen st) = (level', seen)"
    and b: "nextBatch level' children (wqueried st) budget = (batch, queried)"
    and v: "valid = queryBatch keys query batch (wvalid st)"
    and l: "lacking = filter (\<lambda>node. \<not> isHeld keys valid node) level'"
  shows "walkInv keys children held roots (concat (map children lacking))
           \<lparr>wvalid = valid, wqueried = queried, wseen = seen, wmissing = wmissing st \<union> set lacking\<rparr>"
proof -
  from nextBatch_props [OF b] have bq: "set level' \<subseteq> queried" "queried = wqueried st \<union> set batch" by auto
  from eraseSeen_props [OF e] have lv: "set level' = set level - wseen st" "seen = wseen st \<union> set level" by auto
  have ans: "answersFor keys held queried valid"
    using queryBatch_answers [OF _ q] inv bq(2) unfolding walkInv_def v by blast
  then have lack: "set lacking = {n \<in> set level'. \<not> holdsNode keys held n}"
    using isHeld_answers bq(1) unfolding l by fastforce
  show ?thesis
    using inv ans unfolding walkInv_def walk.simps
    by (auto simp: lack lv intro: reached_child)
qed

lemma walkRun_correct:
  assumes "walkInv keys children held roots level st" "\<And>K. query K = K \<inter> held"
    and "finite {n. reached keys children held roots n}"
    and "card ({n. reached keys children held roots n} - wseen st) < fuel"
  shows "walkRun keys children query budget fuel level st = Some (lackingBelow keys children held roots)"
  using assms(1,4)
proof (induction fuel arbitrary: level st)
  case 0
  then show ?case by simp
next
  case (Suc fuel)
  obtain level' seen where e: "eraseSeen level (wseen st) = (level', seen)" by fastforce
  note lv = eraseSeen_props [OF e]
  show ?case
  proof (cases "level' = []")
    case True
    with lv have "set level \<subseteq> wseen st" by auto
    from walkInv_done [OF Suc(2) this] True e show ?thesis by simp
  next
    case False
    obtain batch queried where b: "nextBatch level' children (wqueried st) budget = (batch, queried)" by fastforce
    let ?R = "{n. reached keys children held roots n}"
    from False obtain x where "x \<in> set level'" by (cases level') auto
    with lv have "x \<in> set level" "x \<notin> wseen st" "x \<in> seen" "wseen st \<subseteq> seen" by auto
    moreover from this have "x \<in> ?R" using Suc(2) unfolding walkInv_def by blast
    ultimately have "?R - seen \<subset> ?R - wseen st" by blast
    then have "card (?R - seen) < fuel"
      using Suc(3) psubset_card_mono [of "?R - wseen st" "?R - seen"] assms(3) by auto
    with Suc(1) [OF walkInv_step [OF Suc(2) assms(2) e b refl refl]] False e b
    show ?thesis by (simp add: Let_def)
  qed
qed

lemma missingTopDown_lacking:
  assumes "\<And>K. query K = K \<inter> held"
    and "finite {n. reached keys children held roots n}"
    and "card {n. reached keys children held roots n} < fuel"
  shows "missingTopDown fuel roots keys children query budget = Some (lackingBelow keys children held roots)"
proof -
  have "walkInv keys children held roots roots walk0"
    by (auto simp: walkInv_def walk0_def answersFor_def intro: reached_root)
  from walkRun_correct [OF this assms(1,2)] assms(3) show ?thesis
    by (simp add: missingTopDown_def walk0_def)
qed

text \<open>C14: With the store answering each query by the keys it holds, and finitely many nodes to reach, the walk
  ends, after as many rounds as there are nodes to reach and one more at most, whatever the budget of its batches; and
  its result is exactly the nodes that are reached from the roots through nodes the store lacks and that
  the store lacks themselves.\<close>

theorem missingTopDown_exact:
  assumes "\<And>K. query K = K \<inter> held"
    and "finite {n. reached keys children held roots n}"
    and "card {n. reached keys children held roots n} < fuel"
  shows "missingTopDown fuel roots keys children query budget
       = Some {n. reached keys children held roots n \<and> \<not> holdsNode keys held n}"
  using missingTopDown_lacking [OF assms] by (simp add: lackingBelow_def)

definition demoChildren :: "nat \<Rightarrow> nat list" where
  "demoChildren n = (if n = 0 then [1, 2] else if n = 1 then [3] else if n = 2 then [3, 4] else [])"

lemma demo_reached: "{n. reached (\<lambda>n. [n]) demoChildren {2, 3, 4} [0] n} = {0, 1, 2, 3}" (is "?R = _")
proof
  have "n \<in> {0, 1, 2, 3}" if "reached (\<lambda>n. [n]) demoChildren {2, 3, 4} [0] n" for n
    using that by induction (auto simp: demoChildren_def holdsNode_def split: if_splits)
  then show "?R \<subseteq> {0, 1, 2, 3}" by blast
  have 0: "reached (\<lambda>n. [n]) demoChildren {2, 3, 4} [0] 0"
    by (rule reached_root) simp
  have 1: "reached (\<lambda>n. [n]) demoChildren {2, 3, 4} [0] 1"
    by (rule reached_child [OF 0]) (simp_all add: demoChildren_def holdsNode_def)
  have 2: "reached (\<lambda>n. [n]) demoChildren {2, 3, 4} [0] 2"
    by (rule reached_child [OF 0]) (simp_all add: demoChildren_def holdsNode_def)
  have 3: "reached (\<lambda>n. [n]) demoChildren {2, 3, 4} [0] 3"
    by (rule reached_child [OF 1]) (simp_all add: demoChildren_def holdsNode_def)
  from 0 1 2 3 show "{0, 1, 2, 3} \<subseteq> ?R" by simp
qed

theorem missingTopDown_exact_witness:
  "missingTopDown 5 [0] (\<lambda>n. [n]) demoChildren (\<lambda>K. K \<inter> {2, 3, 4}) 64 = Some {0, 1}"
proof -
  have "{n. reached (\<lambda>n. [n]) demoChildren {2, 3, 4} [0] n \<and> \<not> holdsNode (\<lambda>n. [n]) {2, 3, 4} n}
      = {n \<in> {0, 1, 2, 3}. \<not> holdsNode (\<lambda>n. [n]) {2, 3, 4} n}"
    using demo_reached by blast
  also have "\<dots> = {0, 1}" by (auto simp: holdsNode_def)
  finally show ?thesis
    using missingTopDown_exact [where query = "\<lambda>K. K \<inter> {2, 3, 4}" and keys = "\<lambda>n. [n]" and children = demoChildren
        and held = "{2, 3, 4}" and roots = "[0]" and fuel = 5 and budget = 64, OF refl] demo_reached
    by simp
qed

text \<open>In a store that with a node holds all below it, the nodes lacking anywhere below the roots are found.\<close>

lemma reached_closed:
  assumes closed: "\<forall>n. holdsNode keys held n \<longrightarrow> (\<forall>c \<in> set (children n). holdsNode keys held c)"
    and "r \<in> set roots" "(r, n) \<in> {(a, b). b \<in> set (children a)}\<^sup>*" "\<not> holdsNode keys held n"
  shows "reached keys children held roots n"
  using assms(3,4)
proof (induction rule: rtrancl_induct)
  case base
  then show ?case using assms(2) by (simp add: reached_root)
next
  case (step y z)
  then show ?case using closed by (metis (mono_tags, lifting) case_prodD mem_Collect_eq reached_child)
qed

lemma reached_below:
  "reached keys children held roots n \<Longrightarrow> \<exists>r \<in> set roots. (r, n) \<in> {(a, b). b \<in> set (children a)}\<^sup>*"
  by (induction rule: reached.induct) (blast, metis (mono_tags, lifting) case_prodI mem_Collect_eq rtrancl.rtrancl_into_rtrancl)

text \<open>C15: In a store that holds all the children of a node it holds, the walk finds every node anywhere
  below the roots that the store lacks, although it never looks below a node the store holds.\<close>

theorem missingTopDown_closed:
  assumes "\<And>K. query K = K \<inter> held"
    and "finite {n. reached keys children held roots n}"
    and "card {n. reached keys children held roots n} < fuel"
    and "\<forall>n. holdsNode keys held n \<longrightarrow> (\<forall>c \<in> set (children n). holdsNode keys held c)"
  shows "missingTopDown fuel roots keys children query budget
       = Some {n. (\<exists>r \<in> set roots. (r, n) \<in> {(a, b). b \<in> set (children a)}\<^sup>*) \<and> \<not> holdsNode keys held n}"
proof -
  have "lackingBelow keys children held roots
      = {n. (\<exists>r \<in> set roots. (r, n) \<in> {(a, b). b \<in> set (children a)}\<^sup>*) \<and> \<not> holdsNode keys held n}"
    unfolding lackingBelow_def by (blast intro: reached_closed [OF assms(4)] dest: reached_below)
  then show ?thesis using missingTopDown_lacking [OF assms(1-3)] by simp
qed

lemma demo_closed:
  "\<forall>n. holdsNode (\<lambda>n. [n]) {2, 3, 4} n \<longrightarrow> (\<forall>c \<in> set (demoChildren n). holdsNode (\<lambda>n. [n]) {2, 3, 4} c)"
  by (auto simp: holdsNode_def demoChildren_def split: if_splits)

theorem missingTopDown_closed_witness:
  "missingTopDown 5 [0] (\<lambda>n. [n]) demoChildren (\<lambda>K. K \<inter> {2, 3, 4}) 64
   = Some {n. (0, n) \<in> {(a, b). b \<in> set (demoChildren a)}\<^sup>* \<and> \<not> holdsNode (\<lambda>n. [n]) {2, 3, 4} n}"
  using missingTopDown_closed [where query = "\<lambda>K. K \<inter> {2, 3, 4}" and keys = "\<lambda>n. [n]" and children = demoChildren
      and held = "{2, 3, 4}" and roots = "[0]" and fuel = 5 and budget = 64, OF refl _ _ demo_closed] demo_reached
  by simp

text \<open>C38: A batch holds the nodes of the level that were not asked about yet, no node twice and none asked about
  before, and is no longer than the budget, or than the level where that is longer; the nodes asked
  about grow by exactly the batch.\<close>

theorem nextBatch_bounded:
  assumes "nextBatch level children queried budget = (batch, queried')"
  shows "set level - queried \<subseteq> set batch \<and> queried' = queried \<union> set batch \<and> distinct batch
       \<and> set batch \<inter> queried = {} \<and> length batch \<le> max budget (length level)"
  using nextBatch_props [OF assms] by blast

theorem nextBatch_bounded_witness:
  "nextBatch [0] demoChildren {} 4 = ([0, 1, 2], {0, 1, 2}) \<and> set [0] - {} \<subseteq> set [0, 1, 2 :: nat]
   \<and> distinct [0, 1, 2 :: nat] \<and> length [0, 1, 2 :: nat] \<le> max 4 (length [0 :: nat])"
proof -
  have 1: "nextBatch [0] demoChildren {} 4 = ([0, 1, 2], {0, 1, 2})"
    by (simp add: nextBatch_def batchLoop.simps below_def demoChildren_def Let_def insert_commute)
  from nextBatch_bounded [OF 1] 1 show ?thesis by simp
qed

end
