(* ===== verification/BuildWalk.thy ===== *)
theory BuildWalk
  imports TopDown
begin

text \<open>
  Correctness of the \<open>BuildWalk\<close> of \<^verbatim>\<open>src/top-down.hh\<close>, modelled in \<open>TopDown\<close>: on a finite acyclic graph it
  ends, and a node is in its result exactly when it is needed, by a request or by a node in the
  result, and the store can neither show nor substitute what is needed of it.
\<close>

section \<open>The graph and the specification\<close>

definition succs :: "('n \<Rightarrow> ('n \<times> 'k list) list) \<Rightarrow> 'n \<Rightarrow> 'n set" where
  "succs uses n = fst ` set (uses n)"

definition usesRel :: "('n \<Rightarrow> ('n \<times> 'k list) list) \<Rightarrow> ('n \<times> 'n) set" where
  "usesRel uses = {(n, c). c \<in> succs uses n}"

definition nodesBelow :: "('n \<times> 'k list) list \<Rightarrow> ('n \<Rightarrow> ('n \<times> 'k list) list) \<Rightarrow> 'n set" where
  "nodesBelow roots uses = (usesRel uses)\<^sup>* `` (fst ` set roots)"

text \<open>What is needed of a node when the nodes \<open>M\<close> are built: nothing (\<open>None\<close>), or some keys.\<close>

definition keysAsked :: "('n \<times> 'k list) list \<Rightarrow> 'n \<Rightarrow> 'k set" where
  "keysAsked roots n = {k. \<exists>ks. (n, ks) \<in> set roots \<and> k \<in> set ks}"

definition keysFrom :: "('n \<Rightarrow> ('n \<times> 'k list) list) \<Rightarrow> 'n set \<Rightarrow> 'n \<Rightarrow> 'k set" where
  "keysFrom uses M n = {k. \<exists>m \<in> M. \<exists>ks. (n, ks) \<in> set (uses m) \<and> k \<in> set ks}"

definition wantedOf :: "('n \<times> 'k list) list \<Rightarrow> bool \<Rightarrow> ('n \<Rightarrow> ('n \<times> 'k list) list) \<Rightarrow> 'n set \<Rightarrow> 'n \<Rightarrow> 'k set option" where
  "wantedOf roots rr uses M n =
     (if n \<in> fst ` set roots \<or> (\<exists>m \<in> M. n \<in> succs uses m)
      then Some ((if rr then {} else keysAsked roots n) \<union> keysFrom uses M n)
      else None)"

definition mustBuild :: "('n \<times> 'k list) list \<Rightarrow> bool \<Rightarrow> ('n \<Rightarrow> ('n \<times> 'k list) list) \<Rightarrow> 'k set \<Rightarrow> 'n set \<Rightarrow> 'n \<Rightarrow> bool" where
  "mustBuild roots rr uses avail M n \<longleftrightarrow>
     (case wantedOf roots rr uses M n of None \<Rightarrow> False
      | Some ks \<Rightarrow> rr \<and> n \<in> fst ` set roots \<or> ks = {} \<or> \<not> ks \<subseteq> avail)"

text \<open>The nodes whose users are all decided.\<close>

definition openUsers :: "'n set \<Rightarrow> ('n \<Rightarrow> ('n \<times> 'k list) list) \<Rightarrow> 'n set \<Rightarrow> 'n \<Rightarrow> 'n set" where
  "openUsers R uses D c = {n \<in> R - D. c \<in> succs uses n}"

definition ready :: "'n set \<Rightarrow> ('n \<Rightarrow> ('n \<times> 'k list) list) \<Rightarrow> 'n set \<Rightarrow> 'n set" where
  "ready R uses D = {c \<in> R. openUsers R uses D c = {}}"

text \<open>The state of a walk whose decided nodes are \<open>D\<close>.\<close>

definition bwInv :: "('n \<times> 'k list) list \<Rightarrow> bool \<Rightarrow> ('n \<Rightarrow> ('n \<times> 'k list) list) \<Rightarrow> 'k set \<Rightarrow> 'k set \<Rightarrow> 'n set \<Rightarrow> ('n, 'k) bwalk \<Rightarrow> bool" where
  "bwInv roots rr uses held avail D b \<longleftrightarrow>
     (let R = nodesBelow roots uses in
      (\<forall>n \<in> R. used b n = Some (uses n))
      \<and> rebuilt b = (if rr then fst ` set roots else {})
      \<and> (\<forall>n \<in> R. openUsers R uses {} n \<noteq> {} \<longrightarrow> users b n = Some (card (openUsers R uses D n)))
      \<and> needs b = wantedOf roots rr uses (bmissing b)
      \<and> (\<forall>n ks. wantedOf roots rr uses R n = Some ks \<longrightarrow> anyNeeds b n = Some ks)
      \<and> bvalid b \<subseteq> avail
      \<and> (\<forall>n \<in> bqueried b. \<forall>ks. anyNeeds b n = Some ks \<longrightarrow> ks \<inter> held \<subseteq> bvalid b)
      \<and> D \<subseteq> ready R uses D
      \<and> bmissing b \<subseteq> D
      \<and> (\<forall>n \<in> D. n \<in> bmissing b \<longleftrightarrow> mustBuild roots rr uses avail (bmissing b) n))"

lemma bwInvD:
  assumes "bwInv roots rr uses held avail D b"
  shows "\<forall>n \<in> nodesBelow roots uses. used b n = Some (uses n)"
    and "rebuilt b = (if rr then fst ` set roots else {})"
    and "\<forall>n \<in> nodesBelow roots uses. openUsers (nodesBelow roots uses) uses {} n \<noteq> {}
      \<longrightarrow> users b n = Some (card (openUsers (nodesBelow roots uses) uses D n))"
    and "needs b = wantedOf roots rr uses (bmissing b)"
    and "wantedOf roots rr uses (nodesBelow roots uses) n = Some ks \<Longrightarrow> anyNeeds b n = Some ks"
    and "bvalid b \<subseteq> avail"
    and "n \<in> bqueried b \<Longrightarrow> anyNeeds b n = Some ks \<Longrightarrow> ks \<inter> held \<subseteq> bvalid b"
    and "D \<subseteq> ready (nodesBelow roots uses) uses D"
    and "bmissing b \<subseteq> D"
    and "\<forall>n \<in> D. n \<in> bmissing b \<longleftrightarrow> mustBuild roots rr uses avail (bmissing b) n"
  using assms unfolding bwInv_def Let_def by simp_all

lemma keysFrom_mono: "M \<subseteq> M' \<Longrightarrow> keysFrom uses M n \<subseteq> keysFrom uses M' n"
  by (auto simp: keysFrom_def)

lemma keysFrom_insert: "keysFrom uses (insert m M) n = {k. \<exists>ks. (n, ks) \<in> set (uses m) \<and> k \<in> set ks} \<union> keysFrom uses M n"
  by (auto simp: keysFrom_def)

lemma wantedOf_mono:
  "wantedOf roots rr uses M n = Some ks \<Longrightarrow> M \<subseteq> M' \<Longrightarrow> \<exists>ks'. wantedOf roots rr uses M' n = Some ks' \<and> ks \<subseteq> ks'"
  using keysFrom_mono [of M M' uses n] unfolding wantedOf_def by (auto split: if_splits)

lemma wantedOf_insert:
  assumes "n \<notin> succs uses m"
  shows "wantedOf roots rr uses (insert m M) n = wantedOf roots rr uses M n"
proof -
  have "(n, ks) \<notin> set (uses m)" for ks using assms by (force simp: succs_def)
  with assms show ?thesis by (simp add: wantedOf_def keysFrom_insert)
qed

lemma mustBuild_insert:
  "n \<notin> succs uses m \<Longrightarrow> mustBuild roots rr uses avail (insert m M) n = mustBuild roots rr uses avail M n"
  by (simp add: mustBuild_def wantedOf_insert)

lemma ready_not_succ: "c \<in> ready R uses D \<Longrightarrow> n \<in> R - D \<Longrightarrow> c \<notin> succs uses n"
  by (auto simp: ready_def openUsers_def)

lemma ready_mono: "D \<subseteq> D' \<Longrightarrow> ready R uses D \<subseteq> ready R uses D'"
  by (auto simp: ready_def openUsers_def)

lemma openUsers_insert: "openUsers R uses (insert n D) c = openUsers R uses D c - {n}"
  by (auto simp: openUsers_def)

lemma nodesBelow_closed: "n \<in> nodesBelow roots uses \<Longrightarrow> c \<in> succs uses n \<Longrightarrow> c \<in> nodesBelow roots uses"
  unfolding nodesBelow_def usesRel_def by (auto intro: rtrancl_into_rtrancl)

lemma roots_nodesBelow: "fst ` set roots \<subseteq> nodesBelow roots uses"
  unfolding nodesBelow_def by auto

section \<open>Deciding one node\<close>

lemma addKeys_fold:
  "distinct (map fst cs) \<Longrightarrow>
   foldl (\<lambda>m (child, ks). m(child := addKeys ks (m child))) m cs c =
     (case map_of cs c of None \<Rightarrow> m c | Some ks \<Rightarrow> addKeys ks (m c))"
proof (induction cs arbitrary: m)
  case (Cons x cs)
  obtain a ks where x: "x = (a, ks)" by fastforce
  with Cons(2) have "map_of cs a = None" by (simp add: map_of_eq_None_iff)
  with Cons x show ?case by (cases "c = a") simp_all
qed simp

lemma wantedOf_addKeys:
  assumes "distinct (map fst (uses m))"
  shows "wantedOf roots rr uses (insert m M) c =
     (case map_of (uses m) c of None \<Rightarrow> wantedOf roots rr uses M c | Some ks \<Rightarrow> addKeys ks (wantedOf roots rr uses M c))"
proof (cases "map_of (uses m) c")
  case None
  then have "c \<notin> succs uses m" by (simp add: map_of_eq_None_iff succs_def)
  with None show ?thesis by (simp add: wantedOf_insert)
next
  case (Some ks)
  then have c: "c \<in> succs uses m" by (force simp: succs_def dest: map_of_SomeD)
  have only: "(c, ks') \<in> set (uses m) \<longleftrightarrow> ks' = ks" for ks'
    unfolding map_of_eq_Some_iff [OF assms, of c, symmetric] Some by auto
  have "keysFrom uses M c = {}" if "\<not> (\<exists>m \<in> M. c \<in> succs uses m)"
    using that by (force simp: succs_def keysFrom_def)
  moreover have "keysAsked roots c = {}" if "c \<notin> fst ` set roots"
    using that by (force simp: keysAsked_def)
  ultimately show ?thesis
    using c unfolding wantedOf_def keysFrom_insert only by (auto simp: Some addKeys_def)
qed

lemma markMissing_inv:
  assumes inv: "bwInv roots rr uses held avail D b"
    and n: "n \<in> ready (nodesBelow roots uses) uses D - D"
    and d: "\<forall>n. distinct (map fst (uses n))"
    and v: "\<And>ks. needs b n = Some ks \<Longrightarrow> n \<notin> rebuilt b \<Longrightarrow> ks \<inter> avail \<subseteq> bvalid b"
  shows "bmissing (markMissing n b) = (if mustBuild roots rr uses avail (bmissing b) n then insert n (bmissing b) else bmissing b)
       \<and> needs (markMissing n b) = wantedOf roots rr uses (bmissing (markMissing n b))"
proof -
  let ?R = "nodesBelow roots uses"
  have R: "n \<in> ?R" using n by (auto simp: ready_def)
  note nd = bwInvD(4) [OF inv] and va = bwInvD(6) [OF inv] and rb = bwInvD(2) [OF inv]
  have u: "usedAt b n = uses n" using R bwInvD(1) [OF inv] by (simp add: usedAt_def)
  have "needs b n \<noteq> None \<and> \<not> isHeldB b n \<longleftrightarrow> mustBuild roots rr uses avail (bmissing b) n"
  proof (cases "needs b n")
    case (Some ks)
    have "n \<notin> rebuilt b \<Longrightarrow> ks \<subseteq> bvalid b \<longleftrightarrow> ks \<subseteq> avail" using v [OF Some] va by blast
    then show ?thesis using Some unfolding isHeldB_def mustBuild_def nd [symmetric] by (auto simp: rb)
  qed (simp add: mustBuild_def nd [symmetric])
  then show ?thesis
    using d by (auto simp: markMissing_def u nd addKeys_fold wantedOf_addKeys)
qed


lemma dropUsers_props:
  assumes "dropUsers cs us = (nxt, us')" "distinct (map fst cs)" "\<forall>c \<in> fst ` set cs. \<exists>k. us c = Some k"
  shows "us' = (\<lambda>c. if c \<in> fst ` set cs then Some (the (us c) - 1) else us c)
       \<and> set nxt = {c \<in> fst ` set cs. the (us c) - 1 = 0} \<and> distinct nxt"
  using assms
proof (induction cs us arbitrary: nxt us' rule: dropUsers.induct)
  case (1 us)
  then show ?case by simp
next
  case (2 child ks rest us)
  define n where "n = the (us child) - 1"
  have n: "(case us child of None \<Rightarrow> 0 | Some k \<Rightarrow> k) - 1 = n" using 2(4) by (auto simp: n_def)
  obtain nxt1 us1 where r: "dropUsers rest (us(child \<mapsto> n)) = (nxt1, us1)" by fastforce
  have eq: "nxt = (if n = 0 then child # nxt1 else nxt1)" "us' = us1"
    using 2(2) unfolding dropUsers.simps n Let_def r prod.case by auto
  have ch: "child \<notin> fst ` set rest" using 2(3) by simp
  then have ch': "(child, k) \<notin> set rest" for k by force
  have ih: "us1 = (\<lambda>c. if c \<in> fst ` set rest then Some (the ((us(child \<mapsto> n)) c) - 1) else (us(child \<mapsto> n)) c)
      \<and> set nxt1 = {c \<in> fst ` set rest. the ((us(child \<mapsto> n)) c) - 1 = 0} \<and> distinct nxt1"
    by (rule 2(1) [OF n [symmetric] r]) (use 2(3,4) in auto)
  have us1: "us1 = (\<lambda>c. if c \<in> fst ` set rest then Some (the (us c) - 1) else (us(child \<mapsto> n)) c)"
    using ch' conjunct1 [OF ih] by (auto simp: fun_eq_iff)
  have nxt1: "set nxt1 = {c \<in> fst ` set rest. the (us c) - 1 = 0}" "distinct nxt1"
    using ch' conjunct2 [OF ih] by (auto split: if_splits)
  have "us' = (\<lambda>c. if c \<in> fst ` set ((child, ks) # rest) then Some (the (us c) - 1) else us c)"
    using ch by (auto simp: eq us1 n_def fun_eq_iff)
  moreover have "set nxt = {c \<in> fst ` set ((child, ks) # rest). the (us c) - 1 = 0} \<and> distinct nxt"
    using ch nxt1 by (auto simp: eq n_def)
  ultimately show ?case by blast
qed

lemma succ_hasUsers: "n \<in> R \<Longrightarrow> c \<in> succs uses n \<Longrightarrow> openUsers R uses {} c \<noteq> {}"
  by (auto simp: openUsers_def)

lemma markMissing_same [simp]:
  "used (markMissing n b) = used b" "users (markMissing n b) = users b" "rebuilt (markMissing n b) = rebuilt b"
  "anyNeeds (markMissing n b) = anyNeeds b" "bvalid (markMissing n b) = bvalid b" "bqueried (markMissing n b) = bqueried b"
  "bbudget (markMissing n b) = bbudget b"
  by (simp_all add: markMissing_def)

text \<open>Counting down the users of what a decided node uses gives the nodes that became ready.\<close>

lemma dropUsers_ready:
  assumes n: "n \<in> R - D" and R: "R = nodesBelow roots uses" "finite R" and d: "\<forall>n. distinct (map fst (uses n))"
    and cnt: "\<forall>c \<in> R. openUsers R uses {} c \<noteq> {} \<longrightarrow> us0 c = Some (card (openUsers R uses D c))"
    and dr: "dropUsers (uses n) us0 = (nxt, us)"
  shows "(\<forall>c \<in> R. openUsers R uses {} c \<noteq> {} \<longrightarrow> us c = Some (card (openUsers R uses (insert n D) c)))
       \<and> set nxt = ready R uses (insert n D) - ready R uses D \<and> distinct nxt"
proof -
  have us: "us0 c = Some (card (openUsers R uses D c))" if "c \<in> succs uses n" for c
    using that cnt n succ_hasUsers nodesBelow_closed by (metis R(1) DiffD1)
  from dropUsers_props [OF dr] d us have drop: "us = (\<lambda>c. if c \<in> succs uses n then Some (the (us0 c) - 1) else us0 c)"
    "set nxt = {c \<in> succs uses n. the (us0 c) - 1 = 0}" "distinct nxt"
    by (auto simp: succs_def)
  have card: "card (openUsers R uses D c) - 1 = card (openUsers R uses (insert n D) c)" if "c \<in> succs uses n" for c
    using that n R(2) by (subst openUsers_insert) (simp add: openUsers_def card_Diff_singleton)
  have keep: "openUsers R uses (insert n D) c = openUsers R uses D c" if "c \<notin> succs uses n" for c
    using that by (auto simp: openUsers_def)
  have fin: "finite (openUsers R uses D' c)" for D' c using R(2) by (simp add: openUsers_def)
  have "the (us0 c) - 1 = 0 \<longleftrightarrow> openUsers R uses (insert n D) c = {}" if "c \<in> succs uses n" for c
    unfolding us [OF that] option.sel card [OF that] using fin by simp
  then have "set nxt = {c \<in> succs uses n. openUsers R uses (insert n D) c = {}}"
    unfolding drop(2) by blast
  also have "\<dots> = ready R uses (insert n D) - ready R uses D"
    using n nodesBelow_closed [of n roots uses] keep unfolding ready_def R(1) [symmetric]
    by (auto simp: openUsers_def)
  finally show ?thesis using cnt us card keep drop(3) by (auto simp: drop(1))
qed

text \<open>Deciding a node that is ready keeps the invariant.\<close>

lemma decideOne_inv:
  assumes inv: "bwInv roots rr uses held avail D b"
    and n: "n \<in> ready R uses D - D" and R: "R = nodesBelow roots uses" "finite R"
    and d: "\<forall>n. distinct (map fst (uses n))"
    and v: "\<And>ks. needs b n = Some ks \<Longrightarrow> n \<notin> rebuilt b \<Longrightarrow> ks \<inter> avail \<subseteq> bvalid b"
    and b1: "b1 = markMissing n b" and dr: "dropUsers (usedAt b1 n) (users b1) = (nxt, us)"
  shows "bwInv roots rr uses held avail (insert n D) (b1\<lparr>users := us\<rparr>)
       \<and> set nxt = ready R uses (insert n D) - ready R uses D \<and> distinct nxt"
proof -
  have nR: "n \<in> R - D" using n by (auto simp: ready_def)
  note mm = markMissing_inv [OF inv _ d v, folded R(1), OF n, folded b1]
  note I = bwInvD(1,3,9,8,10) [OF inv, folded R(1)]
  have "usedAt b1 n = uses n" "users b1 = users b" using I(1) nR by (simp_all add: usedAt_def b1)
  then have "dropUsers (uses n) (users b) = (nxt, us)" using dr by simp
  note drop = dropUsers_ready [OF nR R d I(2) this]
  have "c \<notin> succs uses n" if "c \<in> insert n D" for c
    using that I(4) n ready_not_succ [of c R uses D n] nR by auto
  then have md: "\<forall>c \<in> insert n D. c \<in> bmissing b1 \<longleftrightarrow> mustBuild roots rr uses avail (bmissing b1) c"
    using mm I(3,5) nR mustBuild_insert [of _ uses n] by (auto split: if_splits)
  have "insert n D \<subseteq> ready R uses (insert n D)" "bmissing b1 \<subseteq> insert n D"
    using I(3,4) n ready_mono [of D "insert n D" R uses] mm by (auto split: if_splits)
  with inv md conjunct1 [OF drop] mm have "bwInv roots rr uses held avail (insert n D) (b1\<lparr>users := us\<rparr>)"
    unfolding bwInv_def Let_def R(1) [symmetric] by (simp add: b1)
  with drop show ?thesis by blast
qed

definition supplied :: "'k set \<Rightarrow> ('n, 'k) bwalk \<Rightarrow> 'n \<Rightarrow> bool" where
  "supplied avail b n \<longleftrightarrow> n \<in> rebuilt b \<or> (\<forall>ks. needs b n = Some ks \<longrightarrow> ks \<inter> avail \<subseteq> bvalid b)"

lemma decideNodes_inv:
  assumes "decideNodes rest b = (nxt, b')" "bwInv roots rr uses held avail D b"
    and "set rest \<subseteq> ready R uses D - D" "distinct rest" "\<forall>n \<in> set rest. supplied avail b n"
    and R: "R = nodesBelow roots uses" "finite R" and d: "\<forall>n. distinct (map fst (uses n))"
  shows "bwInv roots rr uses held avail (D \<union> set rest) b'
       \<and> set nxt = ready R uses (D \<union> set rest) - ready R uses D \<and> distinct nxt"
  using assms(1-5)
proof (induction rest arbitrary: b D nxt b')
  case Nil
  then show ?case by simp
next
  case (Cons n rest)
  define b1 where "b1 = markMissing n b"
  obtain n1 us where dr: "dropUsers (usedAt b1 n) (users b1) = (n1, us)" by fastforce
  obtain n2 b2 where rec: "decideNodes rest (b1\<lparr>users := us\<rparr>) = (n2, b2)" by fastforce
  have eq: "nxt = n1 @ n2" "b' = b2" using Cons(2) dr rec by (simp_all add: Let_def b1_def)
  have n: "n \<in> ready R uses D - D" using Cons(4) by simp
  have sup: "needs b n = Some ks \<Longrightarrow> n \<notin> rebuilt b \<Longrightarrow> ks \<inter> avail \<subseteq> bvalid b" for ks
    using Cons(6) by (simp add: supplied_def)
  note one = decideOne_inv [OF Cons(3) n R d sup b1_def dr]
  have sub: "ready R uses D \<subseteq> ready R uses (insert n D)" by (rule ready_mono) blast
  have "needs b1 c = needs b c" if "c \<in> set rest" for c
  proof -
    have "c \<notin> succs uses n" using that Cons(4) n ready_not_succ [of c R uses D n] by (auto simp: ready_def)
    then show ?thesis
      using bwInvD(4) [OF Cons(3)] markMissing_inv [OF Cons(3) _ d sup, folded R(1), OF n] by (simp add: b1_def wantedOf_insert)
  qed
  then have sup': "\<forall>c \<in> set rest. supplied avail (b1\<lparr>users := us\<rparr>) c"
    using Cons(6) by (auto simp: supplied_def b1_def)
  have ih: "bwInv roots rr uses held avail (insert n D \<union> set rest) b2
      \<and> set n2 = ready R uses (insert n D \<union> set rest) - ready R uses (insert n D) \<and> distinct n2"
    by (rule Cons(1) [OF rec conjunct1 [OF one] _ _ sup']) (use Cons(4,5) sub in auto)
  have "ready R uses (insert n D) \<subseteq> ready R uses (insert n D \<union> set rest)" by (rule ready_mono) blast
  with one ih sub show ?case by (auto simp: eq)
qed

section \<open>One round\<close>

lemma queryAhead_inv:
  assumes inv: "bwInv roots rr uses held avail D b" and q: "\<And>K. query K = K \<inter> held" and ha: "held \<subseteq> avail"
  shows "bwInv roots rr uses held avail D (queryAhead query needed b)
       \<and> set needed \<subseteq> bqueried (queryAhead query needed b)"
proof -
  obtain batch queried where nb: "nextBatch needed (\<lambda>node. map fst (usedAt b node)) (bqueried b) (bbudget b) = (batch, queried)"
    by fastforce
  let ?ks = "\<Union>node \<in> set batch. case anyNeeds b node of None \<Rightarrow> {} | Some s \<Rightarrow> s"
  have eq: "queryAhead query needed b = b\<lparr>bvalid := bvalid b \<union> (?ks \<inter> held), bqueried := queried\<rparr>"
    by (auto simp: queryAhead_def nb q Let_def)
  have q': "queried = bqueried b \<union> set batch" "set needed \<subseteq> queried" using nextBatch_props [OF nb] by auto
  have "ks \<inter> held \<subseteq> bvalid b \<union> (?ks \<inter> held)" if "n \<in> queried" "anyNeeds b n = Some ks" for n ks
  proof (cases "n \<in> set batch")
    case True
    then have "ks \<subseteq> ?ks" using that(2) by force
    then show ?thesis by blast
  next
    case False
    with that(1) have "n \<in> bqueried b" by (simp add: q')
    with inv that(2) have "ks \<inter> held \<subseteq> bvalid b" by (simp add: bwInv_def Let_def)
    then show ?thesis by blast
  qed
  then have "\<forall>n \<in> queried. \<forall>ks. anyNeeds b n = Some ks \<longrightarrow> ks \<inter> held \<subseteq> bvalid b \<union> (?ks \<inter> held)" by blast
  moreover have "bvalid b \<union> (?ks \<inter> held) \<subseteq> avail" using bwInvD(6) [OF inv] ha by blast
  ultimately show ?thesis using inv q'(2) unfolding eq bwInv_def Let_def by simp
qed

lemma queryAhead_same [simp]:
  "needs (queryAhead query needed b) = needs b" "rebuilt (queryAhead query needed b) = rebuilt b"
  "blevel (queryAhead query needed b) = blevel b"
  by (simp_all add: queryAhead_def Let_def split: prod.splits)

lemma fetchLacking_inv:
  assumes inv: "bwInv roots rr uses held avail D b" and R: "R = nodesBelow roots uses" "D \<subseteq> R"
    and f: "\<And>K. K \<inter> held = {} \<Longrightarrow> fetch K = K \<inter> avail"
    and nd: "set needed \<subseteq> bqueried b"
  shows "bwInv roots rr uses held avail D (fetchLacking fetch needed b)
       \<and> (\<forall>n \<in> set needed. supplied avail (fetchLacking fetch needed b) n)"
proof -
  let ?l = "\<Union>node \<in> set needed. if node \<in> rebuilt b then {}
            else (case needs b node of None \<Rightarrow> {} | Some ks \<Rightarrow> ks) - bvalid b"
  have "ks \<inter> held \<subseteq> bvalid b" if n: "n \<in> set needed" "needs b n = Some ks" for n ks
  proof -
    obtain ks' where w: "wantedOf roots rr uses R n = Some ks'" "ks \<subseteq> ks'"
      using wantedOf_mono [OF n(2) [unfolded bwInvD(4) [OF inv]] order_trans [OF bwInvD(9) [OF inv] R(2)]] by blast
    from w(1) have "anyNeeds b n = Some ks'" using bwInvD(5) [OF inv] by (simp add: R(1))
    then have "ks' \<inter> held \<subseteq> bvalid b" using bwInvD(7) [OF inv] n(1) nd by blast
    with w(2) show ?thesis by blast
  qed
  then have "\<forall>n \<in> set needed. case needs b n of None \<Rightarrow> True | Some ks \<Rightarrow> (ks - bvalid b) \<inter> held = {}"
    by (force split: option.splits)
  then have "?l \<inter> held = {}" by (fastforce split: if_splits option.splits)
  then have eq: "fetchLacking fetch needed b = b\<lparr>bvalid := bvalid b \<union> (?l \<inter> avail)\<rparr>"
    unfolding fetchLacking_def Let_def by (cases "?l = {}") (simp_all only: f if_True if_False Int_empty_left Un_empty_right)
  have "bvalid b \<union> (?l \<inter> avail) \<subseteq> avail" using bwInvD(6) [OF inv] by blast
  moreover have "ks \<inter> held \<subseteq> bvalid b \<union> (?l \<inter> avail)" if "n \<in> bqueried b" "anyNeeds b n = Some ks" for n ks
    using bwInvD(7) [OF inv that] by blast
  ultimately have "bwInv roots rr uses held avail D (fetchLacking fetch needed b)"
    using inv unfolding eq bwInv_def Let_def by simp
  moreover have "supplied avail (fetchLacking fetch needed b) n" if n: "n \<in> set needed" for n
  proof (cases "n \<in> rebuilt b")
    case False
    have "ks - bvalid b \<subseteq> ?l" if "needs b n = Some ks" for ks
      using n False that by force
    then show ?thesis unfolding supplied_def eq by auto
  qed (simp add: supplied_def eq)
  ultimately show ?thesis by blast
qed

lemma fetchLacking_same [simp]:
  "needs (fetchLacking fetch needed b) = needs b" "rebuilt (fetchLacking fetch needed b) = rebuilt b"
  "blevel (fetchLacking fetch needed b) = blevel b"
  by (simp_all add: fetchLacking_def Let_def)


section \<open>The rounds\<close>

text \<open>On a finite acyclic graph some undecided node has no undecided user.\<close>

lemma ready_progress:
  assumes "finite R" "acyclic (usesRel uses)" "ready R uses D \<subseteq> D"
  shows "R \<subseteq> D"
proof (rule ccontr)
  let ?r = "usesRel uses \<inter> R \<times> R"
  assume "\<not> R \<subseteq> D"
  then obtain x where x: "x \<in> R - D" by blast
  have "acyclic ?r" using assms(2) by (rule acyclic_subset) blast
  moreover have "finite ?r" using assms(1) by blast
  ultimately have "wf ?r" by (rule finite_acyclic_wf [rotated])
  then obtain z where z: "z \<in> R - D" "\<And>y. (y, z) \<in> ?r \<Longrightarrow> y \<notin> R - D"
    using x unfolding wf_eq_minimal by meson
  then have "openUsers R uses D z = {}" by (auto simp: openUsers_def usesRel_def)
  with z(1) assms(3) show False by (auto simp: ready_def)
qed

lemma bwInv_done:
  assumes inv: "bwInv roots rr uses held avail D b" and "nodesBelow roots uses \<subseteq> D"
  shows "n \<in> bmissing b \<longleftrightarrow> mustBuild roots rr uses avail (bmissing b) n"
proof (cases "n \<in> nodesBelow roots uses")
  case True
  with assms(2) bwInvD(10) [OF inv] show ?thesis by blast
next
  case False
  have m: "bmissing b \<subseteq> nodesBelow roots uses" using bwInvD(8,9) [OF inv] by (auto simp: ready_def)
  with False have "\<forall>m \<in> bmissing b. n \<notin> succs uses m" using nodesBelow_closed by (metis subset_iff)
  with False have "wantedOf roots rr uses (bmissing b) n = None"
    using roots_nodesBelow [of roots uses] by (auto simp: wantedOf_def)
  with False m show ?thesis by (auto simp: mustBuild_def)
qed

lemma buildRun_correct:
  assumes R: "R = nodesBelow roots uses" "finite R" and d: "\<forall>n. distinct (map fst (uses n))"
    and ac: "acyclic (usesRel uses)" and q: "\<And>K. query K = K \<inter> held" and ha: "held \<subseteq> avail"
    and f: "\<And>K. K \<inter> held = {} \<Longrightarrow> fetch K = K \<inter> avail"
  shows "bwInv roots rr uses held avail D b \<Longrightarrow> set (blevel b) = ready R uses D - D \<Longrightarrow> distinct (blevel b)
    \<Longrightarrow> card (R - D) < fuel
    \<Longrightarrow> \<exists>M. buildRun query fetch fuel b = Some M \<and> (\<forall>n. n \<in> M \<longleftrightarrow> mustBuild roots rr uses avail M n)"
proof (induction fuel arbitrary: b D)
  case (Suc fuel)
  show ?case
  proof (cases "blevel b = []")
    case True
    with Suc(3) have "R \<subseteq> D" by (intro ready_progress [OF R(2) ac]) simp
    with bwInv_done [OF Suc(2)] True show ?thesis by (simp add: R(1))
  next
    case False
    define needed where "needed = filter (\<lambda>node. needs b node \<noteq> None) (blevel b)"
    define b1 where "b1 = queryAhead query needed b"
    define b2 where "b2 = fetchLacking fetch needed b1"
    have DR: "D \<subseteq> R" using bwInvD(8) [OF Suc(2)] by (auto simp: ready_def R(1))
    have b1: "bwInv roots rr uses held avail D b1" "set needed \<subseteq> bqueried b1"
      using queryAhead_inv [OF Suc(2) q ha] by (simp_all add: b1_def)
    have b2: "bwInv roots rr uses held avail D b2" "\<forall>n \<in> set needed. supplied avail b2 n"
      using fetchLacking_inv [OF b1(1) R(1) DR f b1(2)] by (simp_all add: b2_def)
    have same: "blevel b2 = blevel b" "needs b2 = needs b" by (simp_all add: b2_def b1_def)
    have sup: "\<forall>n \<in> set (blevel b). supplied avail b2 n"
      using b2(2) by (auto simp: needed_def supplied_def same)
    obtain nxt b3 where dn: "decideNodes (blevel b) b2 = (nxt, b3)" by fastforce
    let ?D = "D \<union> set (blevel b)"
    have b3: "bwInv roots rr uses held avail ?D b3 \<and> set nxt = ready R uses ?D - ready R uses D \<and> distinct nxt"
      by (rule decideNodes_inv [OF dn b2(1) _ Suc(4) sup R d]) (simp add: Suc(3))
    have "D \<subseteq> ready R uses D" using bwInvD(8) [OF Suc(2)] by (simp add: R(1))
    then have D': "?D = ready R uses D" using Suc(3) by blast
    have "\<exists>x. x \<in> set (blevel b)" using False by (cases "blevel b") auto
    then have "R - ?D \<subset> R - D" using Suc(3) unfolding ready_def by blast
    then have c: "card (R - ?D) < fuel" using Suc(5) R(2) psubset_card_mono [of "R - D" "R - ?D"] by simp
    have i: "bwInv roots rr uses held avail ?D (b3\<lparr>blevel := nxt\<rparr>)"
      using b3 by (simp add: bwInv_def)
    have l: "set (blevel (b3\<lparr>blevel := nxt\<rparr>)) = ready R uses ?D - ?D" "distinct (blevel (b3\<lparr>blevel := nxt\<rparr>))"
      using b3 unfolding D' by simp_all
    have r: "buildRun query fetch (Suc fuel) b = buildRun query fetch fuel (b3\<lparr>blevel := nxt\<rparr>)"
      unfolding buildRun.simps needed_def [symmetric] Let_def b1_def [symmetric] b2_def [symmetric] decide_def same dn prod.case
      using False by simp
    show ?thesis unfolding r by (rule Suc(1) [OF i l c])
  qed
qed simp


section \<open>Exploring the graph\<close>

definition countOf :: "nat option \<Rightarrow> nat" where
  "countOf k = (case k of None \<Rightarrow> 0 | Some n \<Rightarrow> n)"

lemma addUse_fold:
  assumes "distinct (map fst cs)"
  shows "foldl addUse b cs = b\<lparr>users := (\<lambda>c. if c \<in> fst ` set cs then Some (countOf (users b c) + 1) else users b c),
     anyNeeds := foldl (\<lambda>m (child, ks). m(child := addKeys ks (m child))) (anyNeeds b) cs\<rparr>"
  using assms
proof (induction cs arbitrary: b)
  case (Cons u cs)
  obtain c ks where u: "u = (c, ks)" by fastforce
  from Cons(2) have c: "c \<notin> fst ` set cs" by (simp add: u)
  let ?b = "addUse b u"
  have sel: "users ?b = (users b)(c \<mapsto> countOf (users b c) + 1)" "anyNeeds ?b = (anyNeeds b)(c := addKeys ks (anyNeeds b c))"
    "?b\<lparr>users := us, anyNeeds := an\<rparr> = b\<lparr>users := us, anyNeeds := an\<rparr>" for us an
    by (simp_all add: u addUse_def countOf_def)
  have us: "(\<lambda>d. if d \<in> fst ` set cs then Some (countOf (users ?b d) + 1) else users ?b d)
      = (\<lambda>d. if d \<in> fst ` set (u # cs) then Some (countOf (users b d) + 1) else users b d)"
    using c unfolding sel by (auto simp: fun_eq_iff u)
  have "foldl addUse b (u # cs) = foldl addUse ?b cs" by simp
  also have "\<dots> = ?b\<lparr>users := (\<lambda>c. if c \<in> fst ` set cs then Some (countOf (users ?b c) + 1) else users ?b c),
     anyNeeds := foldl (\<lambda>m (child, ks). m(child := addKeys ks (m child))) (anyNeeds ?b) cs\<rparr>"
    by (rule Cons(1)) (use Cons(2) in simp)
  finally show ?case unfolding us sel(3) sel(2) foldl_Cons by (simp only: u prod.case)
qed simp

definition exInv :: "('n \<times> 'k list) list \<Rightarrow> bool \<Rightarrow> ('n \<Rightarrow> ('n \<times> 'k list) list) \<Rightarrow> 'n list \<Rightarrow> ('n, 'k) bwalk \<Rightarrow> bool" where
  "exInv roots rr uses todo b \<longleftrightarrow>
     (let X = dom (used b); R = nodesBelow roots uses in
      (\<forall>n \<in> X. used b n = Some (uses n))
      \<and> (\<forall>c. users b c = (if \<exists>n \<in> X. c \<in> succs uses n then Some (card {n \<in> X. c \<in> succs uses n}) else None))
      \<and> anyNeeds b = wantedOf roots rr uses X \<and> needs b = wantedOf roots rr uses {}
      \<and> rebuilt b = (if rr then fst ` set roots else {}) \<and> bvalid b = {} \<and> bqueried b = {} \<and> bmissing b = {}
      \<and> X \<union> set todo \<subseteq> R \<and> fst ` set roots \<subseteq> X \<union> set todo
      \<and> (\<forall>n \<in> X. succs uses n \<subseteq> X \<union> set todo))"

definition rootKeys :: "bool \<Rightarrow> ('n \<Rightarrow> 'k set option) \<Rightarrow> ('n \<times> 'k list) list \<Rightarrow> 'n \<Rightarrow> 'k set option" where
  "rootKeys rr m rs n = (case map_of rs n of None \<Rightarrow> m n | Some ks \<Rightarrow> Some (if rr then {} else set ks))"

lemma addRoot_fold:
  assumes "distinct (map fst rs)"
  shows "foldl (addRoot rr) b rs =
      b\<lparr>rebuilt := rebuilt b \<union> (if rr then fst ` set rs else {}), needs := rootKeys rr (needs b) rs,
        anyNeeds := rootKeys rr (anyNeeds b) rs\<rparr>"
  using assms
proof (induction rs arbitrary: b)
  case Nil
  show ?case by (simp add: rootKeys_def)
next
  case (Cons x rs)
  obtain a ks where x: "x = (a, ks)" by fastforce
  with Cons(2) have "map_of rs a = None" by (simp add: map_of_eq_None_iff)
  then have k: "rootKeys rr (m(a \<mapsto> (if rr then {} else set ks))) rs = rootKeys rr m (x # rs)" for m
    by (auto simp: fun_eq_iff x rootKeys_def split: option.splits)
  let ?b = "addRoot rr b x"
  have sel: "rebuilt ?b = rebuilt b \<union> (if rr then {a} else {})" "needs ?b = (needs b)(a \<mapsto> (if rr then {} else set ks))"
    "anyNeeds ?b = (anyNeeds b)(a \<mapsto> (if rr then {} else set ks))"
    "?b\<lparr>rebuilt := rs, needs := ns, anyNeeds := an\<rparr> = b\<lparr>rebuilt := rs, needs := ns, anyNeeds := an\<rparr>" for rs ns an
    by (simp_all add: x addRoot_def Let_def)
  have r: "rebuilt b \<union> (if rr then {a} else {}) \<union> (if rr then fst ` set rs else {})
      = rebuilt b \<union> (if rr then fst ` set (x # rs) else {})"
    by (simp add: x)
  have "foldl (addRoot rr) b (x # rs) = foldl (addRoot rr) ?b rs" by simp
  also have "\<dots> = ?b\<lparr>rebuilt := rebuilt ?b \<union> (if rr then fst ` set rs else {}), needs := rootKeys rr (needs ?b) rs,
        anyNeeds := rootKeys rr (anyNeeds ?b) rs\<rparr>"
    by (rule Cons(1)) (use Cons(2) in simp)
  finally show ?case unfolding sel k r .
qed

lemma exInv_init:
  assumes "distinct (map fst roots)"
  shows "exInv roots rr uses (map fst roots) (foldl (addRoot rr)
     \<lparr>bbudget = budget, rebuilt = {}, used = Map.empty, users = Map.empty, needs = Map.empty, anyNeeds = Map.empty,
      blevel = [], bvalid = {}, bqueried = {}, bmissing = {}\<rparr> roots)"
proof -
  have "rootKeys rr Map.empty roots n = wantedOf roots rr uses {} n" for n
  proof (cases "map_of roots n")
    case None
    then have "n \<notin> fst ` set roots" by (simp add: map_of_eq_None_iff)
    with None show ?thesis by (simp add: wantedOf_def rootKeys_def)
  next
    case (Some ks)
    then have "(n, ks') \<in> set roots \<longleftrightarrow> ks' = ks" for ks'
      unfolding map_of_eq_Some_iff [OF assms, of n, symmetric] by auto
    then have "keysAsked roots n = set ks" by (simp add: keysAsked_def)
    moreover have "n \<in> fst ` set roots" using map_of_SomeD [OF Some] by force
    ultimately show ?thesis using Some by (simp add: wantedOf_def keysFrom_def rootKeys_def)
  qed
  then have "rootKeys rr Map.empty roots = wantedOf roots rr uses {}" by blast
  then show ?thesis
    using roots_nodesBelow [of roots uses] unfolding addRoot_fold [OF assms]
    by (simp add: exInv_def Let_def)
qed

text \<open>A round of the exploration drops a node that was explored, or explores it.\<close>

definition exploreWork :: "'n set \<Rightarrow> ('n \<Rightarrow> ('n \<times> 'k list) list) \<Rightarrow> 'n list \<Rightarrow> ('n, 'k) bwalk \<Rightarrow> nat" where
  "exploreWork R uses todo b = (\<Sum>n \<in> R - dom (used b). length (uses n) + 1) + length todo"

lemma set_last_butlast: "xs \<noteq> [] \<Longrightarrow> set xs = insert (last xs) (set (butlast xs))"
  by (induction xs) auto

lemma exInvD:
  assumes "exInv roots rr uses todo b"
  shows "\<forall>n \<in> dom (used b). used b n = Some (uses n)"
    and "users b c = (if \<exists>n \<in> dom (used b). c \<in> succs uses n then Some (card {n \<in> dom (used b). c \<in> succs uses n}) else None)"
    and "anyNeeds b = wantedOf roots rr uses (dom (used b))" and "needs b = wantedOf roots rr uses {}"
    and "rebuilt b = (if rr then fst ` set roots else {})" and "bvalid b = {}" and "bqueried b = {}" and "bmissing b = {}"
    and "dom (used b) \<union> set todo \<subseteq> nodesBelow roots uses" and "fst ` set roots \<subseteq> dom (used b) \<union> set todo"
    and "\<forall>n \<in> dom (used b). succs uses n \<subseteq> dom (used b) \<union> set todo"
  using assms unfolding exInv_def Let_def by simp_all

lemma exInv_skip:
  assumes "exInv roots rr uses todo b" "todo \<noteq> []" "used b (last todo) \<noteq> None"
  shows "exInv roots rr uses (butlast todo) b"
proof -
  have t: "set todo = insert (last todo) (set (butlast todo))"
    by (rule set_last_butlast [OF assms(2)])
  have "last todo \<in> dom (used b)" using assms(3) by blast
  then have eq: "dom (used b) \<union> set (butlast todo) = dom (used b) \<union> set todo" unfolding t by blast
  show ?thesis using assms(1) unfolding exInv_def Let_def eq .
qed

lemma card_users_insert:
  assumes "finite X" "n \<notin> X"
  shows "card {m \<in> insert n X. c \<in> succs uses m} = card {m \<in> X. c \<in> succs uses m} + (if c \<in> succs uses n then 1 else 0)"
proof -
  have "{m \<in> insert n X. c \<in> succs uses m} = (if c \<in> succs uses n then insert n {m \<in> X. c \<in> succs uses m} else {m \<in> X. c \<in> succs uses m})"
    by auto
  then show ?thesis using assms by simp
qed

lemma exInv_explore:
  assumes inv: "exInv roots rr uses todo b" and t: "todo \<noteq> []" and u: "used b (last todo) = None"
    and d: "\<forall>n. distinct (map fst (uses n))" and fin: "finite (nodesBelow roots uses)"
  shows "exInv roots rr uses (butlast todo @ map fst (uses (last todo)))
     (foldl addUse (b\<lparr>used := (used b)(last todo \<mapsto> uses (last todo))\<rparr>) (uses (last todo)))"
proof -
  define n where "n = last todo"
  define X where "X = dom (used b)"
  have st: "set todo = insert n (set (butlast todo))"
    unfolding n_def by (rule set_last_butlast [OF t])
  note i = exInvD(1-3,9-11) [OF inv, folded X_def]
  have X: "n \<notin> X" "finite X" "n \<in> nodesBelow roots uses"
    using u i(4) finite_subset [OF _ fin] unfolding st by (auto simp: X_def n_def)
  have cnt: "countOf (users b c) = card {m \<in> X. c \<in> succs uses m}" for c
    using i(2) X(2) by (auto simp: countOf_def)
  have us: "(if c \<in> succs uses n then Some (countOf (users b c) + 1) else users b c)
      = (if \<exists>m \<in> insert n X. c \<in> succs uses m then Some (card {m \<in> insert n X. c \<in> succs uses m}) else None)" for c
    unfolding card_users_insert [OF X(2,1)] cnt using i(2) by auto
  have an: "foldl (\<lambda>m (child, ks). m(child := addKeys ks (m child))) (anyNeeds b) (uses n) = wantedOf roots rr uses (insert n X)"
    using d by (simp add: fun_eq_iff addKeys_fold wantedOf_addKeys i(3))
  have sm: "set (map fst (uses n)) = succs uses n" by (simp add: succs_def)
  have cl: "insert n X \<union> set (butlast todo @ map fst (uses n)) \<subseteq> nodesBelow roots uses"
    "fst ` set roots \<subseteq> insert n X \<union> set (butlast todo @ map fst (uses n))"
    "\<forall>m \<in> insert n X. succs uses m \<subseteq> insert n X \<union> set (butlast todo @ map fst (uses n))"
    using i(4-6) X(3) nodesBelow_closed [OF X(3)] unfolding st set_append sm by blast+
  let ?b = "foldl addUse (b\<lparr>used := (used b)(n \<mapsto> uses n)\<rparr>) (uses n)"
  have f: "fst ` set (uses n) = succs uses n" by (simp add: succs_def)
  have sel: "used ?b = (used b)(n \<mapsto> uses n)"
    "anyNeeds ?b = wantedOf roots rr uses (insert n X)"
    "needs ?b = needs b" "rebuilt ?b = rebuilt b" "bvalid ?b = bvalid b" "bqueried ?b = bqueried b" "bmissing ?b = bmissing b"
    by (simp_all add: addUse_fold [OF d [rule_format]] f an [simplified])
  have selU: "users ?b c = (if \<exists>m \<in> insert n X. c \<in> succs uses m then Some (card {m \<in> insert n X. c \<in> succs uses m}) else None)" for c
    unfolding us [symmetric] by (simp add: addUse_fold [OF d [rule_format]] f)
  have dm: "dom ((used b)(n \<mapsto> uses n)) = insert n X" by (simp add: X_def)
  show ?thesis
    using i(1) exInvD(4-8) [OF inv] cl unfolding n_def [symmetric] exInv_def Let_def sel selU dm by simp
qed


lemma exploreWork_explore:
  assumes "finite R" "last todo \<in> R" "used b (last todo) = None" "todo \<noteq> []" "\<forall>n. distinct (map fst (uses n))"
  shows "exploreWork R uses (butlast todo @ map fst (uses (last todo)))
     (foldl addUse (b\<lparr>used := (used b)(last todo \<mapsto> uses (last todo))\<rparr>) (uses (last todo))) < exploreWork R uses todo b"
proof -
  let ?n = "last todo" and ?U = "R - dom (used b)"
  have "R - insert ?n (dom (used b)) = ?U - {?n}" by blast
  moreover have "(\<Sum>n \<in> ?U. length (uses n) + 1) = length (uses ?n) + 1 + (\<Sum>n \<in> ?U - {?n}. length (uses n) + 1)"
    using assms(1-3) by (intro sum.remove) auto
  moreover have "0 < length todo" using assms(4) by simp
  ultimately show ?thesis
    by (simp add: exploreWork_def addUse_fold [OF assms(5) [rule_format]])
qed

lemma exploreLoop_correct:
  assumes d: "\<forall>n. distinct (map fst (uses n))" and R: "R = nodesBelow roots uses" "finite R"
  shows "exInv roots rr uses todo b \<Longrightarrow> exploreWork R uses todo b < fuel
    \<Longrightarrow> \<exists>b'. exploreLoop uses fuel todo b = Some b' \<and> exInv roots rr uses [] b'"
proof (induction fuel arbitrary: todo b)
  case (Suc fuel)
  show ?case
  proof (cases "todo = []")
    case False
    then have last: "last todo \<in> R" using exInvD(9) [OF Suc(2)] last_in_set [OF False] unfolding R(1) by blast
    show ?thesis
    proof (cases "used b (last todo) = None")
      case True
      let ?t = "butlast todo @ map fst (uses (last todo))"
      let ?b = "foldl addUse (b\<lparr>used := (used b)(last todo \<mapsto> uses (last todo))\<rparr>) (uses (last todo))"
      have "exploreWork R uses ?t ?b < fuel"
        using exploreWork_explore [OF R(2) last True False d] Suc(3) by linarith
      from Suc(1) [OF exInv_explore [OF Suc(2) False True d] this] R False True show ?thesis by (simp add: Let_def)
    next
      case u: False
      have "exploreWork R uses (butlast todo) b < exploreWork R uses todo b"
        using False by (simp add: exploreWork_def)
      with Suc(3) have "exploreWork R uses (butlast todo) b < fuel" by linarith
      from Suc(1) [OF exInv_skip [OF Suc(2) False u] this] False u show ?thesis by (simp add: Let_def)
    qed
  qed (use Suc in simp)
qed simp

lemma exInv_bwInv:
  assumes inv: "exInv roots rr uses [] b"
  shows "bwInv roots rr uses held avail {} b"
    and "users b n = None \<longleftrightarrow> openUsers (nodesBelow roots uses) uses {} n = {}"
proof -
  let ?R = "nodesBelow roots uses"
  note i = exInvD [OF inv]
  have "x \<in> dom (used b)" if "(r, x) \<in> (usesRel uses)\<^sup>*" "r \<in> fst ` set roots" for r x
    using that(1)
  proof (induction rule: rtrancl_induct)
    case base
    then show ?case using i(10) that(2) by auto
  next
    case (step y z)
    then show ?case using i(11) by (auto simp: usesRel_def)
  qed
  then have "?R \<subseteq> dom (used b)" unfolding nodesBelow_def by blast
  then have X: "dom (used b) = ?R" using i(9) by auto
  have o: "openUsers ?R uses {} c = {n \<in> ?R. c \<in> succs uses n}" for c by (simp add: openUsers_def)
  show "bwInv roots rr uses held avail {} b"
    using i unfolding bwInv_def Let_def X o by auto
  show "users b n = None \<longleftrightarrow> openUsers ?R uses {} n = {}"
    using i(2) unfolding X o by auto
qed

lemma ready_are_roots:
  assumes n: "n \<in> ready (nodesBelow roots uses) uses {}"
  shows "n \<in> fst ` set roots"
proof -
  from n obtain r where r: "r \<in> fst ` set roots" "(r, n) \<in> (usesRel uses)\<^sup>*" by (auto simp: ready_def nodesBelow_def)
  from r(2) show ?thesis
  proof (cases rule: rtranclE)
    case (step y)
    then have "y \<in> openUsers (nodesBelow roots uses) uses {} n"
      using r(1) by (auto simp: openUsers_def nodesBelow_def usesRel_def)
    with n show ?thesis by (auto simp: ready_def)
  qed (use r(1) in simp)
qed

definition buildFuel :: "('n \<times> 'k list) list \<Rightarrow> ('n \<Rightarrow> ('n \<times> 'k list) list) \<Rightarrow> nat" where
  "buildFuel roots uses = (\<Sum>n \<in> nodesBelow roots uses. length (uses n) + 1) + length roots + 1"

text \<open>C13: On a finite acyclic graph, with a store that answers a query by the keys it holds and a fetch of keys
  it does not hold by those it could substitute, the walk ends, whatever the budget of its batches, and a node is in the
  result exactly when it must be built: it was requested or is used by a node in the result, and
  it is a root to be rebuilt, or nothing is asked of it, or some key asked of it by a request or
  by a node in the result can neither be found nor substituted.\<close>

theorem missingForBuild_exact:
  assumes "distinct (map fst roots)" "\<forall>n. distinct (map fst (uses n))"
    and "finite (nodesBelow roots uses)" "acyclic (usesRel uses)"
    and "\<And>K. query K = K \<inter> held" "held \<subseteq> avail" "\<And>K. K \<inter> held = {} \<Longrightarrow> fetch K = K \<inter> avail"
    and "buildFuel roots uses \<le> fuel"
  shows "\<exists>M. missingForBuild fuel roots rebuildRoots uses query fetch budget = Some M
       \<and> (\<forall>n. n \<in> M \<longleftrightarrow> mustBuild roots rebuildRoots uses avail M n)"
proof -
  let ?R = "nodesBelow roots uses"
  let ?b0 = "foldl (addRoot rebuildRoots) \<lparr>bbudget = budget, rebuilt = {}, used = Map.empty, users = Map.empty,
     needs = Map.empty, anyNeeds = Map.empty, blevel = [], bvalid = {}, bqueried = {}, bmissing = {}\<rparr> roots"
  have u: "used ?b0 = Map.empty" by (simp add: addRoot_fold [OF assms(1)])
  have "exploreWork ?R uses (map fst roots) ?b0 < fuel"
    using assms(8) by (simp add: exploreWork_def u buildFuel_def)
  from exploreLoop_correct [OF assms(2) refl assms(3) exInv_init [OF assms(1)] this]
  obtain b where b: "exploreLoop uses fuel (map fst roots) ?b0 = Some b" "exInv roots rebuildRoots uses [] b" by blast
  let ?l = "filter (\<lambda>node. users b node = None) (map fst roots)"
  have inv: "bwInv roots rebuildRoots uses held avail {} (b\<lparr>blevel := ?l\<rparr>)"
    using exInv_bwInv(1) [OF b(2)] by (simp add: bwInv_def)
  have "set ?l = ready ?R uses {}"
    using ready_are_roots [of _ roots uses] roots_nodesBelow [of roots uses] by (auto simp: exInv_bwInv(2) [OF b(2)] ready_def)
  then have lv: "set (blevel (b\<lparr>blevel := ?l\<rparr>)) = ready ?R uses {} - {}" "distinct (blevel (b\<lparr>blevel := ?l\<rparr>))"
    using assms(1) by (simp_all add: distinct_filter)
  have "card ?R \<le> (\<Sum>n \<in> ?R. length (uses n) + 1)" using sum_mono [of ?R "\<lambda>_. 1" "\<lambda>n. length (uses n) + 1"] by simp
  then have "card (?R - {}) < fuel" using assms(8) by (simp add: buildFuel_def)
  from buildRun_correct [OF refl assms(3,2,4-7) inv lv this] b(1)
  show ?thesis by (simp add: missingForBuild_def newBuildWalk_def)
qed

definition demoUses :: "nat \<Rightarrow> (nat \<times> nat list) list" where
  "demoUses n = (if n = 0 then [(1, [10]), (2, [20])] else if n = 1 then [(3, [30])] else [])"

lemma demoUses_below: "nodesBelow [(0, [0])] demoUses \<subseteq> {0, 1, 2, 3}"
proof -
  have "x \<in> {0, 1, 2, 3}" if "(0, x) \<in> (usesRel demoUses)\<^sup>*" for x
    using that by (induction rule: rtrancl_induct) (auto simp: usesRel_def succs_def demoUses_def split: if_splits)
  then show ?thesis by (auto simp: nodesBelow_def)
qed

lemma demoUses_acyclic: "acyclic (usesRel demoUses)"
  by (rule acyclic_subset [OF wf_acyclic [OF wf_less_than]])
     (auto simp: usesRel_def succs_def demoUses_def split: if_splits)

lemma demoUses_fuel: "buildFuel [(0, [0])] demoUses \<le> 9"
proof -
  have "(\<Sum>n \<in> nodesBelow [(0, [0])] demoUses. length (demoUses n) + 1) \<le> (\<Sum>n \<in> {0, 1, 2, 3}. length (demoUses n) + 1)"
    by (rule sum_mono2) (use demoUses_below in auto)
  then show ?thesis by (simp add: buildFuel_def demoUses_def)
qed

theorem missingForBuild_exact_witness:
  "\<exists>M. missingForBuild 9 [(0, [0])] False demoUses (\<lambda>K. K \<inter> {20}) (\<lambda>K. K \<inter> {20, 30}) 64 = Some M
     \<and> (\<forall>n. n \<in> M \<longleftrightarrow> mustBuild [(0, [0])] False demoUses {20, 30} M n)"
  using missingForBuild_exact [where roots = "[(0, [0])]" and uses = demoUses and query = "\<lambda>K. K \<inter> {20}" and held = "{20}"
      and avail = "{20, 30}" and fetch = "\<lambda>K. K \<inter> {20, 30}" and fuel = 9 and rebuildRoots = False and budget = 64,
      OF _ _ finite_subset [OF demoUses_below] demoUses_acyclic refl _ _ demoUses_fuel]
  by (simp add: demoUses_def)

end
