(* ===== verification/SchedReactor.thy ===== *)
theory SchedReactor
  imports Prelude
begin

text \<open>
  The reactors of \<^verbatim>\<open>src/daemon/sched-reactor.hh\<close>: the send queue of a stream and the protocol by which
  its messages are written out in batches and the stream is finished.

  The code runs on several threads.  Each section under the queue's mutex is one definition here, on
  the fields the mutex guards; what a thread does after it has unlocked (start a write, look whether
  the stream is done, finish it) is a \<open>task\<close> it leaves behind, and any thread may go first.  A
  step of \<open>rstep\<close> is one such section or one call to gRPC, so a run of \<open>rstep\<close> is an interleaving of
  the threads.  gRPC is modelled by what it promises of the callbacks: a write or read that was
  started is completed by one callback, \<open>OnCancel\<close> may come at any time.  The fields \<open>accepted\<close>, \<open>written\<close>, \<open>inFlight\<close>,
  \<open>reading\<close> and \<open>finishes\<close> record the calls made and are read by no operation.
\<close>

definition limit :: nat where
  "limit = 2 ^ 16"

definition maxBatch :: nat where
  "maxBatch = 1024"

datatype rstatus = StatusOk | InvalidArgument string

datatype task = WriteNext | StartWrite | MaybeDone | FinishCall

record 'm reactor =
  queue :: "'m list"
  writing :: bool
  closed :: bool
  outBatch :: "'m list"
  rstatus :: rstatus
  readsDone :: bool
  finished :: bool
  cancelled :: bool
  tasks :: "task list"
  inFlight :: bool
  reading :: bool
  accepted :: "'m list"
  written :: "'m list list"
  finishes :: "rstatus list"

text \<open>A new reactor: the constructor starts the first read.\<close>

definition newReactor :: "'m reactor" where
  "newReactor = \<lparr>queue = [], writing = False, closed = False, outBatch = [], rstatus = StatusOk, readsDone = False,
     finished = False, cancelled = False, tasks = [], inFlight = False, reading = True, accepted = [], written = [],
     finishes = []\<rparr>"

section \<open>The sections under the mutex\<close>

fun fillLoop :: "'m list \<Rightarrow> 'm list \<Rightarrow> 'm list \<times> 'm list" where
  "fillLoop [] batch = ([], batch)"
| "fillLoop (msg # rest) batch = (if length batch < maxBatch then fillLoop rest (batch @ [msg]) else (msg # rest, batch))"

definition fill :: "'m reactor \<Rightarrow> bool \<times> 'm reactor" where
  "fill r = (case fillLoop (queue r) [] of (q, batch) \<Rightarrow> (batch \<noteq> [], r\<lparr>queue := q, outBatch := batch\<rparr>))"

definition addTask :: "task \<Rightarrow> 'm reactor \<Rightarrow> 'm reactor" where
  "addTask t r = r\<lparr>tasks := tasks r @ [t]\<rparr>"

definition send :: "'m \<Rightarrow> 'm reactor \<Rightarrow> bool \<times> 'm reactor" where
  "send msg r =
     (if closed r \<or> limit \<le> length (queue r) then
        (False, if \<not> closed r then r\<lparr>closed := True, cancelled := True\<rparr> else r)
      else
        (let r = r\<lparr>queue := queue r @ [msg], accepted := accepted r @ [msg]\<rparr> in
         (True, if \<not> writing r then addTask WriteNext (r\<lparr>writing := True\<rparr>) else r)))"

definition writeNext :: "'m reactor \<Rightarrow> 'm reactor" where
  "writeNext r =
     (case (if closed r then (False, r) else fill r) of
        (have, r) \<Rightarrow> if have then addTask StartWrite r else addTask MaybeDone (r\<lparr>writing := False\<rparr>))"

definition maybeDone :: "'m reactor \<Rightarrow> 'm reactor" where
  "maybeDone r =
     (let fin = readsDone r \<and> \<not> writing r \<and> \<not> finished r;
          r = r\<lparr>finished := finished r \<or> fin\<rparr>
      in if fin then addTask FinishCall r else r)"

definition finish :: "rstatus \<Rightarrow> 'm reactor \<Rightarrow> 'm reactor" where
  "finish fin r = addTask MaybeDone (r\<lparr>rstatus := fin, closed := True, readsDone := True\<rparr>)"

section \<open>The callbacks\<close>

text \<open>\<open>outcome\<close> is what \<open>onMsgs\<close> did: nothing wrong, or thrown.\<close>

definition onReadDone :: "bool \<Rightarrow> string option \<Rightarrow> 'm reactor \<Rightarrow> 'm reactor" where
  "onReadDone isOk outcome r =
     (if \<not> isOk then finish StatusOk r
      else (case outcome of Some err \<Rightarrow> finish (InvalidArgument err) r | None \<Rightarrow> r\<lparr>reading := True\<rparr>))"

definition onWriteDone :: "bool \<Rightarrow> 'm reactor \<Rightarrow> 'm reactor" where
  "onWriteDone isOk r =
     (if \<not> isOk then addTask MaybeDone (r\<lparr>closed := True, writing := False, cancelled := True\<rparr>)
      else addTask WriteNext r)"

definition onCancel :: "'m reactor \<Rightarrow> 'm reactor" where
  "onCancel r = r\<lparr>closed := True\<rparr>"

section \<open>Interleavings\<close>

definition runTask :: "task \<Rightarrow> 'm reactor \<Rightarrow> 'm reactor" where
  "runTask t r =
     (case t of
        WriteNext \<Rightarrow> writeNext r
      | StartWrite \<Rightarrow> r\<lparr>inFlight := True, written := written r @ [outBatch r]\<rparr>
      | MaybeDone \<Rightarrow> maybeDone r
      | FinishCall \<Rightarrow> r\<lparr>finishes := finishes r @ [rstatus r]\<rparr>)"

inductive rstep :: "'m reactor \<Rightarrow> 'm reactor \<Rightarrow> bool" where
  rstep_send: "rstep r (snd (send msg r))"
| rstep_task: "t \<in> set (tasks r) \<Longrightarrow> rstep r (runTask t (r\<lparr>tasks := remove1 t (tasks r)\<rparr>))"
| rstep_read: "reading r \<Longrightarrow> rstep r (onReadDone isOk outcome (r\<lparr>reading := False\<rparr>))"
| rstep_written: "inFlight r \<Longrightarrow> rstep r (onWriteDone isOk (r\<lparr>inFlight := False\<rparr>))"
| rstep_cancel: "rstep r (onCancel r)"

definition rreach :: "'m reactor \<Rightarrow> bool" where
  "rreach r \<longleftrightarrow> rstep\<^sup>*\<^sup>* newReactor r"

section \<open>The invariant\<close>

lemma count_list_pos: "x \<in> set xs \<longleftrightarrow> 0 < count_list xs x"
  using count_list_0_iff [of xs x] by auto

lemma count_list_remove1: "x \<in> set xs \<Longrightarrow> count_list (remove1 x xs) y = count_list xs y - (if x = y then 1 else 0)"
  by (induction xs) (auto simp: count_list_pos Suc_diff_le)

lemma fillLoop_props:
  assumes "fillLoop q batch = (q', b)" "length batch \<le> maxBatch"
  shows "batch @ q = b @ q' \<and> length b \<le> maxBatch \<and> (b = [] \<longrightarrow> batch = [] \<and> q = [])"
  using assms
  by (induction q batch rule: fillLoop.induct) (auto split: if_splits simp: maxBatch_def)

definition pendingBatch :: "'m reactor \<Rightarrow> 'm list" where
  "pendingBatch r = (if StartWrite \<in> set (tasks r) then outBatch r else [])"

definition rinv :: "'m reactor \<Rightarrow> bool" where
  "rinv r \<longleftrightarrow>
     count_list (tasks r) WriteNext + count_list (tasks r) StartWrite + of_bool (inFlight r) = (of_bool (writing r) :: nat)
     \<and> count_list (tasks r) FinishCall + length (finishes r) = of_bool (finished r)
     \<and> (finished r \<longrightarrow> readsDone r \<and> \<not> writing r)
     \<and> (readsDone r \<longrightarrow> closed r \<and> \<not> reading r)
     \<and> (readsDone r \<and> \<not> writing r \<and> \<not> finished r \<longrightarrow> MaybeDone \<in> set (tasks r))
     \<and> (\<not> closed r \<and> queue r \<noteq> [] \<longrightarrow> writing r)
     \<and> length (queue r) \<le> limit
     \<and> accepted r = concat (written r) @ pendingBatch r @ queue r
     \<and> (StartWrite \<in> set (tasks r) \<longrightarrow> outBatch r \<noteq> [] \<and> length (outBatch r) \<le> maxBatch)
     \<and> (\<forall>b \<in> set (written r). b \<noteq> [] \<and> length b \<le> maxBatch)
     \<and> (\<forall>s \<in> set (finishes r). s = rstatus r)"

lemmas rinv_simps = rinv_def pendingBatch_def addTask_def count_list_remove1 count_list_append

lemma rinv_new: "rinv newReactor"
  by (simp add: rinv_def newReactor_def pendingBatch_def)

lemma rinv_send: "rinv r \<Longrightarrow> rinv (snd (send msg r))"
  by (cases "closed r"; cases "limit \<le> length (queue r)"; cases "writing r")
     (simp_all add: rinv_simps send_def Let_def, blast+)

lemma rinv_read: "rinv r \<Longrightarrow> reading r \<Longrightarrow> rinv (onReadDone isOk outcome (r\<lparr>reading := False\<rparr>))"
  by (cases isOk; cases outcome; cases "readsDone r"; cases "finished r"; cases "finishes r")
     (simp_all add: rinv_simps onReadDone_def finish_def)

lemma rinv_cancel: "rinv r \<Longrightarrow> rinv (onCancel r)"
  by (simp add: rinv_simps onCancel_def)

lemma rinv_written: "rinv r \<Longrightarrow> inFlight r \<Longrightarrow> rinv (onWriteDone isOk (r\<lparr>inFlight := False\<rparr>))"
  by (cases isOk; cases "writing r"; cases "finished r") (simp_all add: rinv_simps onWriteDone_def)

text \<open>Only one thread at a time has the right to write.\<close>

lemma rinv_token:
  assumes "rinv r" "t \<in> set (tasks r)" "t = WriteNext \<or> t = StartWrite"
  shows "writing r" "\<not> inFlight r" "count_list (tasks r) t = 1"
    "t' = WriteNext \<or> t' = StartWrite \<Longrightarrow> t' \<noteq> t \<Longrightarrow> t' \<notin> set (tasks r)" "t \<notin> set (remove1 t (tasks r))"
proof -
  have pos: "0 < count_list (tasks r) t" using assms(2) count_list_pos by fast
  have eq: "count_list (tasks r) WriteNext + count_list (tasks r) StartWrite + of_bool (inFlight r) = (of_bool (writing r) :: nat)"
    using assms(1) unfolding rinv_def by blast
  show w: "writing r" using eq pos assms(3) by (cases "writing r") auto
  show "\<not> inFlight r" "count_list (tasks r) t = 1" using eq pos assms(3) w by (cases "inFlight r", auto)+
  then show "t \<notin> set (remove1 t (tasks r))" using count_list_remove1 [OF assms(2), of t] count_list_pos by force
  show "t' \<notin> set (tasks r)" if "t' = WriteNext \<or> t' = StartWrite" "t' \<noteq> t"
    using eq pos assms(3) that w count_list_pos [of t' "tasks r"] by auto
qed

lemma rinv_writeNext:
  assumes inv: "rinv r" and t: "WriteNext \<in> set (tasks r)"
  shows "rinv (writeNext (r\<lparr>tasks := remove1 WriteNext (tasks r)\<rparr>))"
proof -
  note w = rinv_token [OF inv t]
  have s: "StartWrite \<notin> set (tasks r)" by (rule w(4)) simp_all
  obtain q b where f: "fillLoop (queue r) [] = (q, b)" by fastforce
  with fillLoop_props [OF this] have fp: "queue r = b @ q" "length b \<le> maxBatch" "b = [] \<Longrightarrow> queue r = []" by auto
  show ?thesis
    using inv t w(1-3) s f fp
    by (cases "closed r"; cases "b = []"; cases "finished r")
       (simp_all add: rinv_simps writeNext_def fill_def notin_set_remove1)
qed

lemma rinv_maybeDone:
  "rinv r \<Longrightarrow> MaybeDone \<in> set (tasks r) \<Longrightarrow> rinv (maybeDone (r\<lparr>tasks := remove1 MaybeDone (tasks r)\<rparr>))"
  by (cases "readsDone r"; cases "writing r"; cases "finished r") (simp_all add: rinv_simps maybeDone_def Let_def)

lemma rinv_finishCall:
  assumes "rinv r" "FinishCall \<in> set (tasks r)"
  shows "rinv (r\<lparr>tasks := remove1 FinishCall (tasks r), finishes := finishes r @ [rstatus r]\<rparr>)"
proof -
  have "0 < count_list (tasks r) FinishCall" using assms(2) count_list_pos by fast
  moreover have "count_list (tasks r) FinishCall + length (finishes r) = of_bool (finished r)"
    using assms(1) unfolding rinv_def by blast
  ultimately have "finished r \<and> count_list (tasks r) FinishCall = 1 \<and> finishes r = []"
    by (cases "finished r"; cases "finishes r") auto
  with assms show ?thesis by (simp add: rinv_simps)
qed

lemma rinv_task: "rinv r \<Longrightarrow> t \<in> set (tasks r) \<Longrightarrow> rinv (runTask t (r\<lparr>tasks := remove1 t (tasks r)\<rparr>))"
proof (cases t)
  case StartWrite
  assume inv: "rinv r" and t: "t \<in> set (tasks r)"
  note w = rinv_token [OF inv t]
  have "WriteNext \<notin> set (tasks r)" by (rule w(4)) (simp_all add: StartWrite)
  with inv t w(1-3,5) StartWrite show ?thesis by (simp add: rinv_simps runTask_def)
qed (simp_all add: runTask_def rinv_writeNext rinv_maybeDone rinv_finishCall)

lemma rreach_inv: "rreach r \<Longrightarrow> rinv r"
  unfolding rreach_def
proof (induction rule: rtranclp_induct)
  case base
  show ?case by (rule rinv_new)
next
  case (step r r')
  from step(2,3) show ?case
    by (cases rule: rstep.cases) (simp_all add: rinv_send rinv_task rinv_read rinv_written rinv_cancel)
qed

text \<open>C16: In every interleaving of the threads of a stream, nothing is lost or reordered on the way: the messages
  the queue accepted are those written, in order, followed by those waiting; each batch written
  holds from one to maxBatch messages; the queue holds no more than its limit; and while the stream is open and messages
  wait, a write is under way.\<close>

theorem send_fifo:
  assumes "rreach r"
  shows "accepted r = concat (written r) @ pendingBatch r @ queue r
       \<and> (\<forall>b \<in> set (written r). b \<noteq> [] \<and> length b \<le> maxBatch) \<and> length (queue r) \<le> limit
       \<and> (\<not> closed r \<and> queue r \<noteq> [] \<longrightarrow> writing r)"
  using rreach_inv [OF assms] unfolding rinv_def by blast

text \<open>C17: In every interleaving the stream is finished properly: no two writes overlap, Finish is called at most once,
  only after the reads have ended and never with a write under way; and when the reads have ended,
  no thread has anything left to do and no write is in flight, it has been called, with the status the
  reads ended with.\<close>

theorem finish_once:
  assumes "rreach r"
  shows "count_list (tasks r) WriteNext + count_list (tasks r) StartWrite + of_bool (inFlight r) \<le> (1 :: nat)
       \<and> (finishes r = []
          \<or> finishes r = [rstatus r] \<and> readsDone r \<and> \<not> inFlight r \<and> StartWrite \<notin> set (tasks r) \<and> WriteNext \<notin> set (tasks r))
       \<and> (readsDone r \<and> tasks r = [] \<and> \<not> inFlight r \<longrightarrow> finishes r = [rstatus r])"
proof -
  note i = rreach_inv [OF assms, unfolded rinv_def]
  have all: "finishes r = [rstatus r]" if "finishes r \<noteq> []"
    using that i by (cases "finishes r"; cases "finished r"; simp)
  have "readsDone r \<and> \<not> inFlight r \<and> StartWrite \<notin> set (tasks r) \<and> WriteNext \<notin> set (tasks r)" if "finishes r \<noteq> []"
  proof -
    have "finished r" using that i by (cases "finished r") auto
    then have w: "readsDone r" "\<not> writing r" using i by blast+
    then have "count_list (tasks r) WriteNext + count_list (tasks r) StartWrite + of_bool (inFlight r) = (0 :: nat)"
      using i by simp
    with w show ?thesis
      using count_list_pos [of StartWrite "tasks r"] count_list_pos [of WriteNext "tasks r"] by simp
  qed
  moreover have "finishes r = [rstatus r]" if q: "readsDone r" "tasks r = []" "\<not> inFlight r"
  proof -
    have "\<not> writing r" using i q by (cases "writing r") auto
    then have "finished r" using i q by auto
    then have "length (finishes r) = 1" using i q(2) by simp
    then show ?thesis by (intro all) auto
  qed
  moreover have "count_list (tasks r) WriteNext + count_list (tasks r) StartWrite + of_bool (inFlight r) \<le> (1 :: nat)"
    using i by simp
  ultimately show ?thesis using all by blast
qed

text \<open>A stream that sent one message, was read to its end while the message was on its way, and was finished.\<close>

definition demoSent :: "nat reactor" where
  "demoSent = newReactor\<lparr>queue := [7], writing := True, accepted := [7], tasks := [WriteNext]\<rparr>"

definition demoFinished :: "nat reactor" where
  "demoFinished = newReactor\<lparr>closed := True, outBatch := [7], readsDone := True, finished := True, reading := False,
     accepted := [7], written := [[7]], finishes := [StatusOk]\<rparr>"

lemma demoSent_reach: "rreach demoSent"
proof -
  have "snd (send 7 newReactor) = demoSent" by (simp add: send_def newReactor_def demoSent_def addTask_def limit_def)
  with rstep_send [of newReactor "7 :: nat"] show ?thesis by (simp add: rreach_def)
qed

lemma rreach_step: "rreach r \<Longrightarrow> rstep r r' \<Longrightarrow> rreach r'"
  unfolding rreach_def by (rule rtranclp.rtrancl_into_rtrancl)

lemma rreach_task: "rreach r \<Longrightarrow> t \<in> set (tasks r) \<Longrightarrow> r' = runTask t (r\<lparr>tasks := remove1 t (tasks r)\<rparr>) \<Longrightarrow> rreach r'"
  using rreach_step [OF _ rstep_task] by blast

lemmas demo_run = demoSent_def newReactor_def runTask_def writeNext_def fill_def maxBatch_def addTask_def maybeDone_def
  onReadDone_def onWriteDone_def finish_def

lemma demoFinished_reach: "rreach demoFinished"
proof -
  define a where "a = demoSent\<lparr>queue := [], outBatch := [7], tasks := [], inFlight := True, written := [[7]]\<rparr>"
  have "rreach (demoSent\<lparr>queue := [], outBatch := [7], tasks := [StartWrite]\<rparr>)"
    by (rule rreach_task [OF demoSent_reach, of WriteNext]) (simp_all add: demo_run)
  then have a: "rreach a" by (rule rreach_task [of _ StartWrite]) (simp_all add: demo_run a_def)
  define b where "b = a\<lparr>reading := False, closed := True, readsDone := True, tasks := [MaybeDone]\<rparr>"
  have "b = onReadDone False None (a\<lparr>reading := False\<rparr>)" by (simp add: demo_run a_def b_def)
  with rreach_step [OF a rstep_read [of a False None]] have b: "rreach b" by (simp add: a_def demo_run)
  define c where "c = b\<lparr>inFlight := False, tasks := [MaybeDone, WriteNext]\<rparr>"
  have "c = onWriteDone True (b\<lparr>inFlight := False\<rparr>)" by (simp add: demo_run a_def b_def c_def)
  with rreach_step [OF b rstep_written [of b True]] have c: "rreach c" by (simp add: b_def a_def demo_run)
  have "rreach (c\<lparr>tasks := [WriteNext]\<rparr>)"
    by (rule rreach_task [OF c, of MaybeDone]) (simp_all add: demo_run a_def b_def c_def)
  then have "rreach (c\<lparr>writing := False, tasks := [MaybeDone]\<rparr>)"
    by (rule rreach_task [of _ WriteNext]) (simp_all add: demo_run a_def b_def c_def)
  then have "rreach (c\<lparr>writing := False, finished := True, tasks := [FinishCall]\<rparr>)"
    by (rule rreach_task [of _ MaybeDone]) (simp_all add: demo_run a_def b_def c_def)
  then show ?thesis
    by (rule rreach_task [of _ FinishCall]) (simp_all add: demo_run a_def b_def c_def demoFinished_def)
qed

theorem send_fifo_witness: "rreach demoSent \<and> accepted demoSent = [7] \<and> writing demoSent
    \<and> concat (written demoSent) @ pendingBatch demoSent @ queue demoSent = [7]"
  using send_fifo [OF demoSent_reach] demoSent_reach by (simp add: demoSent_def)

theorem finish_once_witness: "rreach demoFinished \<and> finishes demoFinished = [StatusOk] \<and> \<not> inFlight demoFinished"
  using finish_once [OF demoFinished_reach] demoFinished_reach by (simp add: demoFinished_def newReactor_def)

end
