(* ===== verification/Builder.thy ===== *)
theory Builder
  imports Dispatcher
begin

text \<open>
  The builder side of a session with the scheduler (class \<open>Builder\<close> of \<^verbatim>\<open>src/daemon/coordinator.cc\<close>
  and \<^verbatim>\<open>src/daemon/coordinator.hh\<close>): the table of derivations the scheduler announced, who came
  for them, and the answers sent back.

  The unordered map \<open>expected\<close> is an association list.  An \<open>Expected::Shared\<close> is an object that the table and the
  threads of a build point to: it lives in \<open>sharedHeap\<close>, and a pointer to it is its index.  The closure
  \<open>sendFn\<close> is modelled by whether a session is up, which the session thread decides; the messages delivered are
  collected in \<open>sent\<close>.  Times are milliseconds of the steady clock, read by the caller.  Metrics and log lines are left out.
\<close>

section \<open>State\<close>

record sharedRec =
  sRevoked :: bool
  sFinished :: bool
  sResultWire :: string

record expected =
  xAssignId :: nat
  xSince :: int
  xClaimed :: bool
  xRunning :: bool
  xShared :: nat

record builder =
  expectedTab :: "(string \<times> expected) list"
  sharedHeap :: "sharedRec list"
  bDraining :: bool
  sessionUp :: bool
  sent :: "workerMsg list"

record builderOpts =
  advertise :: string
  thisSystem :: string
  extraPlatforms :: "string list"
  extraSystems :: "string list"
  systemFeatures :: "string list"
  optMaxJobs :: nat

record admission =
  admShared :: nat
  admAssignId :: nat
  admAttach :: bool

definition builder0 :: builder where
  "builder0 = \<lparr>expectedTab = [], sharedHeap = [], bDraining = False, sessionUp = False, sent = []\<rparr>"

definition expectTimeout :: int where
  "expectTimeout = 60000"

section \<open>Sending\<close>

definition bSend :: "workerMsg \<Rightarrow> builder \<Rightarrow> bool \<times> builder" where
  "bSend msg b = (if sessionUp b then (True, b\<lparr>sent := sent b @ [msg]\<rparr>) else (False, b))"

definition setSend :: "bool \<Rightarrow> builder \<Rightarrow> builder" where
  "setSend isUp b = b\<lparr>sessionUp := isUp\<rparr>"

definition sendDone :: "string \<Rightarrow> nat \<Rightarrow> outcomeMsg \<Rightarrow> (string \<times> nat) list \<Rightarrow> reasonMsg \<Rightarrow> builder \<Rightarrow> builder" where
  "sendDone path aid oc outputs reason b =
     snd (bSend (DoneMsg \<lparr>dmDrvPath = path, dmAssignId = aid, dmOutcome = oc, dmOutputs = outputs, dmReason = reason\<rparr>) b)"

definition bGiveBack :: "(string \<times> nat) list \<Rightarrow> reasonMsg \<Rightarrow> builder \<Rightarrow> builder" where
  "bGiveBack drvs reason b = foldl (\<lambda>b (drv, aid). sendDone drv aid GIVEN_BACK [] reason b) b drvs"

section \<open>The table\<close>

text \<open>The part of \<open>onExpect\<close> under the lock; \<open>draining\<close> was looked at before.\<close>

definition expectLocked :: "int \<Rightarrow> string \<Rightarrow> nat \<Rightarrow> builder \<Rightarrow> builder" where
  "expectLocked now path aid b =
     (case map_of (expectedTab b) path of
        Some ent \<Rightarrow>
          if xClaimed ent then b
          else b\<lparr>expectedTab := AList.update path (ent\<lparr>xAssignId := aid, xSince := now\<rparr>) (expectedTab b)\<rparr>
      | None \<Rightarrow>
          b\<lparr>expectedTab := AList.update path
              \<lparr>xAssignId = aid, xSince = now, xClaimed = False, xRunning = False, xShared = length (sharedHeap b)\<rparr> (expectedTab b),
            sharedHeap := sharedHeap b @ [\<lparr>sRevoked = False, sFinished = False, sResultWire = []\<rparr>]\<rparr>)"

definition onExpect :: "int \<Rightarrow> string \<Rightarrow> nat \<Rightarrow> builder \<Rightarrow> builder" where
  "onExpect now path aid b =
     (if path = [] then b
      else if bDraining b then bGiveBack [(path, aid)] DRAINING b
      else expectLocked now path aid b)"

definition claim :: "string \<Rightarrow> builder \<Rightarrow> builder" where
  "claim path b =
     (case map_of (expectedTab b) path of
        None \<Rightarrow> b
      | Some ent \<Rightarrow> b\<lparr>expectedTab := AList.update path (ent\<lparr>xClaimed := True\<rparr>) (expectedTab b)\<rparr>)"

definition holding :: "builder \<Rightarrow> nat" where
  "holding b = length (expectedTab b)"

definition onRevoke :: "string \<Rightarrow> builder \<Rightarrow> builder" where
  "onRevoke path b =
     (case map_of (expectedTab b) path of
        None \<Rightarrow> b
      | Some ent \<Rightarrow>
          if xRunning ent then b\<lparr>sharedHeap := (sharedHeap b)[xShared ent := (sharedHeap b ! xShared ent)\<lparr>sRevoked := True\<rparr>]\<rparr>
          else sendDone path (xAssignId ent) CANCELLED [] REASON_UNSPECIFIED
                 (b\<lparr>expectedTab := AList.delete path (expectedTab b)\<rparr>))"

definition admit :: "string \<Rightarrow> builder \<Rightarrow> admission option \<times> builder" where
  "admit path b =
     (case map_of (expectedTab b) path of
        None \<Rightarrow> (None, b)
      | Some ent \<Rightarrow>
          (Some \<lparr>admShared = xShared ent, admAssignId = xAssignId ent, admAttach = xRunning ent\<rparr>,
           b\<lparr>expectedTab := AList.update path (ent\<lparr>xClaimed := True, xRunning := True\<rparr>) (expectedTab b)\<rparr>))"

definition finished :: "string \<Rightarrow> outcomeMsg \<Rightarrow> (string \<times> nat) list \<Rightarrow> string \<Rightarrow> reasonMsg \<Rightarrow> builder \<Rightarrow> builder" where
  "finished path oc outputs resultWire reason b =
     (case map_of (expectedTab b) path of
        None \<Rightarrow> sendDone path 0 oc outputs reason b
      | Some ent \<Rightarrow>
          sendDone path (xAssignId ent) oc outputs reason
            (b\<lparr>expectedTab := AList.delete path (expectedTab b),
               sharedHeap := (sharedHeap b)[xShared ent :=
                 (sharedHeap b ! xShared ent)\<lparr>sFinished := True, sResultWire := resultWire\<rparr>]\<rparr>))"

section \<open>Greeting, draining and the clock\<close>

definition helloOf :: "builderOpts \<Rightarrow> builder \<Rightarrow> workerMsg" where
  "helloOf opts b = HelloMsg \<lparr>hmAddr = advertise opts,
     hmSystems = thisSystem opts # extraPlatforms opts @ extraSystems opts,
     hmFeatures = systemFeatures opts, hmMaxJobs = optMaxJobs opts,
     hmRunning = map (\<lambda>(drv, ent). (drv, xAssignId ent)) (expectedTab b)\<rparr>"

definition greet :: "builderOpts \<Rightarrow> builder \<Rightarrow> bool \<times> builder" where
  "greet opts b =
     (case bSend (helloOf opts b) b of
        (ok, b) \<Rightarrow>
          if \<not> ok then (False, b)
          else if bDraining b then bSend (LoadMsg True) b
          else (True, b))"

definition takeUnclaimed :: "(expected \<Rightarrow> bool) \<Rightarrow> builder \<Rightarrow> (string \<times> nat) list \<times> builder" where
  "takeUnclaimed pred b =
     (map (\<lambda>(drv, ent). (drv, xAssignId ent)) (filter (\<lambda>(drv, ent). \<not> xClaimed ent \<and> pred ent) (expectedTab b)),
      b\<lparr>expectedTab := filter (\<lambda>(drv, ent). \<not> (\<not> xClaimed ent \<and> pred ent)) (expectedTab b)\<rparr>)"

definition bSetDraining :: "bool \<Rightarrow> builder \<Rightarrow> builder" where
  "bSetDraining drains b =
     (if bDraining b = drains then b
      else
        (let b = snd (bSend (LoadMsg drains) (b\<lparr>bDraining := drains\<rparr>)) in
         if drains then (case takeUnclaimed (\<lambda>_. True) b of (taken, b) \<Rightarrow> bGiveBack taken DRAINING b) else b))"

definition tick :: "int \<Rightarrow> builder \<Rightarrow> builder" where
  "tick now b =
     (case takeUnclaimed (\<lambda>ent. bDraining b \<or> now - xSince ent > expectTimeout) b of
        (taken, b') \<Rightarrow> bGiveBack taken (if bDraining b then DRAINING else UNREACHABLE) b')"

section \<open>Runs\<close>

text \<open>What can happen to a builder.  \<open>BExpectLate\<close> is an Expect that looked at \<open>draining\<close> before it was set.\<close>

datatype bevent =
    BExpect int string nat
  | BExpectLate int string nat
  | BClaim string
  | BRevoke string
  | BAdmit string
  | BFinished string outcomeMsg "(string \<times> nat) list" string reasonMsg
  | BSession bool
  | BGreet builderOpts
  | BDrain bool
  | BTick int

definition bexec :: "bevent \<Rightarrow> builder \<Rightarrow> builder" where
  "bexec ev b =
     (case ev of
        BExpect now path aid \<Rightarrow> onExpect now path aid b
      | BExpectLate now path aid \<Rightarrow> if path = [] then b else expectLocked now path aid b
      | BClaim path \<Rightarrow> claim path b
      | BRevoke path \<Rightarrow> onRevoke path b
      | BAdmit path \<Rightarrow> snd (admit path b)
      | BFinished path oc outputs wire reason \<Rightarrow> finished path oc outputs wire reason b
      | BSession isUp \<Rightarrow> setSend isUp b
      | BGreet opts \<Rightarrow> snd (greet opts b)
      | BDrain drains \<Rightarrow> bSetDraining drains b
      | BTick now \<Rightarrow> tick now b)"

definition breach :: "builder \<Rightarrow> bool" where
  "breach b \<longleftrightarrow> (\<exists>evs. b = foldl (\<lambda>b ev. bexec ev b) builder0 evs)"

definition entryFine :: "sharedRec list \<Rightarrow> string \<times> expected \<Rightarrow> bool" where
  "entryFine hp p \<longleftrightarrow> fst p \<noteq> [] \<and> xShared (snd p) < length hp \<and> \<not> sFinished (hp ! xShared (snd p))
     \<and> (xRunning (snd p) \<longrightarrow> xClaimed (snd p))"

definition tabInv :: "sharedRec list \<Rightarrow> (string \<times> expected) list \<Rightarrow> bool" where
  "tabInv hp tab \<longleftrightarrow> distinct (map fst tab) \<and> distinct (map (xShared \<circ> snd) tab) \<and> list_all (entryFine hp) tab"

definition binv :: "builder \<Rightarrow> bool" where
  "binv b \<longleftrightarrow> tabInv (sharedHeap b) (expectedTab b)"

definition keysOf :: "builder \<Rightarrow> string set" where
  "keysOf b = fst ` set (expectedTab b)"

section \<open>Sending leaves the table alone\<close>

lemma bSend_fields [simp]:
  "expectedTab (snd (bSend msg b)) = expectedTab b" "sharedHeap (snd (bSend msg b)) = sharedHeap b"
  "bDraining (snd (bSend msg b)) = bDraining b" "sessionUp (snd (bSend msg b)) = sessionUp b"
  by (simp_all add: bSend_def)

lemma sendDone_fields [simp]:
  "expectedTab (sendDone p a oc os rs b) = expectedTab b" "sharedHeap (sendDone p a oc os rs b) = sharedHeap b"
  "bDraining (sendDone p a oc os rs b) = bDraining b" "sessionUp (sendDone p a oc os rs b) = sessionUp b"
  by (simp_all add: sendDone_def)

lemma bGiveBack_fields [simp]:
  "expectedTab (bGiveBack drvs rs b) = expectedTab b" "sharedHeap (bGiveBack drvs rs b) = sharedHeap b"
  "bDraining (bGiveBack drvs rs b) = bDraining b" "sessionUp (bGiveBack drvs rs b) = sessionUp b"
  by (induction drvs arbitrary: b) (auto simp: bGiveBack_def split: prod.splits)

lemma bSend_sent: "sessionUp b \<Longrightarrow> sent (snd (bSend msg b)) = sent b @ [msg]"
  by (simp add: bSend_def)

lemma sendDone_sent:
  "sessionUp b \<Longrightarrow> sent (sendDone p a oc os rs b) =
     sent b @ [DoneMsg \<lparr>dmDrvPath = p, dmAssignId = a, dmOutcome = oc, dmOutputs = os, dmReason = rs\<rparr>]"
  by (simp add: sendDone_def bSend_sent)

lemma bGiveBack_sent:
  "sessionUp b \<Longrightarrow> sent (bGiveBack drvs rs b) =
     sent b @ map (\<lambda>(p, a). DoneMsg \<lparr>dmDrvPath = p, dmAssignId = a, dmOutcome = GIVEN_BACK, dmOutputs = [], dmReason = rs\<rparr>) drvs"
  by (induction drvs arbitrary: b) (auto simp: bGiveBack_def sendDone_sent split: prod.splits)

section \<open>The invariant of the table\<close>

lemma map_fst_update: "map_of tab k \<noteq> None \<Longrightarrow> map fst (AList.update k v tab) = map fst tab"
  by (induction tab) auto

lemma tabInv_update:
  assumes "tabInv hp tab" "map_of tab k = Some e" "xShared e' = xShared e" "xRunning e' \<longrightarrow> xClaimed e'"
  shows "tabInv hp (AList.update k e' tab)"
proof -
  have "map (xShared \<circ> snd) (AList.update k e' tab) = map (xShared \<circ> snd) tab"
    using assms(2,3) by (induction tab) (auto split: if_splits)
  moreover have "list_all (entryFine hp) (AList.update k e' tab)"
    using assms unfolding tabInv_def by (induction tab) (auto simp: entryFine_def split: if_splits)
  ultimately show ?thesis using assms(1,2) by (simp add: tabInv_def map_fst_update)
qed

lemma tabInv_insert:
  assumes "tabInv hp tab" "map_of tab k = None" "k \<noteq> []" "xShared e = length hp" "xRunning e \<longrightarrow> xClaimed e" "\<not> sFinished s"
  shows "tabInv (hp @ [s]) (AList.update k e tab)"
proof -
  have k: "k \<notin> fst ` set tab" using assms(2) by (simp add: map_of_eq_None_iff)
  then have eq: "AList.update k e tab = tab @ [(k, e)]" by (induction tab) auto
  have "xShared x < length hp" if "(p, x) \<in> set tab" for p x
    using that assms(1) by (auto simp: tabInv_def list_all_iff entryFine_def)
  moreover have "list_all (entryFine (hp @ [s])) tab"
    using assms(1) by (auto simp: tabInv_def list_all_iff entryFine_def nth_append)
  ultimately show ?thesis
    using assms k unfolding eq by (force simp: tabInv_def entryFine_def)
qed

lemma tabInv_filter: "tabInv hp tab \<Longrightarrow> tabInv hp (filter P tab)"
  by (auto simp: tabInv_def distinct_map_filter list_all_iff)

lemma tabInv_delete:
  assumes "tabInv hp tab" "map_of tab k = Some e"
  shows "tabInv (hp[xShared e := s]) (AList.delete k tab)"
proof -
  have e: "(k, e) \<in> set tab" using assms(2) by (rule map_of_SomeD)
  have d: "AList.delete k tab = filter (\<lambda>p. fst p \<noteq> k) tab" by (auto simp: AList.delete_eq intro: filter_cong)
  have "entryFine (hp[xShared e := s]) p" if "p \<in> set tab" "fst p \<noteq> k" for p
  proof -
    have "xShared e \<noteq> xShared (snd p)"
      using assms(1) e that unfolding tabInv_def distinct_map inj_on_def by fastforce
    then show ?thesis using assms(1) that(1) by (simp add: tabInv_def list_all_iff entryFine_def)
  qed
  then have "list_all (entryFine (hp[xShared e := s])) (filter (\<lambda>p. fst p \<noteq> k) tab)" by (simp add: list_all_iff)
  then show ?thesis using assms(1) unfolding d by (simp add: tabInv_def distinct_map_filter)
qed

lemma tabInv_revoked:
  "tabInv hp tab \<Longrightarrow> tabInv (hp[i := (hp ! i)\<lparr>sRevoked := True\<rparr>]) tab"
proof -
  have "sFinished (hp[i := (hp ! i)\<lparr>sRevoked := True\<rparr>] ! j) = sFinished (hp ! j)" for j
    by (cases "i = j"; cases "j < length hp") (simp_all add: list_update_beyond)
  then show "tabInv hp tab \<Longrightarrow> tabInv (hp[i := (hp ! i)\<lparr>sRevoked := True\<rparr>]) tab"
    by (simp add: tabInv_def list_all_iff entryFine_def)
qed


lemma binv_exec:
  assumes "binv b"
  shows "binv (bexec ev b)"
proof -
  have upd: "map_of (expectedTab b) p = Some e \<Longrightarrow> xShared e' = xShared e \<Longrightarrow> xRunning e' \<longrightarrow> xClaimed e'
      \<Longrightarrow> tabInv (sharedHeap b) (AList.update p e' (expectedTab b))" for p e e'
    using assms by (intro tabInv_update) (simp_all add: binv_def)
  have fine: "xRunning e \<longrightarrow> xClaimed e" if "map_of (expectedTab b) p = Some e" for p e
    using assms map_of_SomeD [OF that] by (auto simp: binv_def tabInv_def list_all_iff entryFine_def)
  have late: "binv (expectLocked now p a b)" if p: "p \<noteq> []" for now p a
  proof (cases "map_of (expectedTab b) p")
    case None
    then show ?thesis using assms p by (simp add: expectLocked_def binv_def tabInv_insert)
  next
    case (Some e)
    have "tabInv (sharedHeap b) (AList.update p (e\<lparr>xAssignId := a, xSince := now\<rparr>) (expectedTab b))"
      using fine [OF Some] by (intro upd [OF Some]) simp_all
    then show ?thesis using assms Some by (simp add: expectLocked_def binv_def)
  qed
  have del: "map_of (expectedTab b) p = Some e \<Longrightarrow> tabInv ((sharedHeap b)[xShared e := s]) (AList.delete p (expectedTab b))" for p e s
    using assms by (intro tabInv_delete) (simp_all add: binv_def)
  show ?thesis
  proof (cases ev)
    case (BExpect now p a)
    then show ?thesis using assms late by (simp add: bexec_def onExpect_def) (simp add: binv_def)
  next
    case (BRevoke p)
    then show ?thesis
      using assms del [of p _ "sharedHeap b ! _"] 
      by (auto simp: bexec_def onRevoke_def binv_def tabInv_revoked split: option.splits) (metis list_update_id)
  next
    case (BFinished p oc outs wire rs)
    then show ?thesis using assms del by (auto simp: bexec_def finished_def binv_def split: option.splits)
  next
    case (BDrain drains)
    then show ?thesis
      using assms by (simp add: bexec_def bSetDraining_def binv_def Let_def takeUnclaimed_def tabInv_filter)
  next
    case (BTick now)
    then show ?thesis using assms by (simp add: bexec_def tick_def binv_def takeUnclaimed_def tabInv_filter)
  next
    case (BGreet opts)
    then show ?thesis using assms by (simp add: bexec_def greet_def bSend_def binv_def)
  qed (use assms late upd in \<open>auto simp: bexec_def claim_def admit_def setSend_def binv_def split: option.splits\<close>)
qed

lemma breach_inv: "breach b \<Longrightarrow> binv b"
proof -
  have "binv (foldl (\<lambda>b ev. bexec ev b) b evs)" if "binv b" for b evs
    using that by (induction evs arbitrary: b) (simp_all add: binv_exec)
  moreover have "binv builder0" by (simp add: binv_def tabInv_def builder0_def)
  ultimately show "breach b \<Longrightarrow> binv b" unfolding breach_def by blast
qed

text \<open>C24: However Expects, Revokes, clients, builds, ticks, draining and reconnects follow on each other, the table of a builder
  is sound: a derivation is listed once; every entry has a shared build state of its own, which has
  not been marked finished, so that whoever attached to the build is still to be woken; and what runs was claimed, so that
  it is never given back as unclaimed.\<close>

theorem builder_table_sound:
  assumes "breach b"
  shows "distinct (map fst (expectedTab b)) \<and> distinct (map (xShared \<circ> snd) (expectedTab b))
       \<and> (\<forall>(drv, ent) \<in> set (expectedTab b). xShared ent < length (sharedHeap b)
            \<and> \<not> sFinished (sharedHeap b ! xShared ent) \<and> (xRunning ent \<longrightarrow> xClaimed ent))"
  using breach_inv [OF assms] by (auto simp: binv_def tabInv_def list_all_iff entryFine_def)

section \<open>Every assignment is answered\<close>

text \<open>What the scheduler holds the worker to have, as the worker's messages reach it.\<close>

definition heldAfter :: "string set \<Rightarrow> workerMsg \<Rightarrow> string set" where
  "heldAfter K msg =
     (case msg of HelloMsg h \<Rightarrow> fst ` set (hmRunning h) | DoneMsg dn \<Rightarrow> K - {dmDrvPath dn} | _ \<Rightarrow> K)"

definition announced :: "bevent \<Rightarrow> string set" where
  "announced ev =
     (case ev of BExpect _ p _ \<Rightarrow> if p = [] then {} else {p} | BExpectLate _ p _ \<Rightarrow> if p = [] then {} else {p} | _ \<Rightarrow> {})"

text \<open>The id a Done must have: that of the table; for an Expect turned away, the one announced; and none for a build that
  ends without an entry.\<close>

definition rightId :: "builder \<Rightarrow> bevent \<Rightarrow> workerMsg \<Rightarrow> bool" where
  "rightId b ev msg \<longleftrightarrow>
     (\<forall>dn. msg = DoneMsg dn \<longrightarrow>
        (case map_of (expectedTab b) (dmDrvPath dn) of
           Some ent \<Rightarrow> dmAssignId dn = xAssignId ent
         | None \<Rightarrow>
             (case ev of
                BExpect _ path aid \<Rightarrow> dmDrvPath dn = path \<and> dmAssignId dn = aid
              | BFinished path _ _ _ _ \<Rightarrow> dmDrvPath dn = path \<and> dmAssignId dn = 0
              | _ \<Rightarrow> False)))"

definition answered :: "builder \<Rightarrow> bevent \<Rightarrow> builder \<Rightarrow> bool" where
  "answered b ev b' \<longleftrightarrow>
     (\<exists>ms. sent b' = sent b @ ms \<and> keysOf b' = foldl heldAfter (keysOf b \<union> announced ev) ms \<and> list_all (rightId b ev) ms)"

lemma answeredI:
  "sent b' = sent b @ ms \<Longrightarrow> keysOf b' = foldl heldAfter (keysOf b \<union> announced ev) ms \<Longrightarrow> list_all (rightId b ev) ms
    \<Longrightarrow> answered b ev b'"
  unfolding answered_def by blast

lemma held_dones:
  "foldl heldAfter K (map (\<lambda>(p, a). DoneMsg \<lparr>dmDrvPath = p, dmAssignId = a, dmOutcome = oc, dmOutputs = os, dmReason = rs\<rparr>) drvs)
   = K - fst ` set drvs"
  by (induction drvs arbitrary: K) (auto simp: heldAfter_def split: prod.splits)

lemma keys_update: "fst ` set (AList.update k v tab) = insert k (fst ` set tab)"
  by (induction tab) auto

lemma keys_delete: "fst ` set (AList.delete k tab) = fst ` set tab - {k}"
  by (auto simp: AList.delete_eq)

lemma keys_filter:
  "distinct (map fst tab) \<Longrightarrow> fst ` set (filter (\<lambda>p. \<not> P p) tab) = fst ` set tab - fst ` set (filter P tab)"
  by (auto simp: distinct_map inj_on_def)

lemma map_of_keysOf: "map_of (expectedTab b) p = Some e \<Longrightarrow> p \<in> keysOf b" "map_of (expectedTab b) p = None \<Longrightarrow> p \<notin> keysOf b"
  by (force simp: keysOf_def dest: map_of_SomeD, simp add: keysOf_def map_of_eq_None_iff)

lemma answered_none: "sent b' = sent b \<Longrightarrow> keysOf b' = keysOf b \<union> announced ev \<Longrightarrow> answered b ev b'"
  by (rule answeredI [where ms = "[]"]) simp_all

lemma answered_late: "announced ev = {p} \<Longrightarrow> answered b ev (expectLocked now p a b)"
  using map_of_keysOf [of b p]
  by (intro answered_none) (auto simp: expectLocked_def keysOf_def keys_update split: option.splits)

lemma answered_claim: "announced ev = {} \<Longrightarrow> answered b ev (claim p b)" "announced ev = {} \<Longrightarrow> answered b ev (snd (admit p b))"
  using map_of_keysOf [of b p]
  by (auto intro!: answered_none simp: claim_def admit_def keysOf_def keys_update split: option.splits)

lemma answered_one:
  assumes "sessionUp b" "keysOf b' = keysOf b \<union> announced ev - {p}" "sessionUp b'" "sent b' = sent b"
    and "rightId b ev (DoneMsg \<lparr>dmDrvPath = p, dmAssignId = a, dmOutcome = oc, dmOutputs = os, dmReason = rs\<rparr>)"
  shows "answered b ev (sendDone p a oc os rs b')"
  by (rule answeredI [OF sendDone_sent [OF assms(3), of p a oc os rs, unfolded assms(4)]])
     (use assms in \<open>simp_all add: keysOf_def heldAfter_def\<close>)

lemma answered_expect:
  assumes "sessionUp b" "bDraining b \<longrightarrow> p \<notin> keysOf b"
  shows "answered b (BExpect now p a) (onExpect now p a b)"
proof (cases "bDraining b \<and> p \<noteq> []")
  case True
  then have "answered b (BExpect now p a) (sendDone p a GIVEN_BACK [] DRAINING b)"
    using assms by (intro answered_one) (auto simp: announced_def rightId_def dest: map_of_keysOf split: option.split)
  with True show ?thesis by (simp add: onExpect_def bGiveBack_def)
qed (use answered_late answered_none [of b b "BExpect now p a"] in \<open>auto simp: onExpect_def announced_def\<close>)

lemma answered_revoke:
  assumes "sessionUp b" "announced ev = {}"
  shows "answered b ev (onRevoke p b)"
proof (cases "map_of (expectedTab b) p")
  case None
  then show ?thesis using assms(2) by (simp add: onRevoke_def answered_none)
next
  case (Some ent)
  show ?thesis
  proof (cases "xRunning ent")
    case True
    with Some assms(2) show ?thesis by (intro answered_none) (simp_all add: onRevoke_def keysOf_def)
  next
    case False
    with Some show ?thesis
      using answered_one [OF assms(1), of "b\<lparr>expectedTab := AList.delete p (expectedTab b)\<rparr>" ev p] assms
      by (simp add: onRevoke_def keysOf_def keys_delete rightId_def)
  qed
qed

lemma answered_finished:
  assumes "sessionUp b"
  shows "answered b (BFinished p oc os wire rs) (finished p oc os wire rs b)"
proof (cases "map_of (expectedTab b) p")
  case None
  then show ?thesis
    using answered_one [OF assms _ assms refl, of "BFinished p oc os wire rs" p] map_of_keysOf(2)
    by (simp add: finished_def announced_def rightId_def)
next
  case (Some ent)
  then show ?thesis
    using answered_one [OF assms, of _ "BFinished p oc os wire rs" p] assms
    by (simp add: finished_def keysOf_def keys_delete announced_def rightId_def)
qed

lemma answered_takes:
  assumes "sessionUp b" "distinct (map fst (expectedTab b))" "announced ev = {}"
    and "sessionUp b'" "expectedTab b' = expectedTab b" "sent b' = sent b @ pre" "set pre \<subseteq> range LoadMsg"
  shows "answered b ev (bGiveBack (fst (takeUnclaimed P b')) rs (snd (takeUnclaimed P b')))"
proof -
  let ?Q = "\<lambda>(drv, ent). \<not> xClaimed ent \<and> P ent"
  let ?taken = "map (\<lambda>(drv, ent). (drv, xAssignId ent)) (filter ?Q (expectedTab b))"
  let ?ms = "map (\<lambda>(p, a). DoneMsg \<lparr>dmDrvPath = p, dmAssignId = a, dmOutcome = GIVEN_BACK, dmOutputs = [], dmReason = rs\<rparr>) ?taken"
  have pre: "foldl heldAfter K pre = K" for K
    using assms(7) by (induction pre arbitrary: K) (auto simp: heldAfter_def)
  have loads: "list_all (rightId b ev) pre" using assms(7) by (auto simp: list_all_iff rightId_def)
  have dones: "list_all (rightId b ev) ?ms"
    using assms(2) by (auto simp: list_all_iff rightId_def)
  have keys: "fst ` set (filter (\<lambda>p. \<not> ?Q p) (expectedTab b)) = fst ` set (expectedTab b) - fst ` set ?taken"
    unfolding keys_filter [OF assms(2)] by force
  show ?thesis
  proof (rule answeredI)
    show "sent (bGiveBack (fst (takeUnclaimed P b')) rs (snd (takeUnclaimed P b'))) = sent b @ (pre @ ?ms)"
      using assms(4-6) by (simp add: takeUnclaimed_def bGiveBack_sent)
    show "keysOf (bGiveBack (fst (takeUnclaimed P b')) rs (snd (takeUnclaimed P b'))) = foldl heldAfter (keysOf b \<union> announced ev) (pre @ ?ms)"
      unfolding foldl_append pre held_dones using keys by (simp add: keysOf_def takeUnclaimed_def assms(3,5) case_prod_unfold)
    show "list_all (rightId b ev) (pre @ ?ms)" using loads dones by simp
  qed
qed

lemma answered_drain:
  assumes "sessionUp b" "distinct (map fst (expectedTab b))" "announced ev = {}"
  shows "answered b ev (bSetDraining drains b)"
proof (cases "bDraining b \<noteq> drains \<and> drains")
  case True
  let ?b = "snd (bSend (LoadMsg drains) (b\<lparr>bDraining := drains\<rparr>))"
  from True assms(1) answered_takes [OF assms, of ?b "[LoadMsg drains]" "\<lambda>_. True" DRAINING] show ?thesis
    by (simp add: bSetDraining_def bSend_sent case_prod_unfold Let_def)
next
  case False
  show ?thesis
    by (rule answeredI [where ms = "if bDraining b = drains then [] else [LoadMsg drains]"])
       (use False assms in \<open>auto simp: bSetDraining_def Let_def bSend_sent keysOf_def heldAfter_def rightId_def\<close>)
qed

lemma answered_greet:
  assumes "sessionUp b"
  shows "answered b (BGreet opts) (snd (greet opts b))"
  by (rule answeredI [where ms = "helloOf opts b # (if bDraining b then [LoadMsg True] else [])"])
     (use assms in \<open>force simp: greet_def bSend_def keysOf_def helloOf_def heldAfter_def announced_def rightId_def\<close>)+

text \<open>C22: While its session is up, a builder answers for every assignment: after any event, the derivations in its table are
  exactly those the scheduler holds it to have, when it takes what the worker had and was
  announced to it and applies the messages the event sent, in order: a Done frees a derivation, a Hello
  replaces the whole record.  So no derivation leaves the table without a Done for it and none is
  answered that is still in it.  A Done has the assignment id of the table; an Expect that is turned away is given back
  with the id it came with; the only other Done is that of a build that ends without an entry, with id
  zero.  A derivation may be announced again while it is in the table, with one exception: an Expect for a
  derivation of the table while the builder drains is left out, because the code then gives back a
  derivation it still has.\<close>

theorem builder_answers:
  assumes "breach b" "sessionUp b" "sessionUp (bexec ev b)"
    and "\<not> (\<exists>now p a. ev = BExpect now p a \<and> bDraining b \<and> p \<in> keysOf b)"
  shows "\<exists>ms. sent (bexec ev b) = sent b @ ms
       \<and> keysOf (bexec ev b) = foldl heldAfter (keysOf b \<union> announced ev) ms
       \<and> (\<forall>dn. DoneMsg dn \<in> set ms \<longrightarrow>
            (case map_of (expectedTab b) (dmDrvPath dn) of
               Some ent \<Rightarrow> dmAssignId dn = xAssignId ent
             | None \<Rightarrow>
                 (case ev of
                    BExpect _ path aid \<Rightarrow> dmDrvPath dn = path \<and> dmAssignId dn = aid
                  | BFinished path _ _ _ _ \<Rightarrow> dmDrvPath dn = path \<and> dmAssignId dn = 0
                  | _ \<Rightarrow> False)))"
proof -
  have d: "distinct (map fst (expectedTab b))" using breach_inv [OF assms(1)] by (simp add: binv_def tabInv_def)
  have "answered b ev (bexec ev b)"
  proof (cases ev)
    case (BExpect now p a)
    with assms(4) answered_expect [OF assms(2), of p now a] show ?thesis by (simp add: bexec_def)
  next
    case (BExpectLate now p a)
    then show ?thesis using answered_late answered_none [of b b ev] by (auto simp: bexec_def announced_def)
  next
    case (BTick now)
    with assms(2) answered_takes [OF assms(2) d _ assms(2) refl, of ev "[]"] show ?thesis
      by (simp add: bexec_def tick_def announced_def case_prod_unfold)
  qed (use assms(2) d answered_claim answered_revoke answered_finished answered_drain answered_greet answered_none [of _ b ev] in
       \<open>simp_all add: bexec_def announced_def setSend_def keysOf_def\<close>)
  then show ?thesis by (auto simp: answered_def list_all_iff rightId_def)
qed

text \<open>The case left out: while draining, an Expect for a derivation that is being built is answered with a
  Done, and the derivation stays in the table.\<close>

lemma draining_expect_of_held:
  assumes "breach b" "sessionUp b" "bDraining b" "p \<in> keysOf b"
  shows "keysOf (bexec (BExpect now p a) b) = keysOf b
     \<and> sent (bexec (BExpect now p a) b) = sent b @
         [DoneMsg \<lparr>dmDrvPath = p, dmAssignId = a, dmOutcome = GIVEN_BACK, dmOutputs = [], dmReason = DRAINING\<rparr>]"
proof -
  have "p \<noteq> []"
    using breach_inv [OF assms(1)] assms(4) by (auto simp: binv_def tabInv_def list_all_iff entryFine_def keysOf_def)
  with assms show ?thesis by (simp add: bexec_def onExpect_def bGiveBack_sent) (simp add: keysOf_def)
qed

text \<open>A builder that was announced two derivations and has begun to build the first.\<close>

definition demoBuilder :: builder where
  "demoBuilder = \<lparr>expectedTab = [(''a.drv'', \<lparr>xAssignId = 4, xSince = 0, xClaimed = True, xRunning = True, xShared = 0\<rparr>),
       (''b.drv'', \<lparr>xAssignId = 5, xSince = 10, xClaimed = False, xRunning = False, xShared = 1\<rparr>)],
     sharedHeap = [\<lparr>sRevoked = False, sFinished = False, sResultWire = []\<rparr>, \<lparr>sRevoked = False, sFinished = False, sResultWire = []\<rparr>],
     bDraining = False, sessionUp = True, sent = []\<rparr>"

lemma demoBuilder_reach: "breach demoBuilder"
proof -
  have "demoBuilder = foldl (\<lambda>b ev. bexec ev b) builder0
     [BSession True, BExpect 0 ''a.drv'' 4, BExpect 10 ''b.drv'' 5, BAdmit ''a.drv'']"
    by (simp add: demoBuilder_def builder0_def bexec_def setSend_def onExpect_def expectLocked_def admit_def)
  then show ?thesis unfolding breach_def by blast
qed

theorem builder_table_sound_witness:
  "breach demoBuilder \<and> distinct (map fst (expectedTab demoBuilder)) \<and> \<not> sFinished (sharedHeap demoBuilder ! 1)"
  using builder_table_sound [OF demoBuilder_reach] demoBuilder_reach by (simp add: demoBuilder_def)

theorem builder_answers_witness:
  "\<exists>ms. sent (bexec (BDrain True) demoBuilder) = ms \<and> keysOf (bexec (BDrain True) demoBuilder) = {''a.drv''}
     \<and> keysOf (bexec (BDrain True) demoBuilder) = foldl heldAfter {''a.drv'', ''b.drv''} ms
     \<and> (\<forall>dn. DoneMsg dn \<in> set ms \<longrightarrow> dmDrvPath dn = ''b.drv'' \<longrightarrow> dmAssignId dn = 5)"
proof -
  have up: "sessionUp (bexec (BDrain True) demoBuilder)"
    by (simp add: demoBuilder_def bexec_def bSetDraining_def bSend_def takeUnclaimed_def Let_def)
  have k: "keysOf (bexec (BDrain True) demoBuilder) = {''a.drv''}"
    by (simp add: demoBuilder_def bexec_def bSetDraining_def bSend_def takeUnclaimed_def Let_def keysOf_def)
  have s: "sent demoBuilder = []" "sessionUp demoBuilder" "keysOf demoBuilder = {''a.drv'', ''b.drv''}"
    "map_of (expectedTab demoBuilder) ''b.drv'' =
       Some \<lparr>xAssignId = 5, xSince = 10, xClaimed = False, xRunning = False, xShared = 1\<rparr>"
    by (simp_all add: demoBuilder_def keysOf_def)
  from builder_answers [OF demoBuilder_reach s(2) up] obtain ms where
    ms: "sent (bexec (BDrain True) demoBuilder) = ms" "keysOf (bexec (BDrain True) demoBuilder) = foldl heldAfter {''a.drv'', ''b.drv''} ms"
    "\<forall>dn. DoneMsg dn \<in> set ms \<longrightarrow> dmDrvPath dn = ''b.drv'' \<longrightarrow> dmAssignId dn = 5"
    by (fastforce simp: s(1,3,4) announced_def)
  with ms k show ?thesis by blast
qed

section \<open>What nobody comes for\<close>

text \<open>Events that leave a derivation alone, while the session stays up; and the answers for it.\<close>

definition quiet :: "string \<Rightarrow> bevent \<Rightarrow> bool" where
  "quiet p ev \<longleftrightarrow>
     (case ev of
        BExpect _ q _ \<Rightarrow> q \<noteq> p
      | BExpectLate _ q _ \<Rightarrow> q \<noteq> p
      | BClaim q \<Rightarrow> q \<noteq> p
      | BRevoke q \<Rightarrow> q \<noteq> p
      | BAdmit q \<Rightarrow> q \<noteq> p
      | BFinished q _ _ _ _ \<Rightarrow> q \<noteq> p
      | BSession isUp \<Rightarrow> isUp
      | _ \<Rightarrow> True)"

definition donesFor :: "string \<Rightarrow> workerMsg list \<Rightarrow> workerMsg list" where
  "donesFor p = filter (\<lambda>msg. case msg of DoneMsg dn \<Rightarrow> dmDrvPath dn = p | _ \<Rightarrow> False)"

definition givenBack :: "string \<Rightarrow> expected \<Rightarrow> reasonMsg \<Rightarrow> workerMsg" where
  "givenBack p ent rs = DoneMsg \<lparr>dmDrvPath = p, dmAssignId = xAssignId ent, dmOutcome = GIVEN_BACK, dmOutputs = [], dmReason = rs\<rparr>"

definition fires :: "builder \<Rightarrow> expected \<Rightarrow> bevent \<Rightarrow> bool" where
  "fires b ent ev \<longleftrightarrow> \<not> xClaimed ent \<and>
     (case ev of
        BTick now \<Rightarrow> bDraining b \<or> xSince ent + expectTimeout < now
      | BDrain drains \<Rightarrow> drains \<and> \<not> bDraining b
      | _ \<Rightarrow> False)"

lemma donesFor_append [simp]: "donesFor p (xs @ ys) = donesFor p xs @ donesFor p ys"
  by (simp add: donesFor_def)

lemma bSend_dones: "donesFor p [msg] = [] \<Longrightarrow> donesFor p (sent (snd (bSend msg b))) = donesFor p (sent b)"
  by (simp add: bSend_def)

lemma sendDone_dones: "q \<noteq> p \<Longrightarrow> donesFor p (sent (sendDone q a oc os rs b)) = donesFor p (sent b)"
  by (simp add: sendDone_def bSend_def donesFor_def)

lemma takeUnclaimed_up [simp]: "sessionUp (snd (takeUnclaimed P b)) = sessionUp b"
  by (simp add: takeUnclaimed_def)

lemma taken_dones:
  assumes "sessionUp b" "distinct (map fst (expectedTab b))"
  shows "donesFor p (sent (bGiveBack (fst (takeUnclaimed P b)) rs (snd (takeUnclaimed P b)))) =
    donesFor p (sent b) @
    (case map_of (expectedTab b) p of Some ent \<Rightarrow> if \<not> xClaimed ent \<and> P ent then [givenBack p ent rs] else [] | None \<Rightarrow> [])"
proof -
  have "donesFor p (map (\<lambda>(p, a). DoneMsg \<lparr>dmDrvPath = p, dmAssignId = a, dmOutcome = GIVEN_BACK, dmOutputs = [], dmReason = rs\<rparr>)
       (map (\<lambda>(drv, ent). (drv, xAssignId ent)) (filter (\<lambda>(drv, ent). \<not> xClaimed ent \<and> P ent) tab))) =
    (case map_of tab p of Some ent \<Rightarrow> if \<not> xClaimed ent \<and> P ent then [givenBack p ent rs] else [] | None \<Rightarrow> [])"
    if "distinct (map fst tab)" for tab
    using that
  proof (induction tab)
    case (Cons x tab)
    have "fst x = p \<Longrightarrow> map_of tab p = None" using Cons(2) by (auto simp: map_of_eq_None_iff)
    with Cons show ?case by (cases x) (auto simp: donesFor_def givenBack_def split: option.splits)
  qed (simp add: donesFor_def)
  with assms show ?thesis by (simp add: takeUnclaimed_def bGiveBack_sent)
qed

lemma taken_left:
  assumes "distinct (map fst (expectedTab b))"
  shows "map_of (expectedTab (bGiveBack drvs rs (snd (takeUnclaimed P b)))) p =
    (case map_of (expectedTab b) p of Some ent \<Rightarrow> if \<not> xClaimed ent \<and> P ent then None else Some ent | None \<Rightarrow> None)"
proof -
  have "map_of (filter (\<lambda>(drv, ent). \<not> (\<not> xClaimed ent \<and> P ent)) tab) p =
    (case map_of tab p of Some ent \<Rightarrow> if \<not> xClaimed ent \<and> P ent then None else Some ent | None \<Rightarrow> None)"
    if "distinct (map fst tab)" for tab
    using that
  proof (induction tab)
    case (Cons x tab)
    have "fst x = p \<Longrightarrow> map_of tab p = None" using Cons(2) by (auto simp: map_of_eq_None_iff)
    with Cons show ?case by (cases x) (auto split: option.splits)
  qed simp
  with assms show ?thesis by (simp add: takeUnclaimed_def)
qed

text \<open>One quiet event.\<close>

lemma quiet_step:
  assumes "binv b" "sessionUp b" "quiet p ev"
  shows "sessionUp (bexec ev b) \<and>
    (case map_of (expectedTab b) p of
       None \<Rightarrow> map_of (expectedTab (bexec ev b)) p = None \<and> donesFor p (sent (bexec ev b)) = donesFor p (sent b)
     | Some ent \<Rightarrow>
         if fires b ent ev
         then map_of (expectedTab (bexec ev b)) p = None \<and>
           (\<exists>rs. donesFor p (sent (bexec ev b)) = donesFor p (sent b) @ [givenBack p ent rs])
         else map_of (expectedTab (bexec ev b)) p = Some ent \<and> donesFor p (sent (bexec ev b)) = donesFor p (sent b))"
proof -
  have d: "distinct (map fst (expectedTab b))" using assms(1) by (simp add: binv_def tabInv_def)
  show ?thesis
  proof (cases ev)
    case (BTick now)
    then show ?thesis
      using taken_dones [OF assms(2) d] taken_left [OF d] assms(2)
      by (auto simp: bexec_def tick_def fires_def case_prod_unfold split: option.split)
  next
    case (BDrain drains)
    let ?b = "snd (bSend (LoadMsg drains) (b\<lparr>bDraining := drains\<rparr>))"
    have "sessionUp ?b" "distinct (map fst (expectedTab ?b))" "donesFor p (sent ?b) = donesFor p (sent b)" "expectedTab ?b = expectedTab b"
      using assms(2) d by (simp_all add: bSend_def donesFor_def)
    with BDrain taken_dones [of ?b p "\<lambda>_. True" DRAINING] taken_left [of ?b _ DRAINING "\<lambda>_. True" p] show ?thesis
      using assms(2) by (auto simp: bexec_def bSetDraining_def fires_def Let_def case_prod_unfold split: option.split)
  qed (use assms(2,3) in \<open>auto simp: bexec_def quiet_def fires_def onExpect_def expectLocked_def claim_def onRevoke_def admit_def
      finished_def setSend_def greet_def bGiveBack_def sendDone_dones bSend_dones donesFor_def bSend_def helloOf_def sendDone_def
      update_conv delete_conv split: option.splits\<close>)
qed

lemma bDraining_exec: "bDraining (bexec ev b) = (case ev of BDrain drains \<Rightarrow> drains | _ \<Rightarrow> bDraining b)"
  by (cases ev) (auto simp: bexec_def onExpect_def expectLocked_def claim_def onRevoke_def admit_def finished_def setSend_def
      greet_def bSend_def bSetDraining_def tick_def takeUnclaimed_def Let_def split: option.split)

lemma quiet_absent:
  assumes "binv b" "sessionUp b" "list_all (quiet p) evs" "map_of (expectedTab b) p = None"
  shows "map_of (expectedTab (foldl (\<lambda>b ev. bexec ev b) b evs)) p = None
    \<and> donesFor p (sent (foldl (\<lambda>b ev. bexec ev b) b evs)) = donesFor p (sent b)"
  using assms
proof (induction evs arbitrary: b)
  case (Cons ev evs)
  then have "sessionUp (bexec ev b)" "map_of (expectedTab (bexec ev b)) p = None" "donesFor p (sent (bexec ev b)) = donesFor p (sent b)"
    using quiet_step [of b p ev] by simp_all
  with Cons binv_exec show ?case by simp
qed simp

lemma quiet_kept:
  assumes "binv b" "sessionUp b" "list_all (quiet p) evs" "map_of (expectedTab b) p = Some ent"
    and "xClaimed ent \<or> \<not> bDraining b \<and> BDrain True \<notin> set evs \<and> (\<forall>now. BTick now \<in> set evs \<longrightarrow> now \<le> xSince ent + expectTimeout)"
  shows "map_of (expectedTab (foldl (\<lambda>b ev. bexec ev b) b evs)) p = Some ent
    \<and> donesFor p (sent (foldl (\<lambda>b ev. bexec ev b) b evs)) = donesFor p (sent b)"
  using assms
proof (induction evs arbitrary: b)
  case (Cons ev evs)
  have "\<not> fires b ent ev" using Cons(6) by (cases ev) (auto simp: fires_def)
  then have "sessionUp (bexec ev b)" "map_of (expectedTab (bexec ev b)) p = Some ent" "donesFor p (sent (bexec ev b)) = donesFor p (sent b)"
    using quiet_step [of b p ev] Cons(3-5) by (simp_all add: Cons(2))
  moreover have "xClaimed ent \<or> \<not> bDraining (bexec ev b)" using Cons(6) by (auto simp: bDraining_exec split: bevent.split)
  ultimately show ?case using Cons(1) [of "bexec ev b"] Cons(2,4,6) binv_exec by auto
qed simp

lemma quiet_due:
  assumes "binv b" "sessionUp b" "list_all (quiet p) evs" "map_of (expectedTab b) p = Some ent" "\<not> xClaimed ent"
    and "(\<exists>now. BTick now \<in> set evs \<and> xSince ent + expectTimeout < now) \<or> BDrain True \<in> set evs \<and> \<not> bDraining b"
  shows "map_of (expectedTab (foldl (\<lambda>b ev. bexec ev b) b evs)) p = None
    \<and> (\<exists>rs. donesFor p (sent (foldl (\<lambda>b ev. bexec ev b) b evs)) = donesFor p (sent b) @ [givenBack p ent rs])"
  using assms
proof (induction evs arbitrary: b)
  case (Cons ev evs)
  note step = quiet_step [OF Cons(2,3), of p ev]
  show ?case
  proof (cases "fires b ent ev")
    case True
    then obtain rs where "sessionUp (bexec ev b)" "map_of (expectedTab (bexec ev b)) p = None"
      "donesFor p (sent (bexec ev b)) = donesFor p (sent b) @ [givenBack p ent rs]"
      using step Cons(4,5) by auto
    with quiet_absent [of "bexec ev b" p evs] Cons(2,4) binv_exec show ?thesis by auto
  next
    case False
    then have "sessionUp (bexec ev b)" "map_of (expectedTab (bexec ev b)) p = Some ent" "donesFor p (sent (bexec ev b)) = donesFor p (sent b)"
      using step Cons(4,5) by simp_all
    moreover have "(\<exists>now. BTick now \<in> set evs \<and> xSince ent + expectTimeout < now) \<or> BDrain True \<in> set evs \<and> \<not> bDraining (bexec ev b)"
      using False Cons(6,7) by (cases ev) (auto simp: fires_def bDraining_exec)
    ultimately show ?thesis using Cons(1) [of "bexec ev b"] Cons(2,4,6) binv_exec by auto
  qed
qed simp

text \<open>C36: A derivation nobody comes for is given back, once, and only then.  Take a derivation in the table of a builder and any
  events after it, with the session up, none of which announces, claims, admits, revokes or finishes that derivation.
  If it was unclaimed and among the events is a tick more than a minute after it was announced, or the
  beginning of draining, then it is no longer in the table and exactly one Done was sent for it, a
  give-back with its assignment id.  If it was claimed, or if there was no such tick and no
  draining, it is still there as it was and no Done was sent for it.\<close>

theorem unclaimed_given_back:
  assumes "breach b" "sessionUp b" "map_of (expectedTab b) p = Some ent" "list_all (quiet p) evs"
    and "b' = foldl (\<lambda>b ev. bexec ev b) b evs"
  shows "(\<not> xClaimed ent \<and>
      ((\<exists>now. BTick now \<in> set evs \<and> xSince ent + expectTimeout < now) \<or> BDrain True \<in> set evs \<and> \<not> bDraining b) \<longrightarrow>
      p \<notin> keysOf b' \<and>
      (\<exists>rs. donesFor p (sent b') = donesFor p (sent b) @
         [DoneMsg \<lparr>dmDrvPath = p, dmAssignId = xAssignId ent, dmOutcome = GIVEN_BACK, dmOutputs = [], dmReason = rs\<rparr>])) \<and>
    (xClaimed ent \<or>
      \<not> bDraining b \<and> BDrain True \<notin> set evs \<and> (\<forall>now. BTick now \<in> set evs \<longrightarrow> now \<le> xSince ent + expectTimeout) \<longrightarrow>
      map_of (expectedTab b') p = Some ent \<and> donesFor p (sent b') = donesFor p (sent b))"
  using quiet_due [OF breach_inv [OF assms(1)] assms(2,4,3)] quiet_kept [OF breach_inv [OF assms(1)] assms(2,4,3)]
    map_of_keysOf(2) [of b' p]
  unfolding assms(5) [symmetric] givenBack_def by auto

theorem unclaimed_given_back_witness:
  "(let b = foldl (\<lambda>b ev. bexec ev b) demoBuilder [BTick 100, BFinished ''a.drv'' BUILT [] [] REASON_UNSPECIFIED, BTick 60011] in
    ''b.drv'' \<notin> keysOf b \<and> (\<exists>rs. donesFor ''b.drv'' (sent b) =
      [DoneMsg \<lparr>dmDrvPath = ''b.drv'', dmAssignId = 5, dmOutcome = GIVEN_BACK, dmOutputs = [], dmReason = rs\<rparr>]))"
proof -
  have "sessionUp demoBuilder" "map_of (expectedTab demoBuilder) ''b.drv'' =
      Some \<lparr>xAssignId = 5, xSince = 10, xClaimed = False, xRunning = False, xShared = 1\<rparr>"
    "list_all (quiet ''b.drv'') [BTick 100, BFinished ''a.drv'' BUILT [] [] REASON_UNSPECIFIED, BTick 60011]"
    "donesFor ''b.drv'' (sent demoBuilder) = []"
    by (simp_all add: demoBuilder_def quiet_def donesFor_def)
  with unclaimed_given_back [OF demoBuilder_reach this(1-3) refl] show ?thesis
    by (auto simp: Let_def expectTimeout_def)
qed

section \<open>The builder and the scheduler agree after a Hello\<close>

text \<open>C23: The Hello of a builder brings the scheduler's record of that worker in line with the builder's table, whatever
  it was before: when the scheduler has taken it, every derivation of the table is assigned to the worker, and
  every derivation assigned to the worker is one of the table.  So a Done that was lost with a
  session frees its slot at the next Hello.\<close>

theorem greet_restores:
  assumes "coreReach cf clean c" "Suc (length (workers c)) < noWorker" "helloOf opts b = HelloMsg h"
    and "hello \<lparr>hiAddr = hmAddr h, hiSystems = syss, hiFeatures = hmFeatures h, hiMaxJobs = hmMaxJobs h,
           hiRunning = hmRunning h\<rparr> c = (Inr (w, sups), c')"
  shows "waddr (workers c' ! w) = advertise opts \<and> (\<forall>drv \<in> keysOf b. assignedTo w c' drv)
       \<and> (\<forall>d e. eview (entries c') d = Some e \<longrightarrow> eworker e = w \<longrightarrow> pathKey (drvPath e) \<in> pathKey ` keysOf b)"
proof -
  have h: "hmAddr h = advertise opts" "hmRunning h = map (\<lambda>(drv, ent). (drv, xAssignId ent)) (expectedTab b)"
    using assms(3) by (auto simp: helloOf_def)
  have k: "fst ` set (hmRunning h) = keysOf b" unfolding h keysOf_def by force
  have "helloPost \<lparr>hiAddr = hmAddr h, hiSystems = syss, hiFeatures = hmFeatures h, hiMaxJobs = hmMaxJobs h,
           hiRunning = hmRunning h\<rparr> c w sups c'"
    using wp_run [OF hello_ok [OF coreReach_inv [OF assms(1)] assms(2)] assms(4)] by auto
  then have "waddr (workers c' ! w) = hmAddr h" "\<forall>(p, a) \<in> set (hmRunning h). assignedTo w c' p"
    "\<forall>d e. eview (entries c') d = Some e \<longrightarrow> eworker e = w \<longrightarrow> pathKey (drvPath e) \<in> pathKey ` fst ` set (hmRunning h)"
    by (simp_all add: helloPost_def)
  then show ?thesis unfolding k [symmetric] h(1) by auto
qed

definition demoOpts :: builderOpts where
  "demoOpts = \<lparr>advertise = ''w2'', thisSystem = ''x86_64-linux'', extraPlatforms = [], extraSystems = [], systemFeatures = [], optMaxJobs = 2\<rparr>"

theorem greet_restores_witness:
  "\<exists>h w sups c'. helloOf demoOpts demoBuilder = HelloMsg h
     \<and> hello \<lparr>hiAddr = hmAddr h, hiSystems = hmSystems h, hiFeatures = hmFeatures h, hiMaxJobs = hmMaxJobs h,
           hiRunning = hmRunning h\<rparr> demoWaiting = (Inr (w, sups), c')
     \<and> assignedTo w c' ''a.drv'' \<and> assignedTo w c' ''b.drv''"
proof -
  define h where "h = \<lparr>hmAddr = ''w2'', hmSystems = [''x86_64-linux''], hmFeatures = [], hmMaxJobs = 2,
     hmRunning = [(''a.drv'', 4), (''b.drv'', 5)]\<rparr>"
  define info where "info = \<lparr>hiAddr = hmAddr h, hiSystems = hmSystems h, hiFeatures = hmFeatures h, hiMaxJobs = hmMaxJobs h,
     hiRunning = hmRunning h\<rparr>"
  have h: "helloOf demoOpts demoBuilder = HelloMsg h"
    by (simp add: helloOf_def demoOpts_def demoBuilder_def h_def)
  have run: "fst (hello info demoWaiting) = Inr (1, [])"
    by (simp add: info_def h_def demo_defs monad_defs hello_defs want_defs dispatch_defs helloRunning.simps helloAt_def Let_def del: sys_lookup)
  then obtain c' where c': "hello info demoWaiting = (Inr (1, []), c')" by (cases "hello info demoWaiting") auto
  have room: "Suc (length (workers demoWaiting)) < noWorker" by (simp add: demo_vals noWorker_def)
  have "keysOf demoBuilder = {''a.drv'', ''b.drv''}" by (simp add: keysOf_def demoBuilder_def)
  with greet_restores [OF demoWaiting_reach room h c' [unfolded info_def]] h c' show ?thesis
    unfolding info_def by blast
qed

end
