(* ===== verification/LogSpill.thy ===== *)
theory LogSpill
  imports Prelude "HOL-Library.Word" "HOL-Library.Sublist"
begin

text \<open>
  The build log a worker keeps for everybody who attaches to a build (\<^verbatim>\<open>src/daemon/log-spill.hh\<close>): one writer appends
  records to an unlinked file, any number of readers replay it from their own offset while it grows.

  The file is its bytes.  What \<open>pwrite\<close> and \<open>pread\<close> do is given from outside as a list of outcomes (a short count, an
  interruption, a failure); when the list is used up every call succeeds in full, so the retry loops end.  Sizes are
  naturals: an offset stays far below the range of \<open>size_t\<close>.  The length of a record is a 32-bit word, stored in its
  four bytes, least significant first as on the machines it runs on.
\<close>

section \<open>The file\<close>

type_synonym byte = "8 word"

datatype ioRes = Count nat | Intr | Failed

definition pwriteBytes :: "byte list \<Rightarrow> nat \<Rightarrow> byte list \<Rightarrow> byte list" where
  "pwriteBytes file off bs = take off (file @ replicate (off - length file) 0) @ bs @ drop (off + length bs) file"

text \<open>The loops of \<open>writeAt\<close> and \<open>readAt\<close>; each consumes one outcome per system call.\<close>

fun writeAt :: "ioRes list \<Rightarrow> byte list \<Rightarrow> nat \<Rightarrow> byte list \<Rightarrow> bool \<times> ioRes list \<times> byte list" where
  "writeAt [] data off file = (True, [], if data = [] then file else pwriteBytes file off data)"
| "writeAt (r # io) data off file =
     (if data = [] then (True, r # io, file)
      else case r of
        Intr \<Rightarrow> writeAt io data off file
      | Failed \<Rightarrow> (False, io, file)
      | Count n \<Rightarrow>
          (let k = min n (length data) in
           if k = 0 then (False, io, file)
           else writeAt io (drop k data) (off + k) (pwriteBytes file off (take k data))))"

text \<open>\<open>pread\<close> gives at most what the file has.\<close>

fun readAt :: "ioRes list \<Rightarrow> nat \<Rightarrow> nat \<Rightarrow> byte list \<Rightarrow> byte list option \<times> ioRes list" where
  "readAt [] n off file = (if off + n \<le> length file \<or> n = 0 then (Some (take n (drop off file)), []) else (None, []))"
| "readAt (r # io) n off file =
     (if n = 0 then (Some [], r # io)
      else case r of
        Intr \<Rightarrow> readAt io n off file
      | Failed \<Rightarrow> (None, io)
      | Count m \<Rightarrow>
          (let k = min (min m n) (length file - off) in
           if k = 0 then (None, io)
           else case readAt io (n - k) (off + k) file of
             (None, io') \<Rightarrow> (None, io')
           | (Some bs, io') \<Rightarrow> (Some (take k (drop off file) @ bs), io')))"

section \<open>Records\<close>

datatype spillKind = Line | Phase

type_synonym logRecord = "spillKind \<times> byte list"

definition kMaxText :: nat where "kMaxText = 2 ^ 20"

definition kDefaultCap :: nat where "kDefaultCap = 64 * 2 ^ 20"

definition kHeader :: nat where "kHeader = 5"

definition kTruncated :: "byte list" where
  "kTruncated = map (\<lambda>c. of_char c) ''[log truncated by the worker]''"

definition kindByte :: "spillKind \<Rightarrow> byte" where
  "kindByte k = (case k of Line \<Rightarrow> 0 | Phase \<Rightarrow> 1)"

definition lenBytes :: "32 word \<Rightarrow> byte list" where
  "lenBytes w = map (\<lambda>i. word_of_nat (unat w div 256 ^ i)) [0, 1, 2, 3]"

definition bytesLen :: "byte list \<Rightarrow> 32 word" where
  "bytesLen bs = word_of_nat (foldr (\<lambda>b acc. unat b + 256 * acc) bs 0)"

definition headerOf :: "spillKind \<Rightarrow> byte list \<Rightarrow> byte list" where
  "headerOf kind text = kindByte kind # lenBytes (word_of_nat (length text))"

section \<open>The log\<close>

record spill =
  spCap :: nat
  spFd :: "byte list option"
  spWritten :: nat
  spEnded :: bool

definition spill0 :: "nat \<Rightarrow> spill" where
  "spill0 c = \<lparr>spCap = c, spFd = None, spWritten = 0, spEnded = False\<rparr>"

definition openFile :: "bool \<Rightarrow> spill \<Rightarrow> byte list option" where
  "openFile opened sp = (case spFd sp of Some f \<Rightarrow> Some f | None \<Rightarrow> if opened then Some [] else None)"

text \<open>The record an append is to write: the marker, once the log would grow past its cap.\<close>

definition tooLong :: "byte list \<Rightarrow> spill \<Rightarrow> bool" where
  "tooLong text sp \<longleftrightarrow> spWritten sp + kHeader + length (take kMaxText text) > spCap sp"

definition nextRecord :: "spillKind \<Rightarrow> byte list \<Rightarrow> spill \<Rightarrow> logRecord" where
  "nextRecord kind text sp = (if tooLong text sp then (Line, kTruncated) else (kind, take kMaxText text))"

definition spAppend :: "ioRes list \<Rightarrow> bool \<Rightarrow> spillKind \<Rightarrow> byte list \<Rightarrow> spill \<Rightarrow> spill" where
  "spAppend io opened kind text sp =
     (if spEnded sp then sp
      else
        (let tail = spWritten sp; ended = tooLong text sp; (k, t) = nextRecord kind text sp in
         case openFile opened sp of
           None \<Rightarrow> sp\<lparr>spEnded := True\<rparr>
         | Some f \<Rightarrow>
             (case writeAt io (headerOf k t) tail f of
                (False, _, f) \<Rightarrow> sp\<lparr>spFd := Some f, spEnded := True\<rparr>
              | (True, io, f) \<Rightarrow>
                  (case writeAt io t (tail + kHeader) f of
                     (False, _, f) \<Rightarrow> sp\<lparr>spFd := Some f, spEnded := True\<rparr>
                   | (True, _, f) \<Rightarrow> sp\<lparr>spFd := Some f, spWritten := tail + kHeader + length t, spEnded := ended\<rparr>))))"

text \<open>\<open>drain\<close>, over the bytes of the file and the end published when it started; it gives what it emitted and where to
  resume.\<close>

function drainFrom :: "ioRes list \<Rightarrow> byte list \<Rightarrow> nat \<Rightarrow> nat \<Rightarrow> logRecord list \<times> nat" where
  "drainFrom io file fin off =
     (if \<not> off < fin then ([], off)
      else case readAt io kHeader off file of
        (None, io) \<Rightarrow> ([], fin)
      | (Some hdr, io) \<Rightarrow>
          (let len = unat (bytesLen (tl hdr)); kind = hd hdr in
           if len > kMaxText \<or> kind > kindByte Phase then ([], fin)
           else case readAt io len (off + kHeader) file of
             (None, io) \<Rightarrow> ([], fin)
           | (Some text, io) \<Rightarrow>
               (case drainFrom io file fin (off + kHeader + len) of
                  (out, resume) \<Rightarrow> ((if kind = kindByte Line then Line else Phase, text) # out, resume))))"
  by pat_completeness auto
termination
  by (relation "measure (\<lambda>(io, file, fin, off). fin - off)") (auto simp: kHeader_def)

declare drainFrom.simps [simp del]

definition fileOf :: "spill \<Rightarrow> byte list" where
  "fileOf sp = (case spFd sp of Some f \<Rightarrow> f | None \<Rightarrow> [])"

definition drain :: "ioRes list \<Rightarrow> nat \<Rightarrow> spill \<Rightarrow> logRecord list \<times> nat" where
  "drain io off sp = drainFrom io (fileOf sp) (spWritten sp) off"

text \<open>One round of \<open>followSpill\<close>: the log and the outcomes of its reads when it drains, and the flags and the log when it
  has the lock again.\<close>

record follow_round =
  rdDrain :: spill
  rdIo :: "ioRes list"
  rdFinished :: bool
  rdCheck :: spill
  rdCancelled :: bool

text \<open>\<open>None\<close>: still waiting after the given rounds.\<close>

fun followFrom :: "nat \<Rightarrow> follow_round list \<Rightarrow> bool option \<times> logRecord list" where
  "followFrom off [] = (None, [])"
| "followFrom off (rd # rds) =
     (case drain (rdIo rd) off (rdDrain rd) of
        (out, off) \<Rightarrow>
          if rdFinished rd \<and> off \<ge> spWritten (rdCheck rd) then (Some True, out)
          else if rdCancelled rd then (Some False, out)
          else (case followFrom off rds of (r, out2) \<Rightarrow> (r, out @ out2)))"

definition followSpill :: "follow_round list \<Rightarrow> bool option \<times> logRecord list" where
  "followSpill = followFrom 0"

section \<open>Bytes\<close>

lemma lenBytes_length [simp]: "length (lenBytes w) = 4"
  by (simp add: lenBytes_def)

lemma base256:
  assumes "n < 2 ^ 32"
  shows "n mod 256 + 256 * (n div 256 mod 256 + 256 * (n div 256 ^ 2 mod 256 + 256 * (n div 256 ^ 3 mod 256))) = (n :: nat)"
proof -
  have step: "m mod 256 + 256 * (m div 256) = m" for m :: nat by simp
  have "n div 256 ^ 2 = n div 256 div 256" "n div 256 ^ 3 = n div 256 div 256 div 256"
    by (simp_all add: div_mult2_eq [symmetric])
  moreover have "n div 256 div 256 div 256 < 256" using assms by (simp add: div_mult2_eq [symmetric] less_mult_imp_div_less)
  ultimately show ?thesis using step [of n] step [of "n div 256"] step [of "n div 256 div 256"] by simp
qed

lemma lenBytes_inverse [simp]: "bytesLen (lenBytes w) = w"
proof -
  have "unat w < 2 ^ 32" using unsigned_less [of w, where ?'a = nat] by simp
  moreover from this have "unat w div 16777216 < 256" by (simp add: less_mult_imp_div_less)
  ultimately have "foldr (\<lambda>b acc. unat b + 256 * acc) (lenBytes w) 0 = unat w"
    using base256 [of "unat w"] by (simp add: lenBytes_def unat_of_nat del: of_nat_unat)
  then show ?thesis by (simp add: bytesLen_def)
qed

lemma headerOf_length [simp]: "length (headerOf k t) = kHeader"
  by (simp add: headerOf_def kHeader_def)

lemma pwriteBytes_props:
  assumes "off \<le> length fl"
  shows "take (off + length bs) (pwriteBytes fl off bs) = take off fl @ bs"
    and "length (pwriteBytes fl off bs) = max (length fl) (off + length bs)"
  using assms by (simp_all add: pwriteBytes_def)

text \<open>Writing changes nothing before its offset, whatever the system calls do.\<close>

lemma writeAt_ok:
  "writeAt io data off fl = (ok, io', fl') \<Longrightarrow> off \<le> length fl \<Longrightarrow>
   take off fl' = take off fl \<and> length fl \<le> length fl'
   \<and> (ok \<longrightarrow> take (off + length data) fl' = take off fl @ data \<and> off + length data \<le> length fl')"
proof (induction io data off fl rule: writeAt.induct)
  case (1 data off fl)
  then show ?case using pwriteBytes_props [of off fl data] by (auto simp: pwriteBytes_def split: if_splits)
next
  case (2 r io data off fl)
  show ?case
  proof (cases "data = [] \<or> (\<forall>n. r \<noteq> Count n) \<or> r = Count 0")
    case True
    then show ?thesis using 2 by (cases r) (auto split: if_splits)
  next
    case False
    then obtain n where r: "r = Count n" and d: "data \<noteq> []" and n: "n \<noteq> 0" by (cases r) auto
    define k where "k = min n (length data)"
    have k: "0 < k" "k \<le> length data" using d n by (auto simp: k_def)
    let ?g = "pwriteBytes fl off (take k data)"
    have w: "writeAt io (drop k data) (off + k) ?g = (ok, io', fl')"
      using 2(3) r d k by (simp add: Let_def flip: k_def)
    have fg: "take (off + k) ?g = take off fl @ take k data" "length ?g = max (length fl) (off + k)"
      using pwriteBytes_props [OF 2(4), of "take k data"] k by simp_all
    have ih: "take (off + k) fl' = take (off + k) ?g \<and> length ?g \<le> length fl'
       \<and> (ok \<longrightarrow> take (off + k + length (drop k data)) fl' = take (off + k) ?g @ drop k data \<and> off + k + length (drop k data) \<le> length fl')"
      using 2(1) [OF d r k_def _ w] k fg by simp
    then have "take off (take (off + k) fl') = take off fl" using fg 2(4) by simp
    then have "take off fl' = take off fl" by (simp add: take_take min_def split: if_splits)
    then show ?thesis using ih fg k by (auto simp: min_def)
  qed
qed

definition clean :: "ioRes list \<Rightarrow> bool" where
  "clean io \<longleftrightarrow> Failed \<notin> set io \<and> Count 0 \<notin> set io"

lemma readAt_some: "readAt io n off fl = (Some bs, io') \<Longrightarrow> bs = take n (drop off fl) \<and> (off + n \<le> length fl \<or> n = 0)"
proof (induction io n off fl arbitrary: bs rule: readAt.induct)
  case (2 r io n off fl)
  show ?case
  proof (cases "n = 0 \<or> (\<forall>n. r \<noteq> Count n)")
    case True
    then show ?thesis using 2 by (cases r) (auto split: if_splits)
  next
    case False
    then obtain m where r: "r = Count m" and n: "n \<noteq> 0" by (cases r) auto
    define k where "k = min (min m n) (length fl - off)"
    have k: "k \<noteq> 0" using 2(3) r n by (auto simp: k_def [symmetric] Let_def split: if_splits)
    then obtain bs' where w: "readAt io (n - k) (off + k) fl = (Some bs', io')" "bs = take k (drop off fl) @ bs'"
      using 2(3) r n by (auto simp: Let_def split: prod.splits option.splits simp flip: k_def)
    have "bs' = take (n - k) (drop (off + k) fl) \<and> (off + k + (n - k) \<le> length fl \<or> n - k = 0)"
      using 2(1) [OF n r k_def k] w by simp
    moreover have "k \<le> n" "off + k \<le> length fl" using k by (auto simp: k_def)
    ultimately show ?thesis using w(2) take_add [of k "n - k" "drop off fl"] by (auto simp: add.commute)
  qed
qed (auto split: if_splits)

lemma readAt_clean:
  "clean io \<Longrightarrow> off + n \<le> length fl \<Longrightarrow> \<exists>io'. readAt io n off fl = (Some (take n (drop off fl)), io') \<and> clean io'"
proof (induction io n off fl rule: readAt.induct)
  case (2 r io n off fl)
  show ?case
  proof (cases "n = 0 \<or> (\<forall>n. r \<noteq> Count n)")
    case True
    then show ?thesis using 2 by (cases r) (auto simp: clean_def)
  next
    case False
    then obtain m where r: "r = Count m" and n: "n \<noteq> 0" by (cases r) auto
    define k where "k = min (min m n) (length fl - off)"
    have k: "k \<noteq> 0" "k \<le> n" "m \<noteq> 0" using 2(3,4) r n by (auto simp: clean_def k_def)
    obtain io' where "readAt io (n - k) (off + k) fl = (Some (take (n - k) (drop (off + k) fl)), io')" "clean io'"
      using 2(1) [OF n r k_def k(1)] 2(3,4) k(2) by (auto simp: clean_def)
    then show ?thesis using r n k take_add [of k "n - k" "drop off fl"] by (simp add: Let_def add.commute flip: k_def)
  qed
qed (auto simp: clean_def)

section \<open>What the file holds\<close>

definition encRec :: "logRecord \<Rightarrow> byte list" where
  "encRec = (\<lambda>(kind, text). headerOf kind text @ text)"

definition enc :: "logRecord list \<Rightarrow> byte list" where
  "enc rs = concat (map encRec rs)"

lemma enc_simps [simp]: "enc [] = []" "enc (r # rs) = encRec r @ enc rs" "enc (rs @ ss) = enc rs @ enc ss"
  by (simp_all add: enc_def)

lemma encRec_length [simp]: "length (encRec (k, t)) = kHeader + length t"
  by (simp add: encRec_def)

text \<open>The bytes a reader may look at are the published records, and the writer's position is where they end.\<close>

definition spillOk :: "nat \<Rightarrow> spill \<Rightarrow> logRecord list \<Rightarrow> bool" where
  "spillOk c sp rs \<longleftrightarrow> spCap sp = c \<and> spWritten sp = length (enc rs) \<and> take (spWritten sp) (fileOf sp) = enc rs
     \<and> spWritten sp \<le> length (fileOf sp) \<and> (\<forall>(k, t) \<in> set rs. length t \<le> kMaxText)
     \<and> (\<not> spEnded sp \<longrightarrow> spWritten sp \<le> c) \<and> spWritten sp \<le> c + kHeader + length kTruncated"

lemma kTruncated_length [simp]: "length kTruncated = 29"
  by (simp add: kTruncated_def)

lemma nextRecord_length:
  assumes "nextRecord kind text sp = (k, t)"
  shows "length t \<le> kMaxText" and "spWritten sp \<le> spCap sp \<Longrightarrow> spWritten sp + kHeader + length t \<le> spCap sp + kHeader + length kTruncated"
    and "\<not> tooLong text sp \<Longrightarrow> spWritten sp + kHeader + length t \<le> spCap sp"
  using assms by (auto simp: nextRecord_def tooLong_def kMaxText_def split: if_splits)

text \<open>An append either publishes the record or changes nothing a reader sees and ends the log.\<close>

lemma spAppend_ok:
  assumes ok: "spillOk c sp rs" and ne: "\<not> spEnded sp" and nr: "nextRecord kind text sp = (k, t)"
  shows "(spWritten (spAppend io opened kind text sp) = spWritten sp \<and> spEnded (spAppend io opened kind text sp)
        \<and> spillOk c (spAppend io opened kind text sp) rs)
    \<or> (spWritten (spAppend io opened kind text sp) = spWritten sp + kHeader + length t
        \<and> spillOk c (spAppend io opened kind text sp) (rs @ [(k, t)]))"
proof (cases "openFile opened sp")
  case None
  then have "spAppend io opened kind text sp = sp\<lparr>spEnded := True\<rparr>" using ne nr None by (simp add: spAppend_def)
  then show ?thesis using ok by (intro disjI1) (auto simp: spillOk_def fileOf_def)
next
  case (Some f)
  let ?w = "spWritten sp"
  have f: "f = fileOf sp" using Some by (auto simp: openFile_def fileOf_def split: option.splits if_splits)
  have w: "?w \<le> length f" "take ?w f = enc rs" "?w = length (enc rs)" using ok unfolding spillOk_def f by auto
  obtain ok1 io1 f1 where 1: "writeAt io (headerOf k t) ?w f = (ok1, io1, f1)" by (cases "writeAt io (headerOf k t) ?w f")
  note h = writeAt_ok [OF 1 w(1)]
  obtain ok2 io2 f2 where 2: "writeAt io1 t (?w + kHeader) f1 = (ok2, io2, f2)" by (cases "writeAt io1 t (?w + kHeader) f1")
  have fail: "spillOk c (sp\<lparr>spFd := Some g, spEnded := True\<rparr>) rs" if "take ?w g = take ?w f" "length f \<le> length g" for g
    using ok that w by (simp add: spillOk_def fileOf_def)
  show ?thesis
  proof (cases "ok1 \<and> ok2")
    case True
    have b: "take (?w + kHeader + length t) f2 = take (?w + kHeader) f1 @ t" "?w + kHeader + length t \<le> length f2"
      using writeAt_ok [OF 2] h True by simp_all
    then have "take (?w + kHeader + length t) f2 = enc (rs @ [(k, t)])" using h True w(2) by (simp add: encRec_def)
    moreover have "spAppend io opened kind text sp
        = sp\<lparr>spFd := Some f2, spWritten := ?w + kHeader + length t, spEnded := tooLong text sp\<rparr>"
      using ne nr Some 1 2 True by (simp add: spAppend_def)
    ultimately show ?thesis
      using ok ne b(2) nextRecord_length [OF nr] by (auto simp: spillOk_def fileOf_def)
  next
    case False
    show ?thesis
    proof (cases ok1)
      case True
      then have n2: "\<not> ok2" using False by simp
      have "take (?w + kHeader) f2 = take (?w + kHeader) f1" "length f1 \<le> length f2" using writeAt_ok [OF 2] h True by simp_all
      then have "take ?w f2 = take ?w f1" by (metis le_add1 min.absorb1 take_take)
      moreover have "spAppend io opened kind text sp = sp\<lparr>spFd := Some f2, spEnded := True\<rparr>"
        using ne nr Some 1 2 True n2 by (simp add: spAppend_def)
      ultimately show ?thesis using fail [of f2] h \<open>length f1 \<le> length f2\<close> by simp
    next
      case False
      then have "spAppend io opened kind text sp = sp\<lparr>spFd := Some f1, spEnded := True\<rparr>"
        using ne nr Some 1 by (simp add: spAppend_def)
      then show ?thesis using fail [of f1] h by simp
    qed
  qed
qed

text \<open>The records of a log, as its owner appended them.\<close>

inductive spillRun :: "nat \<Rightarrow> spill \<Rightarrow> logRecord list \<Rightarrow> bool" for c where
  start: "spillRun c (spill0 c) []"
| append: "spillRun c sp rs \<Longrightarrow> sp' = spAppend io opened kind text sp \<Longrightarrow>
    rs' = (if spWritten sp' = spWritten sp then rs else rs @ [nextRecord kind text sp]) \<Longrightarrow> spillRun c sp' rs'"

lemma spillRun_ok: "spillRun c sp rs \<Longrightarrow> spillOk c sp rs"
proof (induction rule: spillRun.induct)
  case (append sp rs sp' io opened kind tx rs')
  obtain k t where nr: "nextRecord kind tx sp = (k, t)" by fastforce
  show ?case
  proof (cases "spEnded sp")
    case True
    then show ?thesis using append by (simp add: spAppend_def)
  next
    case False
    from spAppend_ok [OF append(4) False nr, of io opened] show ?thesis
      using append(2,3) nr by (auto simp: kHeader_def)
  qed
qed (simp add: spillOk_def spill0_def fileOf_def)

text \<open>Later appends leave what has been published as it is.\<close>

lemma spAppend_keeps:
  assumes "spillOk c sp rs"
  shows "\<exists>ss. spillOk c (spAppend io opened kind text sp) (rs @ ss)"
proof (cases "spEnded sp")
  case True
  then show ?thesis using assms by (intro exI [of _ "[]"]) (simp add: spAppend_def)
next
  case False
  obtain k t where nr: "nextRecord kind text sp = (k, t)" by fastforce
  from spAppend_ok [OF assms False nr, of io opened] show ?thesis by (metis append_Nil2)
qed

definition appends :: "(ioRes list \<times> bool \<times> spillKind \<times> byte list) list \<Rightarrow> spill \<Rightarrow> spill" where
  "appends ops sp = foldl (\<lambda>sp (io, opened, kind, text). spAppend io opened kind text sp) sp ops"

lemma appends_keeps: "spillOk c sp rs \<Longrightarrow> \<exists>ss. spillOk c (appends ops sp) (rs @ ss)"
proof (induction ops arbitrary: sp rs)
  case (Cons op ops)
  obtain io opened kind tx where op: "op = (io, opened, kind, tx)" by (cases op)
  obtain ss where "spillOk c (spAppend io opened kind tx sp) (rs @ ss)" using spAppend_keeps [OF Cons.prems] by blast
  from Cons.IH [OF this] obtain ss' where "spillOk c (appends ops (spAppend io opened kind tx sp)) (rs @ ss @ ss')" by auto
  then show ?case by (auto simp: appends_def op)
qed (auto simp: appends_def intro: exI [of _ "[]"])

section \<open>Reading back\<close>

lemma kindByte_le: "\<not> kindByte k > kindByte Phase" and kindByte_Line: "(if kindByte k = kindByte Line then Line else Phase) = k"
  by (cases k; simp add: kindByte_def word_less_nat_alt)+

text \<open>One round of the loop, at the start of a record.\<close>

lemma drainFrom_step:
  assumes fl: "take (length (enc pre) + length (encRec (k, t))) fl = enc pre @ encRec (k, t)"
    and len: "length (enc pre) + length (encRec (k, t)) \<le> length fl" and fin: "length (enc pre) + length (encRec (k, t)) \<le> fin"
    and t: "length t \<le> kMaxText"
  shows "drainFrom io fl fin (length (enc pre)) = ([], fin) \<and> \<not> clean io
    \<or> (\<exists>io'. (clean io \<longrightarrow> clean io') \<and> drainFrom io fl fin (length (enc pre))
        = (let (out, resume) = drainFrom io' fl fin (length (enc (pre @ [(k, t)]))) in ((k, t) # out, resume)))"
proof -
  let ?off = "length (enc pre)"
  have x: "take (kHeader + length t) (drop ?off fl) = headerOf k t @ t"
    using arg_cong [OF fl, of "drop ?off"] by (simp add: drop_take encRec_def)
  have "take kHeader (drop ?off fl) = take kHeader (take (kHeader + length t) (drop ?off fl))" by simp
  then have h1: "take kHeader (drop ?off fl) = headerOf k t" unfolding x by simp
  have "take (length t) (drop (?off + kHeader) fl) = drop kHeader (take (kHeader + length t) (drop ?off fl))"
    by (simp add: drop_take add.commute)
  then have h2: "take (length t) (drop (?off + kHeader) fl) = t" unfolding x by simp
  note h = h1 h2
  have n: "length t < 2 ^ 32" using t by (simp add: kMaxText_def)
  then have hd: "hd (headerOf k t) = kindByte k" "unat (bytesLen (tl (headerOf k t))) = length t"
    by (simp_all add: headerOf_def unat_of_nat)
  have lt: "?off < fin" using fin by (simp add: kHeader_def)
  obtain r1 io1 where 1: "readAt io kHeader ?off fl = (r1, io1)" by fastforce
  obtain r2 io2 where 2: "readAt io1 (length t) (?off + kHeader) fl = (r2, io2)" by fastforce
  have c1: "r1 = Some (headerOf k t) \<and> clean io1" if "clean io"
    using readAt_clean [OF that, of ?off kHeader fl] len 1 h by simp
  have c2: "r2 = Some t \<and> clean io2" if "clean io1"
    using readAt_clean [OF that, of "?off + kHeader" "length t" fl] len 2 h by simp
  show ?thesis
  proof (cases "r1 = None \<or> r2 = None")
    case True
    then have "\<not> clean io" using c1 c2 by auto
    moreover have "drainFrom io fl fin ?off = ([], fin)"
      using True lt 1 2 hd t kindByte_le [of k] readAt_some [of io kHeader ?off fl] h
      by (subst drainFrom.simps) (cases r1; auto simp: Let_def)
    ultimately show ?thesis by blast
  next
    case False
    then have "r1 = Some (headerOf k t)" "r2 = Some t"
      using readAt_some [of io kHeader ?off fl] readAt_some [of io1 "length t" "?off + kHeader" fl] 1 2 h by auto
    then have "drainFrom io fl fin ?off = (let (out, resume) = drainFrom io2 fl fin (length (enc (pre @ [(k, t)]))) in ((k, t) # out, resume))"
      using lt 1 2 hd t kindByte_le [of k] kindByte_Line [of k]
      by (subst drainFrom.simps) (simp add: Let_def add.assoc split: prod.split)
    then show ?thesis using c1 c2 by blast
  qed
qed

lemma drainFrom_ok:
  assumes "take fin fl = enc (pre @ rs)" "fin = length (enc (pre @ rs))" "fin \<le> length fl" "\<forall>(k, t) \<in> set rs. length t \<le> kMaxText"
  shows "\<exists>out. drainFrom io fl fin (length (enc pre)) = (out, fin) \<and> prefix out rs \<and> (clean io \<longrightarrow> out = rs)"
  using assms
proof (induction rs arbitrary: pre io)
  case Nil
  then show ?case by (subst drainFrom.simps) simp
next
  case (Cons r rs)
  obtain k t where r: "r = (k, t)" by fastforce
  let ?n = "length (enc pre) + length (encRec (k, t))"
  have n: "?n \<le> fin" using Cons.prems(2) by (simp add: r)
  have "take ?n fl = take ?n (take fin fl)" using n by (simp add: min_def)
  also have "\<dots> = enc pre @ encRec (k, t)" using Cons.prems(1) by (simp add: r)
  finally have fl: "take ?n fl = enc pre @ encRec (k, t)" .
  have t: "length t \<le> kMaxText" using Cons.prems(4) by (simp add: r)
  from drainFrom_step [OF fl _ n t, of io] consider
      "drainFrom io fl fin (length (enc pre)) = ([], fin)" "\<not> clean io"
    | io' where "clean io \<longrightarrow> clean io'" "drainFrom io fl fin (length (enc pre))
        = (let (out, resume) = drainFrom io' fl fin (length (enc (pre @ [(k, t)]))) in ((k, t) # out, resume))"
    using n Cons.prems(3) by fastforce
  then show ?case
  proof cases
    case 2
    obtain out where "drainFrom io' fl fin (length (enc (pre @ [(k, t)]))) = (out, fin) \<and> prefix out rs \<and> (clean io' \<longrightarrow> out = rs)"
      using Cons.IH [of "pre @ [(k, t)]" io'] Cons.prems by (auto simp: r)
    then show ?thesis using 2 by (auto simp: r)
  qed auto
qed

lemma drain_ok:
  assumes "spillOk c sp (pre @ rs)"
  shows "\<exists>out. drain io (length (enc pre)) sp = (out, spWritten sp) \<and> prefix out rs \<and> (clean io \<longrightarrow> out = rs)"
  unfolding drain_def by (rule drainFrom_ok) (use assms in \<open>auto simp: spillOk_def\<close>)

section \<open>Following\<close>

text \<open>What the rounds of a follower see of a log that ends as \<open>full\<close>: it only grows, and \<open>finished\<close> is set after the last append.\<close>

fun seen :: "nat \<Rightarrow> logRecord list \<Rightarrow> logRecord list \<Rightarrow> follow_round list \<Rightarrow> bool" where
  "seen c full rs [] \<longleftrightarrow> prefix rs full"
| "seen c full rs (rd # rds) \<longleftrightarrow> (\<exists>rs1 rs2. spillRun c (rdDrain rd) rs1 \<and> spillRun c (rdCheck rd) rs2 \<and> prefix rs rs1 \<and> prefix rs1 rs2
     \<and> (rdFinished rd \<longrightarrow> rs2 = full) \<and> seen c full rs2 rds)"

lemma seen_prefix: "seen c full rs2 rds \<Longrightarrow> prefix rs1 rs2 \<Longrightarrow> seen c full rs1 rds \<and> prefix rs1 full"
proof (induction rds arbitrary: rs1 rs2)
  case (Cons rd rds)
  then obtain rs3 rs4 where *: "spillRun c (rdDrain rd) rs3" "spillRun c (rdCheck rd) rs4" "prefix rs2 rs3" "prefix rs3 rs4"
    "rdFinished rd \<longrightarrow> rs4 = full" "seen c full rs4 rds" by auto
  have "prefix rs1 full" using Cons.IH [OF *(6), of rs1] *(3,4) Cons.prems(2) prefix_order.trans by blast
  moreover have "prefix rs1 rs3" using *(3) Cons.prems(2) prefix_order.trans by blast
  ultimately show ?case using * by auto
qed (auto intro: prefix_order.trans)

lemma enc_Nil [simp]: "enc rs = [] \<longleftrightarrow> rs = []"
  by (cases rs) (auto simp: encRec_def headerOf_def)

lemma enc_inj: "prefix rs1 rs2 \<Longrightarrow> length (enc rs2) \<le> length (enc rs1) \<Longrightarrow> rs1 = rs2"
  by (auto simp: prefix_def)

lemma followFrom_ok:
  assumes "seen c full rs rds"
  shows "\<exists>out. snd (followFrom (length (enc rs)) rds) = out \<and> subseq (rs @ out) full
    \<and> ((\<forall>rd \<in> set rds. clean (rdIo rd)) \<longrightarrow> prefix (rs @ out) full \<and> (fst (followFrom (length (enc rs)) rds) = Some True \<longrightarrow> rs @ out = full))"
  using assms
proof (induction rds arbitrary: rs)
  case (Cons rd rds)
  then obtain rs1 rs2 where *: "spillRun c (rdDrain rd) rs1" "spillRun c (rdCheck rd) rs2" "prefix rs rs1" "prefix rs1 rs2"
    "rdFinished rd \<longrightarrow> rs2 = full" "seen c full rs2 rds" by auto
  obtain ss where ss: "rs1 = rs @ ss" using *(3) by (auto simp: prefix_def)
  have ok: "spillOk c (rdDrain rd) (rs @ ss)" using spillRun_ok [OF *(1)] ss by simp
  obtain out where out: "drain (rdIo rd) (length (enc rs)) (rdDrain rd) = (out, spWritten (rdDrain rd))" "prefix out ss"
    "clean (rdIo rd) \<Longrightarrow> out = ss" using drain_ok [OF ok, of "rdIo rd"] by blast
  have w: "spWritten (rdDrain rd) = length (enc rs1)" "spWritten (rdCheck rd) = length (enc rs2)"
    using spillRun_ok [OF *(1)] spillRun_ok [OF *(2)] by (simp_all add: spillOk_def)
  have s1: "seen c full rs1 rds" "prefix rs1 full" using seen_prefix [OF *(6,4)] by simp_all
  have so: "subseq (rs @ out @ more) full" if "subseq (rs1 @ more) full" for more :: "logRecord list"
  proof -
    have "subseq ((rs @ out) @ more) ((rs @ ss) @ more)" using prefix_imp_subseq [OF out(2)] by (simp only: subseq_append subseq_append')
    then show ?thesis using subseq_order.trans [OF _ that] by (simp add: ss)
  qed
  show ?case
  proof (cases "(rdFinished rd \<and> spWritten (rdCheck rd) \<le> spWritten (rdDrain rd)) \<or> rdCancelled rd")
    case True
    have "rs1 = full" if "rdFinished rd" "spWritten (rdCheck rd) \<le> spWritten (rdDrain rd)"
      using enc_inj [OF *(4)] *(5) that w by simp
    then show ?thesis
      using True out so [of "[]"] s1(2) prefix_imp_subseq ss by (auto split: if_splits)
  next
    case False
    obtain r2 out2 where f: "followFrom (spWritten (rdDrain rd)) rds = (r2, out2)" by fastforce
    then show ?thesis
      using Cons.IH [OF s1(1)] False out so [of out2] ss by (auto simp: w)
  qed
qed (auto intro: prefix_imp_subseq)

lemma followFrom_ends:
  assumes "seen c full rs rds" "rds \<noteq> []" "\<forall>rd \<in> set rds. \<not> rdCancelled rd" "rdFinished (last rds)"
    "spWritten (rdCheck (last rds)) \<le> spWritten (rdDrain (last rds))"
  shows "fst (followFrom (length (enc rs)) rds) = Some True"
  using assms
proof (induction rds arbitrary: rs)
  case (Cons rd rds)
  then obtain rs1 rs2 where *: "spillRun c (rdDrain rd) rs1" "prefix rs rs1" "prefix rs1 rs2" "seen c full rs2 rds" by auto
  obtain ss where ss: "rs1 = rs @ ss" using *(2) by (auto simp: prefix_def)
  obtain out where out: "drain (rdIo rd) (length (enc rs)) (rdDrain rd) = (out, spWritten (rdDrain rd))"
    using drain_ok [of c "rdDrain rd" rs ss "rdIo rd"] spillRun_ok [OF *(1)] ss by blast
  have w: "spWritten (rdDrain rd) = length (enc rs1)" using spillRun_ok [OF *(1)] by (simp add: spillOk_def)
  have s1: "seen c full rs1 rds" using seen_prefix [OF *(4,3)] by simp
  show ?case
  proof (cases "rds = []")
    case True
    then show ?thesis using Cons.prems(3-5) out by simp
  next
    case False
    then have "fst (followFrom (spWritten (rdDrain rd)) rds) = Some True"
      unfolding w by (intro Cons.IH [OF s1]) (use Cons.prems in simp_all)
    then show ?thesis using out Cons.prems(3) by (auto split: prod.splits)
  qed
qed simp

section \<open>A log to look at\<close>

definition demoLog1 :: spill where
  "demoLog1 = spAppend [Intr, Count 2] True Line [1, 2] (spill0 100)"

definition demoLog2 :: spill where
  "demoLog2 = spAppend [] True Phase [3] demoLog1"

lemmas spill_run = spAppend_def spill0_def nextRecord_def tooLong_def kMaxText_def kHeader_def openFile_def headerOf_def lenBytes_def
  pwriteBytes_def kindByte_def

lemma demoLog_eval: "spWritten demoLog1 = 7" "spWritten demoLog2 = 13"
  by (simp_all add: demoLog1_def demoLog2_def spill_run Let_def)

lemma demoLog_run: "spillRun 100 demoLog1 [(Line, [1, 2])]" "spillRun 100 demoLog2 [(Line, [1, 2]), (Phase, [3])]"
proof -
  show 1: "spillRun 100 demoLog1 [(Line, [1, 2])]"
    by (rule spillRun.append [OF spillRun.start demoLog1_def])
       (simp add: demoLog_eval spill0_def nextRecord_def tooLong_def kMaxText_def kHeader_def)
  show "spillRun 100 demoLog2 [(Line, [1, 2]), (Phase, [3])]"
    by (rule spillRun.append [OF 1 demoLog2_def])
       (use spillRun_ok [OF 1] in \<open>simp add: demoLog_eval nextRecord_def tooLong_def kMaxText_def kHeader_def spillOk_def\<close>)
qed

section \<open>Properties\<close>

text \<open>C25: What was appended is read back: a reader that stands at the start of a record gets, when its reads do not fail, exactly the
  records published from there on, whole and in order, and the position where they end; and it gets them however the writer has gone
  on since, with writes that are short, interrupted or fail.\<close>

theorem log_roundtrip:
  assumes "spillRun c sp rs" "clean io" "n \<le> length rs"
  shows "drainFrom io (fileOf (appends ops sp)) (spWritten sp) (length (enc (take n rs))) = (drop n rs, spWritten sp)"
proof -
  have ok: "spillOk c sp rs" by (rule spillRun_ok [OF assms(1)])
  obtain ss where later: "spillOk c (appends ops sp) (rs @ ss)" using appends_keeps [OF ok] by blast
  let ?f = "fileOf (appends ops sp)"
  have w: "spWritten sp = length (enc rs)" using ok by (simp add: spillOk_def)
  have l: "take (spWritten (appends ops sp)) ?f = enc rs @ enc ss" "spWritten (appends ops sp) = length (enc rs) + length (enc ss)"
    "spWritten (appends ops sp) \<le> length ?f" using later by (auto simp: spillOk_def)
  have "take (spWritten sp) ?f = take (spWritten sp) (take (spWritten (appends ops sp)) ?f)" by (simp add: l(2) w)
  also have "\<dots> = enc rs" by (simp only: l(1)) (simp add: w)
  finally have "take (spWritten sp) ?f = enc (take n rs @ drop n rs)" by simp
  moreover have "\<forall>(k, t) \<in> set (drop n rs). length t \<le> kMaxText" using ok by (auto simp: spillOk_def dest: in_set_dropD)
  moreover have "spWritten sp \<le> length ?f" using l w by simp
  ultimately show ?thesis
    using drainFrom_ok [of "spWritten sp" ?f "take n rs" "drop n rs" io] assms(2) w by auto
qed

theorem log_roundtrip_witness:
  "drainFrom [Intr, Count 3] (fileOf (appends [([Failed], True, Phase, [3])] demoLog1)) (spWritten demoLog1) 0 = ([(Line, [1, 2])], spWritten demoLog1)"
  using log_roundtrip [OF demoLog_run(1), of "[Intr, Count 3]" 0 "[([Failed], True, Phase, [3])]"] by (simp add: clean_def)

text \<open>C37: A log stays within its cap: the bytes published never exceed it by more than the marker that says the log was truncated, a log
  that can still grow is within it, and no text is longer than the limit a reader checks.\<close>

theorem log_bounded:
  assumes "spillRun c sp rs"
  shows "spWritten sp \<le> c + kHeader + length kTruncated \<and> (\<not> spEnded sp \<longrightarrow> spWritten sp \<le> c)
    \<and> (\<forall>i < length rs. length (snd (rs ! i)) \<le> kMaxText)"
proof -
  have "\<forall>r \<in> set rs. length (snd r) \<le> kMaxText" using spillRun_ok [OF assms] by (auto simp: spillOk_def)
  then show ?thesis using spillRun_ok [OF assms] by (auto simp: spillOk_def)
qed

theorem log_bounded_witness: "spWritten demoLog2 \<le> 134"
  using log_bounded [OF demoLog_run(2)] by (simp add: kHeader_def)

text \<open>C26: Who follows a log while it grows gets a part of its records in their order and none twice, whatever its reads do; with reads
  that do not fail it gets them without a gap, and all of them when the follower reports the end; and the follower ends
  once the log is finished and drained, unless it is cancelled.\<close>

theorem follow_complete:
  assumes "seen c full [] rds"
  shows "subseq (snd (followSpill rds)) full
    \<and> ((\<forall>rd \<in> set rds. clean (rdIo rd)) \<longrightarrow> prefix (snd (followSpill rds)) full \<and> (fst (followSpill rds) = Some True \<longrightarrow> snd (followSpill rds) = full))
    \<and> (rds \<noteq> [] \<and> (\<forall>rd \<in> set rds. \<not> rdCancelled rd) \<and> rdFinished (last rds) \<and> spWritten (rdCheck (last rds)) \<le> spWritten (rdDrain (last rds))
        \<longrightarrow> fst (followSpill rds) = Some True)"
  using followFrom_ok [OF assms] followFrom_ends [OF assms] by (auto simp: followSpill_def)

definition demoRounds :: "follow_round list" where
  "demoRounds = [\<lparr>rdDrain = demoLog1, rdIo = [Count 1], rdFinished = False, rdCheck = demoLog1, rdCancelled = False\<rparr>,
     \<lparr>rdDrain = demoLog2, rdIo = [], rdFinished = True, rdCheck = demoLog2, rdCancelled = False\<rparr>]"

lemma demoRounds_seen: "seen 100 [(Line, [1, 2]), (Phase, [3])] [] demoRounds"
proof -
  let ?F = "[(Line, [1, 2]), (Phase, [3])]" and ?L = "[(Line, [1, 2])]"
  have "\<exists>rs1 rs2. spillRun 100 demoLog2 rs1 \<and> spillRun 100 demoLog2 rs2 \<and> prefix ?L rs1 \<and> prefix rs1 rs2 \<and> rs2 = ?F \<and> prefix rs2 ?F"
    by (rule exI [of _ ?F], rule exI [of _ ?F]) (use demoLog_run in simp)
  then have "seen 100 ?F ?L [demoRounds ! 1]" by (simp add: demoRounds_def)
  then have "\<exists>rs1 rs2. spillRun 100 demoLog1 rs1 \<and> spillRun 100 demoLog1 rs2 \<and> prefix [] rs1 \<and> prefix rs1 rs2 \<and> seen 100 ?F rs2 [demoRounds ! 1]"
    by (intro exI [of _ ?L]) (use demoLog_run in simp)
  then show ?thesis by (simp add: demoRounds_def)
qed

theorem follow_complete_witness: "followSpill demoRounds = (Some True, [(Line, [1, 2]), (Phase, [3])])"
  using follow_complete [OF demoRounds_seen] by (cases "followSpill demoRounds") (simp add: demoRounds_def clean_def)

end
