(* ===== verification/Spec2Isabelle.thy ===== *)
theory Spec2Isabelle
  imports DispatcherInv ExecReach Oidc BuildWalk SchedReactor Builder LogSpill
begin

text \<open>
  Verification of nix-grpc-store, a Nix store over gRPC with a build farm behind it.  File names below are those under
  \<^verbatim>\<open>src/src/\<close>.

  \<^bold>\<open>The program.\<close>  A client plugin (\<^verbatim>\<open>client/\<close>) finds out what a build needs, keeps its jobs in an executor
  and asks a scheduler for workers.  The daemon (\<^verbatim>\<open>daemon/\<close>) is scheduler, worker or both.  The scheduler
  is a core without I/O or locks, a dispatcher that puts it behind one mutex and knows the sessions, and a reactor
  per gRPC stream.  A worker answers the scheduler through its builder table, and keeps the log of each build for
  everybody who attaches to it.  Every call passes the access rules first.

  A build goes through these parts as follows.  The graph walk of the client gives the derivations to build, the executor
  wants those whose inputs are there, the dispatcher hands the Want to the core and sends what \<open>dispatch\<close> assigns as
  an Expect to the worker and an Assigned to the clients, the builder admits the client that comes for it, and its Done
  frees the slot and lets the executor release the jobs that waited.

  \<^bold>\<open>Theories.\<close>
  \<^item> \<open>Prelude\<close>: the state and exception monad \<open>prog\<close> for C++ methods, its weakest precondition \<open>wp\<close>, and lemmas on lists,
    maps and words.
  \<^item> \<open>IndexedHeap\<close> and \<open>FreeIndex\<close>: the two data structures of \<^verbatim>\<open>daemon/scheduler.hh\<close>, a four-ary heap with positions
    and buckets of free slots with a bit mask, each with the contract its client relies on as a locale
    (\<open>indexed_queue\<close>, \<open>free_index\<close>) and the interpretation (\<open>hq\<close>, \<open>fi\<close>) that the code satisfies it.  The scheduler
    proofs use them only through these.
  \<^item> \<open>SchedCore\<close>: class \<open>Core\<close> of \<^verbatim>\<open>daemon/scheduler.hh\<close>, its data and one definition per method.  \<open>SchedInv\<close> has
    the invariant \<open>coreInv\<close> and rules for the building blocks, \<open>SchedOps\<close> what each operation does and that it keeps the
    invariant, \<open>SchedDispatch\<close> the choice of a worker and the dispatch loop, \<open>SchedReach\<close> the reachable states and the
    properties of the core, \<open>SchedStats\<close> its counters.
  \<^item> \<open>Dispatcher\<close>: \<^verbatim>\<open>daemon/dispatcher.cc\<close>, with sessions, batches in chunks, cache lookups, messages, membership, orphans
    and gauges; \<open>DispatcherInv\<close> shows that whatever arrives in whatever order, its core stays reachable and its membership is
    current.
  \<^item> \<open>SchedReactor\<close>: \<^verbatim>\<open>daemon/sched-reactor.hh\<close> as an interleaving of its sections under the mutex and of the calls of gRPC.
  \<^item> \<open>Builder\<close>: class \<open>Builder\<close> of \<^verbatim>\<open>daemon/coordinator.cc\<close>, and that builder and core agree after a Hello.
  \<^item> \<open>LogSpill\<close>: \<^verbatim>\<open>daemon/log-spill.hh\<close>, the log file byte by byte.
  \<^item> \<open>Executor\<close>, \<open>ExecInv\<close>, \<open>ExecReach\<close>: class \<open>Executor\<close> of \<^verbatim>\<open>client/executor.hh\<close>, its invariant and its runs.
  \<^item> \<open>TopDown\<close> and \<open>BuildWalk\<close>: the two graph walks of \<^verbatim>\<open>top-down.hh\<close>; the graph and the store are parameters.
  \<^item> \<open>Access\<close>: \<^verbatim>\<open>daemon/acl.hh\<close>, \<^verbatim>\<open>daemon/xfcc.hh\<close> and \<^verbatim>\<open>daemon/auth.cc\<close>; \<open>Oidc\<close>: \<^verbatim>\<open>daemon/oidc.hh\<close>.

  \<^bold>\<open>What is shown.\<close>
  \<^item> Scheduler: a derivation is at one place (C1); dispatch assigns only what is right (C2), leaves no work it could assign (C3) and
    assigns by urgency (C34); Hello, workers and clients that leave, Done, give-backs and Wants lose nothing and invent nothing
    (C4, C5, C8, C9, C33); both data structures refine maps (C6, C7); the memoised reports are exact (C10, C35); nothing fails
    but for a full table or a Hello without address (C39).
  \<^item> Dispatcher and streams: C11, C12; messages leave in order and bounded (C16), a stream is finished once (C17).
  \<^item> Builder and log: every assignment is answered (C22), nothing is kept that nobody comes for (C36), the table is sound (C24), a
    Hello restores agreement (C23); a log is read back as written (C25), by followers too (C26), and is bounded (C37).
  \<^item> Client: counters, picks, progress and totality of the executor (C18, C20, C19, C21); the walks are exact and end
    (C13, C14, C15, C38).
  \<^item> Access: forwarded names (C27, C28), who is trusted (C29), tokens and keys (C30, C31, C32), the decision (C40).

  \<^bold>\<open>States left out.\<close>  A Hello that finds the table of derivations full throws half way and leaves its worker up with no free
  slots in the index.  \<open>coreReach cf True\<close> are the states without such a Hello, \<open>coreReach cf False\<close> all states.  C3 and C34
  need the first, and so does the membership (C12).  C22 leaves out an Expect for a derivation the builder already has while it
  drains; what happens then is \<open>draining_expect_of_held\<close>.

  \<^bold>\<open>Fuel and termination.\<close>  \<open>dispatchLoop\<close> has one turn more than there are queued derivations, and each turn takes one off its
  queue, so it never runs out (shown in C2).  The graph walks have fuel: C13 and C14 show that on a finite graph, acyclic for the
  build walk, enough fuel gives the result.  All other loops are total functions, with a measure where the recursion is not
  structural (\<open>settleLoop\<close>: the jobs not done and the work list; the parsers: the rest of the input).

  \<^bold>\<open>Modelling decisions.\<close>
  \<^item> Ids, sizes and offsets are naturals with the wrap-around or the range check written out where the code can reach it; log
    record lengths are 32-bit words.  In \<open>LogSpill\<close> offsets do not wrap.  A decrement in \<open>Executor\<close> wraps (\<open>dec64\<close>), and the
    invariant shows that none does.  In \<open>TopDown\<close> a user count that is missing or zero is one failure, which is shown not to occur.
  \<^item> Priorities and scores (\<open>prio\<close>, \<open>score\<close>) are reals where the code has doubles: rounding and ties made by it are not seen.
  \<^item> An unordered map that is iterated over is an association list: its order stands for some iteration order, which the real map may
    change on a rehash.  No property depends on it, except in which of equal candidates is taken.
  \<^item> \<open>byPrio\<close> is a stable sort where the code sorts partially, so the order among jobs of equal priority is one of those allowed.
  \<^item> The dispatcher reads its clock once per operation.  A large batch (\<open>applyChunks\<close>) applies its chunks one after
    the other: that another thread gets the lock between two chunks of one batch is not modelled.  Whether the
    stream of a worker is broken does not change within one operation (\<open>deliverAssign\<close>), and may change between any two.
  \<^item> A builder operation changes the table and sends its Done in one step, while the code releases the lock in between: the
    order in which two threads send is not modelled.  The look at \<open>draining\<close> and the lock of \<open>onExpect\<close> are two steps
    (\<open>BExpectLate\<close>).
  \<^item> \<open>loadConfig\<close> begins with the parsed file.  That a constructor of jwt-cpp throws in \<open>allowKey\<close> is not modelled; the code
    then rejects the token.
  \<^item> \<open>escDn\<close>, \<open>printDn\<close>, \<open>printPair\<close> and \<open>heldAfter\<close> are specifications: how a proxy writes its header, and how a scheduler reads the
    messages of a worker.  They translate no code.

  \<^bold>\<open>Parameters\<close> stand for code that is not part of the sources: \<open>fnmatch\<close>, decoding and verifying of tokens, OpenSSL and HTTP
  (\<open>oidcLib\<close>), the lookup in the shared cache (\<open>present\<close>), the outcomes of \<open>pread\<close> and \<open>pwrite\<close>, the graph and the store of the walks, and
  which callbacks gRPC makes.

  \<^bold>\<open>Not modelled.\<close>  The gRPC handlers of \<^verbatim>\<open>daemon/main.cc\<close>, the store plugin around the executor (\<^verbatim>\<open>client/build.cc\<close>,
  \<^verbatim>\<open>client/store.cc\<close>), transfers of NARs, uploads and the binary cache, the backend connection to the local
  nix-daemon, endpoint discovery and leader election, the sandbox, the command line, metrics and log lines: I/O, threads and
  calls to libraries around the parts above.
\<close>

end
